(* ===== verification/Prelude.thy ===== *)
theory Prelude
  imports Main "HOL-Library.Word" "HOL-Library.Multiset"
begin

text \<open>
  Shared vocabulary of the development: machine integers, pointers, the faults a kernel
  path can end in, the result type of fallible operations, and the generic lemmas on
  arrays (functions from indices), words and modular indices that the components use.
\<close>

section \<open>Machine types\<close>

type_synonym u64 = "64 word"
type_synonym u32 = "32 word"
type_synonym u8 = "8 word"

text \<open>
  A pointer is an address; 0 is the C null pointer. A C array \<open>T a[N]\<close> is a function from
  its indices; the operations that index it carry explicit bounds lemmas.
\<close>

type_synonym ptr = nat

abbreviation (input) NULL :: ptr where
  "NULL \<equiv> 0"

section \<open>Faults and results\<close>

text \<open>
  What stops a kernel path: dereferencing a null (or never assigned) pointer, an access through
  a pointer to no live object, an array access out of its bounds, the processor's divide error,
  a failed \<open>ASSERT\<close> (the build enables them) and an explicit call of \<open>panic\<close> with its message.
\<close>

datatype fault = NullDeref | BadPointer | OutOfBounds | DivideError | FailedAssert | Panic string

type_synonym 'a result = "fault + 'a"

definition bindr :: "'a result \<Rightarrow> ('a \<Rightarrow> 'b result) \<Rightarrow> 'b result" where
  "bindr r f = (case r of Inl e \<Rightarrow> Inl e | Inr x \<Rightarrow> f x)"

lemma bindr_simps [simp]:
  "bindr (Inl e) f = Inl e"
  "bindr (Inr x) f = f x"
  by (simp_all add: bindr_def)

lemma bindr_eq_Inr: "bindr r f = Inr y \<longleftrightarrow> (\<exists>x. r = Inr x \<and> f x = Inr y)"
  by (cases r) auto

text \<open>\<open>ASSERT(c)\<close> followed by the rest of the function.\<close>

definition assert_that :: "bool \<Rightarrow> 'a result \<Rightarrow> 'a result" where
  "assert_that c r = (if c then r else Inl FailedAssert)"

lemma assert_that_simps [simp]: "c \<Longrightarrow> assert_that c r = r" "\<not> c \<Longrightarrow> assert_that c r = Inl FailedAssert"
  by (simp_all add: assert_that_def)

lemma assert_that_Inr: "assert_that c r = Inr x \<longleftrightarrow> c \<and> r = Inr x"
  by (simp add: assert_that_def)

text \<open>A heap of one C structure type, and the access through a pointer into it.\<close>

type_synonym 'a heap = "ptr \<Rightarrow> 'a option"

definition load :: "'a heap \<Rightarrow> ptr \<Rightarrow> 'a result" where
  "load h p = (if p = NULL then Inl NullDeref else case h p of None \<Rightarrow> Inl BadPointer | Some x \<Rightarrow> Inr x)"

lemma load_simps [simp]:
  "load h NULL = Inl NullDeref"
  "\<lbrakk>p \<noteq> NULL; h p = Some x\<rbrakk> \<Longrightarrow> load h p = Inr x"
  by (simp_all add: load_def)

lemma load_Inr: "load h p = Inr x \<longleftrightarrow> p \<noteq> NULL \<and> h p = Some x"
  by (auto simp: load_def split: option.splits)

text \<open>C division of unsigned 64-bit values: a zero divisor raises the divide error.\<close>

definition udiv :: "u64 \<Rightarrow> u64 \<Rightarrow> u64 result" where
  "udiv a b = (if b = 0 then Inl DivideError else Inr (a div b))"

lemma udiv_Inr: "udiv a b = Inr c \<longleftrightarrow> b \<noteq> 0 \<and> c = a div b"
  by (auto simp: udiv_def)

lemma unat64_less: "unat (x :: u64) < 2 ^ 64"
  using unsigned_less [of x, where ?'a = nat] by simp

section \<open>Collections of facts\<close>

named_theorems heap_simps \<open>rewrite rules of the binary heap's index arithmetic\<close>
named_theorems queue_abs \<open>effect of each queue operation on the queue's abstraction\<close>
named_theorems queue_inv \<open>each queue operation keeps its invariant\<close>

section \<open>The elements of an array prefix\<close>

definition elems :: "(nat \<Rightarrow> 'a) \<Rightarrow> nat \<Rightarrow> 'a multiset" where
  "elems a n = mset (map a [0..<n])"

lemma elems_0 [simp]: "elems a 0 = {#}"
  by (simp add: elems_def)

lemma elems_Suc: "elems a (Suc n) = add_mset (a n) (elems a n)"
  by (simp add: elems_def)

lemma size_elems [simp]: "size (elems a n) = n"
  by (simp add: elems_def)

lemma set_elems: "set_mset (elems a n) = a ` {..<n}"
  by (auto simp: elems_def)

lemma elems_cong: "(\<And>i. i < n \<Longrightarrow> a i = b i) \<Longrightarrow> elems a n = elems b n"
  unfolding elems_def by (rule arg_cong [of _ _ mset]) simp

lemma elems_upd_out [simp]: "n \<le> i \<Longrightarrow> elems (a(i := x)) n = elems a n"
  by (rule elems_cong) simp

lemma elems_upd: "i < n \<Longrightarrow> elems (a(i := x)) n = add_mset x (elems a n - {#a i#})"
proof (induction n)
  case 0
  then show ?case by simp
next
  case (Suc n)
  show ?case
  proof (cases "i = n")
    case True
    then show ?thesis by (simp add: elems_Suc flip: fun_upd_def)
  next
    case False
    with Suc.prems have i: "i < n" by simp
    then have IH: "elems (a(i := x)) n = add_mset x (elems a n - {#a i#})"
      by (rule Suc.IH)
    have "a i \<in># elems a n" using i by (auto simp: set_elems)
    then have "add_mset (a n) (elems a n - {#a i#}) = add_mset (a n) (elems a n) - {#a i#}"
      by simp
    with False IH show ?thesis by (simp add: elems_Suc add_mset_commute flip: fun_upd_def)
  qed
qed

lemma nth_in_elems [intro]: "i < n \<Longrightarrow> a i \<in># elems a n"
  by (auto simp: set_elems)

lemma elems_add_back: "i < n \<Longrightarrow> add_mset (a i) (elems (a(i := x)) n) = add_mset x (elems a n)"
  using nth_in_elems [of i n a] by (simp add: elems_upd add_mset_commute)

lemma elems_move:
  assumes "i < n" "j < n"
  shows "elems (a(i := a j, j := x)) n = elems (a(i := x)) n"
proof (cases "i = j")
  case False
  have "add_mset (a j) (elems (a(i := a j, j := x)) n) = add_mset x (elems (a(i := a j)) n)"
    using elems_add_back [of j n "a(i := a j)" x] False assms by simp
  also have "\<dots> = add_mset (a j) (elems (a(i := x)) n)"
    using assms by (simp add: elems_upd add_mset_commute)
  finally show ?thesis by simp
qed simp

section \<open>Circular indices\<close>

lemma mod_succ_inj:
  fixes n i j t :: nat
  assumes "i < n" "j < n" "(t + i) mod n = (t + j) mod n"
  shows "i = j"
proof -
  have "i mod n = j mod n"
    using assms(3) unfolding nat_mod_eq_iff by auto
  with assms show ?thesis by simp
qed

end
