(* ===== verification/Sched_Types.thy ===== *)
theory Sched_Types
  imports Prelude
begin

text \<open>
  The data model of the scheduler: the constants and structures that
  \<^verbatim>\<open>include/nautilus/scheduler.h\<close>, \<^verbatim>\<open>include/nautilus/thread.h\<close>, \<^verbatim>\<open>include/dev/apic.h\<close> and
  \<^verbatim>\<open>src/nautilus/scheduler.c\<close> declare. An \<open>rt_thread *\<close> and the \<open>nk_thread *\<close> it belongs
  to are created together and point to each other for the thread's whole life, so one pointer
  value names both; \<open>ts\<close> maps it to the scheduler's structure and \<open>ks\<close> to the kernel's.
\<close>

section \<open>Constants\<close>

definition UTIL_ONE :: u64 where
  "UTIL_ONE = 1000000"

definition MAX_QUEUE :: nat where
  "MAX_QUEUE = 1024"

lemma MAX_QUEUE_pos [simp]: "0 < MAX_QUEUE"
  by (simp add: MAX_QUEUE_def)

section \<open>Thread constraints\<close>

datatype constraint_type = APERIODIC | SPORADIC | PERIODIC

text \<open>
  The three kinds of parameters share storage in a C union. The model keeps the union's four
  words, and the members are readings of them, so that a read through the wrong member gives
  what the machine gives.
\<close>

record nk_sched_constraints =
  ctype :: constraint_type
  interrupt_priority_class :: u8
  word0 :: u64
  word1 :: u64
  word2 :: u64
  word3 :: u64

definition aperiodic_priority :: "nk_sched_constraints \<Rightarrow> u64" where
  "aperiodic_priority c = word0 c"

definition periodic_phase :: "nk_sched_constraints \<Rightarrow> u64" where
  "periodic_phase c = word0 c"

definition periodic_period :: "nk_sched_constraints \<Rightarrow> u64" where
  "periodic_period c = word1 c"

definition periodic_slice :: "nk_sched_constraints \<Rightarrow> u64" where
  "periodic_slice c = word2 c"

definition periodic_start :: "nk_sched_constraints \<Rightarrow> u64" where
  "periodic_start c = word3 c"

definition sporadic_phase :: "nk_sched_constraints \<Rightarrow> u64" where
  "sporadic_phase c = word0 c"

definition sporadic_size :: "nk_sched_constraints \<Rightarrow> u64" where
  "sporadic_size c = word1 c"

definition sporadic_deadline :: "nk_sched_constraints \<Rightarrow> u64" where
  "sporadic_deadline c = word2 c"

definition sporadic_aperiodic_priority :: "nk_sched_constraints \<Rightarrow> u64" where
  "sporadic_aperiodic_priority c = word3 c"

lemmas constraint_words =
  aperiodic_priority_def periodic_phase_def periodic_period_def periodic_slice_def
  periodic_start_def sporadic_phase_def sporadic_size_def sporadic_deadline_def
  sporadic_aperiodic_priority_def

text \<open>An initialiser \<open>{ .type = APERIODIC, .aperiodic.priority = p }\<close> zeroes the other members.\<close>

definition aperiodic_constraints :: "u64 \<Rightarrow> nk_sched_constraints" where
  "aperiodic_constraints p =
     \<lparr>ctype = APERIODIC, interrupt_priority_class = 0, word0 = p, word1 = 0, word2 = 0, word3 = 0\<rparr>"

lemma aperiodic_constraints_simps [simp]:
  "ctype (aperiodic_constraints p) = APERIODIC"
  "interrupt_priority_class (aperiodic_constraints p) = 0"
  "aperiodic_priority (aperiodic_constraints p) = p"
  by (simp_all add: aperiodic_constraints_def aperiodic_priority_def)

section \<open>Threads\<close>

datatype queue_type = RUNNABLE_QUEUE | PENDING_QUEUE | APERIODIC_QUEUE

datatype rt_status = ARRIVED | ADMITTED | CHANGING | YIELDING | SLEEPING | EXITING | DENIED

record rt_thread =
  constraints :: nk_sched_constraints
  status :: rt_status
  q_type :: queue_type
  is_intr :: bool
  start_time :: u64
  cur_run_time :: u64
  run_time :: u64
  deadline :: u64
  exit_time :: u64
  arrival_count :: u64
  resched_count :: u64
  resched_long_count :: u64
  switch_in_count :: u64
  miss_count :: u64
  miss_time_sum :: u64
  miss_time_sum2 :: u64
  list_node :: ptr

text \<open>The structure after \<open>ZERO(t)\<close>: every member is 0.\<close>

definition zero_rt_thread :: rt_thread where
  "zero_rt_thread =
     \<lparr>constraints = aperiodic_constraints 0, status = ARRIVED, q_type = RUNNABLE_QUEUE,
      is_intr = False, start_time = 0, cur_run_time = 0, run_time = 0, deadline = 0,
      exit_time = 0, arrival_count = 0, resched_count = 0, resched_long_count = 0,
      switch_in_count = 0, miss_count = 0, miss_time_sum = 0, miss_time_sum2 = 0,
      list_node = NULL\<rparr>"

datatype nk_thread_status =
  NK_THR_INIT | NK_THR_RUNNING | NK_THR_WAITING | NK_THR_SUSPENDED | NK_THR_EXITED

text \<open>The members of \<open>struct nk_thread\<close> that the scheduler and the thread operations use.\<close>

record nk_thread =
  tid :: u64
  refcount :: u64
  tstatus :: nk_thread_status
  bound_cpu :: int
  current_cpu :: int
  is_idle :: bool

section \<open>Queues\<close>

record rt_queue =
  rq_type :: queue_type
  rq_size :: nat
  rq_head :: nat
  rq_tail :: nat
  rq_threads :: "nat \<Rightarrow> ptr"

record rt_priority_queue =
  pq_type :: queue_type
  pq_size :: nat
  pq_threads :: "nat \<Rightarrow> ptr"

section \<open>Per-CPU scheduler state\<close>

record nk_sched_config =
  util_limit :: u64
  sporadic_reservation :: u64
  aperiodic_reservation :: u64
  aperiodic_quantum :: u64
  aperiodic_default_priority :: u64

record tsc_info =
  sync_time :: u64
  sync_time_cycles :: u64
  set_time :: u64
  tsc_start_time :: u64
  end_time :: u64

text \<open>
  The build chooses one of four models for aperiodic threads. Round robin and lottery keep them
  in the circular \<open>rt_queue\<close>, the two dynamic models in an \<open>rt_priority_queue\<close>; lottery also
  keeps the total weight. The record holds the members of every build, and the operations of a
  build touch its own members only.
\<close>

datatype aper_model = ROUND_ROBIN | LOTTERY | DYNAMIC_QUANTUM | DYNAMIC_LIFETIME

text \<open>The instrumentation counters of one exit path of the scheduling pass, in cycles.\<close>

record inst_counters =
  inst_num :: u64
  inst_sum :: u64
  inst_sum2 :: u64
  inst_min :: u64
  inst_max :: u64

record rt_scheduler =
  cfg :: nk_sched_config
  current :: ptr
  runnable :: rt_priority_queue
  pending :: rt_priority_queue
  aperiodic :: rt_queue
  aperiodic_pq :: rt_priority_queue
  total_prob :: u64
  tsc :: tsc_info
  slack :: u64
  num_thefts :: u64
  resched_fast :: inst_counters
  resched_slow :: inst_counters
  resched_slow_noswitch :: inst_counters

definition zero_inst :: inst_counters where
  "zero_inst = \<lparr>inst_num = 0, inst_sum = 0, inst_sum2 = 0, inst_min = 0, inst_max = 0\<rparr>"

text \<open>The per-CPU structure after \<open>ZERO(state)\<close>.\<close>

definition zero_rt_scheduler :: rt_scheduler where
  "zero_rt_scheduler =
     \<lparr>cfg = \<lparr>util_limit = 0, sporadic_reservation = 0, aperiodic_reservation = 0,
             aperiodic_quantum = 0, aperiodic_default_priority = 0\<rparr>,
      current = NULL,
      runnable = \<lparr>pq_type = RUNNABLE_QUEUE, pq_size = 0, pq_threads = (\<lambda>_. NULL)\<rparr>,
      pending = \<lparr>pq_type = RUNNABLE_QUEUE, pq_size = 0, pq_threads = (\<lambda>_. NULL)\<rparr>,
      aperiodic = \<lparr>rq_type = RUNNABLE_QUEUE, rq_size = 0, rq_head = 0, rq_tail = 0, rq_threads = (\<lambda>_. NULL)\<rparr>,
      aperiodic_pq = \<lparr>pq_type = RUNNABLE_QUEUE, pq_size = 0, pq_threads = (\<lambda>_. NULL)\<rparr>,
      total_prob = 0,
      tsc = \<lparr>sync_time = 0, sync_time_cycles = 0, set_time = 0, tsc_start_time = 0, end_time = 0\<rparr>,
      slack = 0, num_thefts = 0,
      resched_fast = zero_inst, resched_slow = zero_inst, resched_slow_noswitch = zero_inst\<rparr>"

section \<open>The local APIC timer\<close>

record apic_dev =
  ps_per_tick :: u64
  cycles_per_us :: u64
  cycles_per_tick :: u64
  timer_set :: bool
  current_ticks :: u32
  timer_count :: u64
  in_timer_interrupt :: bool
  in_kick_interrupt :: bool

section \<open>What one CPU's scheduler works on\<close>

text \<open>\<open>cr8\<close> is the CPU's task priority register, which \<open>set_interrupt_priority\<close> writes.\<close>

record cpu_view =
  ts :: "ptr \<Rightarrow> rt_thread"
  ks :: "ptr \<Rightarrow> nk_thread"
  sched :: rt_scheduler
  apic :: apic_dev
  cr8 :: u64

text \<open>A machine state with every structure cleared, from which examples are built.\<close>

definition blank_view :: cpu_view where
  "blank_view =
     \<lparr>ts = (\<lambda>_. zero_rt_thread),
      ks = (\<lambda>_. \<lparr>tid = 0, refcount = 0, tstatus = NK_THR_INIT, bound_cpu = 0, current_cpu = 0, is_idle = False\<rparr>),
      sched = zero_rt_scheduler,
      apic = \<lparr>ps_per_tick = 0, cycles_per_us = 0, cycles_per_tick = 0, timer_set = False,
              current_ticks = 0, timer_count = 0, in_timer_interrupt = False, in_kick_interrupt = False\<rparr>,
      cr8 = 0\<rparr>"

definition upd_rt :: "ptr \<Rightarrow> (rt_thread \<Rightarrow> rt_thread) \<Rightarrow> cpu_view \<Rightarrow> cpu_view" where
  "upd_rt t f S = S\<lparr>ts := (ts S)(t := f (ts S t))\<rparr>"

definition upd_kt :: "ptr \<Rightarrow> (nk_thread \<Rightarrow> nk_thread) \<Rightarrow> cpu_view \<Rightarrow> cpu_view" where
  "upd_kt t f S = S\<lparr>ks := (ks S)(t := f (ks S t))\<rparr>"

definition upd_sched :: "(rt_scheduler \<Rightarrow> rt_scheduler) \<Rightarrow> cpu_view \<Rightarrow> cpu_view" where
  "upd_sched f S = S\<lparr>sched := f (sched S)\<rparr>"

lemma upd_simps [simp]:
  "ts (upd_rt t f S) = (ts S)(t := f (ts S t))"
  "ks (upd_rt t f S) = ks S"
  "sched (upd_rt t f S) = sched S"
  "apic (upd_rt t f S) = apic S"
  "cr8 (upd_rt t f S) = cr8 S"
  "ts (upd_kt t g S) = ts S"
  "ks (upd_kt t g S) = (ks S)(t := g (ks S t))"
  "sched (upd_kt t g S) = sched S"
  "apic (upd_kt t g S) = apic S"
  "cr8 (upd_kt t g S) = cr8 S"
  "ts (upd_sched h S) = ts S"
  "ks (upd_sched h S) = ks S"
  "sched (upd_sched h S) = h (sched S)"
  "apic (upd_sched h S) = apic S"
  "cr8 (upd_sched h S) = cr8 S"
  by (simp_all add: upd_rt_def upd_kt_def upd_sched_def)

end
