(* ===== verification/Prio_Queue.thy ===== *)
theory Prio_Queue
  imports Sched_Types
begin

text \<open>
  The scheduler's priority queues (\<open>rt_priority_queue_*\<close> of \<^verbatim>\<open>src/nautilus/scheduler.c\<close>): an
  implicit binary min-heap of thread pointers ordered by the deadline stored in the threads.
  The theory proves that the heap order is kept, that dequeue gives an earliest-deadline thread,
  that no operation loses or invents a thread, and that every slot the code reads lies inside
  the array and holds a thread.
\<close>

section \<open>The operations\<close>

definition parent :: "nat \<Rightarrow> nat" where
  "parent i = (if i \<noteq> 0 then (i - 1) div 2 else 0)"

definition left_child :: "nat \<Rightarrow> nat" where
  "left_child i = 2 * i + 1"

definition right_child :: "nat \<Rightarrow> nat" where
  "right_child i = 2 * i + 2"

text \<open>The \<open>while\<close> loop of enqueue: the hole at \<open>pos\<close> moves up while the parent is later.\<close>

function sift_up :: "(ptr \<Rightarrow> u64) \<Rightarrow> ptr \<Rightarrow> (nat \<Rightarrow> ptr) \<Rightarrow> nat \<Rightarrow> (nat \<Rightarrow> ptr) \<times> nat" where
  "sift_up d t a pos =
     (if d (a (parent pos)) > d t \<and> pos \<noteq> parent pos
      then sift_up d t (a(pos := a (parent pos))) (parent pos)
      else (a, pos))"
  by pat_completeness auto
termination
  by (relation "measure (\<lambda>(d, t, a, pos). pos)") (auto simp: parent_def split: if_splits)

definition rt_priority_queue_enqueue ::
    "(ptr \<Rightarrow> rt_thread) \<Rightarrow> rt_priority_queue \<Rightarrow> ptr \<Rightarrow>
     int \<times> (ptr \<Rightarrow> rt_thread) \<times> rt_priority_queue" where
  "rt_priority_queue_enqueue th q t =
     (if pq_size q = MAX_QUEUE then (-1, th, q)
      else let pos = pq_size q;
               (a, p) = sift_up (\<lambda>x. deadline (th x)) t ((pq_threads q)(pos := t)) pos
           in (0, th(t := (th t)\<lparr>q_type := pq_type q\<rparr>),
               q\<lparr>pq_size := pos + 1, pq_threads := a(p := t)\<rparr>))"

text \<open>
  The \<open>for\<close> loop of dequeue. The source guards the read of the right child with
  \<open>child < queue->size\<close> where \<open>child\<close> is the left child, so the right child is read even when
  its index is \<open>size\<close>, the slot \<open>last\<close> was just taken from.
\<close>

function sift_down ::
    "(ptr \<Rightarrow> u64) \<Rightarrow> ptr \<Rightarrow> nat \<Rightarrow> (nat \<Rightarrow> ptr) \<Rightarrow> nat \<Rightarrow> (nat \<Rightarrow> ptr) \<times> nat" where
  "sift_down d lst n a now =
     (if left_child now < n
      then let child = left_child now;
               child' = (if child < n \<and> d (a (right_child now)) < d (a (left_child now))
                         then right_child now else child)
           in if d lst > d (a child')
              then sift_down d lst n (a(now := a child')) child'
              else (a, now)
      else (a, now))"
  by pat_completeness auto
termination
  by (relation "measure (\<lambda>(d, lst, n, a, now). n - now)")
    (auto simp: left_child_def right_child_def)

declare sift_up.simps [simp del] sift_down.simps [simp del]

definition rt_priority_queue_dequeue ::
    "(ptr \<Rightarrow> rt_thread) \<Rightarrow> rt_priority_queue \<Rightarrow> ptr \<times> rt_priority_queue" where
  "rt_priority_queue_dequeue th q =
     (if pq_size q < 1 then (NULL, q)
      else let mn = pq_threads q 0;
               n = pq_size q - 1;
               lst = pq_threads q n;
               (a, now) = sift_down (\<lambda>x. deadline (th x)) lst n (pq_threads q) 0
           in (mn, q\<lparr>pq_size := n, pq_threads := a(now := lst)\<rparr>))"

definition rt_priority_queue_peek :: "rt_priority_queue \<Rightarrow> nat \<Rightarrow> ptr" where
  "rt_priority_queue_peek q pos = (if pos \<ge> pq_size q then NULL else pq_threads q pos)"

definition rt_priority_queue_empty :: "rt_priority_queue \<Rightarrow> bool" where
  "rt_priority_queue_empty q \<longleftrightarrow> pq_size q = 0"

lemma dequeue_size [simp]:
  "pq_size (snd (rt_priority_queue_dequeue th q)) = pq_size q - 1"
  "pq_type (snd (rt_priority_queue_dequeue th q)) = pq_type q"
  by (simp_all add: rt_priority_queue_dequeue_def Let_def split: prod.splits)

text \<open>
  Removal drains a copy of the queue into the emptied original, leaving the thread out. A failed
  re-enqueue is only reported by the source, and a null pointer counts as found.
\<close>

function remove_loop ::
    "(ptr \<Rightarrow> rt_thread) \<Rightarrow> ptr \<Rightarrow> rt_priority_queue \<Rightarrow> rt_priority_queue \<Rightarrow> bool \<Rightarrow>
     bool \<times> (ptr \<Rightarrow> rt_thread) \<times> rt_priority_queue" where
  "remove_loop th t temp q found =
     (if rt_priority_queue_empty temp then (found, th, q)
      else let (cur, temp') = rt_priority_queue_dequeue th temp
           in if cur \<noteq> NULL \<and> cur \<noteq> t
              then let (rc, th', q') = rt_priority_queue_enqueue th q cur
                   in remove_loop th' t temp' q' found
              else remove_loop th t temp' q True)"
  by pat_completeness auto
termination
proof (relation "measure (\<lambda>(th, t, temp, q, found). pq_size temp)", goal_cases)
  case 1
  show ?case by simp
next
  case (2 th t temp q found x cur temp')
  then have "pq_size temp' = pq_size temp - 1"
    using dequeue_size(1) [of th temp] by (metis snd_conv)
  with 2 show ?case by (simp add: rt_priority_queue_empty_def)
next
  case (3 th t temp q found x cur temp')
  then have "pq_size temp' = pq_size temp - 1"
    using dequeue_size(1) [of th temp] by (metis snd_conv)
  with 3 show ?case by (simp add: rt_priority_queue_empty_def)
qed

declare remove_loop.simps [simp del]

definition rt_priority_queue_remove ::
    "(ptr \<Rightarrow> rt_thread) \<Rightarrow> rt_priority_queue \<Rightarrow> ptr \<Rightarrow>
     ptr \<times> (ptr \<Rightarrow> rt_thread) \<times> rt_priority_queue" where
  "rt_priority_queue_remove th q t =
     (let (found, th', q') = remove_loop th t q (q\<lparr>pq_size := 0\<rparr>) False
      in (if \<not> found then NULL else t, th', q'))"

section \<open>Heap order\<close>

definition is_heap :: "(ptr \<Rightarrow> u64) \<Rightarrow> (nat \<Rightarrow> ptr) \<Rightarrow> nat \<Rightarrow> bool" where
  "is_heap d a n \<longleftrightarrow> (\<forall>i. 0 < i \<and> i < n \<longrightarrow> d (a (parent i)) \<le> d (a i))"

lemma parent_less [simp]: "0 < i \<Longrightarrow> parent i < i"
  by (simp add: parent_def)

lemma parent_le [simp]: "parent i \<le> i"
  by (cases "i = 0") (auto simp: parent_def)

lemma parent_lt: "i < n \<Longrightarrow> parent i < n"
  by (rule le_less_trans [OF parent_le])

lemma parent_neq [simp]: "i < n \<Longrightarrow> parent i \<noteq> n"
  using parent_lt [of i n] by simp

lemma parent_0 [simp]: "parent 0 = 0"
  by (simp add: parent_def)

lemma parent_eq_self [simp]: "parent i = i \<longleftrightarrow> i = 0" "i = parent i \<longleftrightarrow> i = 0"
  by (auto simp: parent_def)

lemma parent_child [simp]: "parent (left_child i) = i" "parent (right_child i) = i"
  by (simp_all add: parent_def left_child_def right_child_def)

lemma child_gt [simp]: "i < left_child i" "i < right_child i" "0 < left_child i" "0 < right_child i"
  by (simp_all add: left_child_def right_child_def)

lemma child_cases: "0 < i \<Longrightarrow> parent i = k \<Longrightarrow> i = left_child k \<or> i = right_child k"
  by (auto simp: parent_def left_child_def right_child_def)

lemma right_child_le: "left_child i < n \<Longrightarrow> right_child i \<le> n"
  by (simp add: left_child_def right_child_def)

lemma heap_root_least:
  assumes "is_heap d a n" "i < n"
  shows "d (a 0) \<le> d (a i)"
  using assms(2)
proof (induction i rule: less_induct)
  case (less i)
  show ?case
  proof (cases "i = 0")
    case False
    then have "d (a 0) \<le> d (a (parent i))"
      using less by simp
    also have "\<dots> \<le> d (a i)"
      using False assms(1) less.prems by (simp add: is_heap_def)
    finally show ?thesis .
  qed simp
qed

lemma is_heap_cong: "(\<And>i. i < n \<Longrightarrow> d (a i) = d' (b i)) \<Longrightarrow> is_heap d a n = is_heap d' b n"
  unfolding is_heap_def by (metis parent_less less_trans)

subsection \<open>Moving the hole up\<close>

text \<open>Heap order everywhere but between the hole at \<open>pos\<close> and its parent.\<close>

definition up_hole :: "(ptr \<Rightarrow> u64) \<Rightarrow> (nat \<Rightarrow> ptr) \<Rightarrow> nat \<Rightarrow> nat \<Rightarrow> bool" where
  "up_hole d b n pos \<longleftrightarrow>
     (\<forall>i. 0 < i \<and> i < n \<and> i \<noteq> pos \<longrightarrow> d (b (parent i)) \<le> d (b i)) \<and>
     (\<forall>i. 0 < i \<and> i < n \<and> parent i = pos \<and> 0 < pos \<longrightarrow> d (b (parent pos)) \<le> d (b i))"

lemma up_hole_step:
  assumes hole: "up_hole d (a(pos := t)) n pos" and n: "pos < n" and pos: "0 < pos"
    and gt: "d t < d (a (parent pos))"
  shows "up_hole d (a(pos := a (parent pos), parent pos := t)) n (parent pos)"
    (is "up_hole d ?b n ?p")
proof -
  have p: "?p < pos" using pos by simp
  have H: "d ((a(pos := t)) (parent i)) \<le> d ((a(pos := t)) i)" if "0 < i" "i < n" "i \<noteq> pos" for i
    using hole that by (simp add: up_hole_def)
  have K: "d (a ?p) \<le> d (a i)" if "0 < i" "i < n" "parent i = pos" for i
  proof -
    have "i \<noteq> pos" using that(1,3) by auto
    with hole that pos p show ?thesis by (auto simp: up_hole_def split: if_splits)
  qed
  have top: "d (a (parent ?p)) \<le> d (a ?p)" if "0 < ?p"
    using H [of ?p] that p n parent_le [of ?p] by (auto split: if_splits)
  have below: "d (a ?p) \<le> d (a i)" if "0 < i" "i < n" "i \<noteq> pos" "parent i = ?p" for i
    using H [of i] that p by (auto split: if_splits)
  have "d (?b (parent i)) \<le> d (?b i)" if i: "0 < i" "i < n" "i \<noteq> ?p" for i
  proof (cases "i = pos")
    case True
    with gt p show ?thesis by (simp add: less_imp_le)
  next
    case False
    consider "parent i = pos" | "parent i = ?p" | "parent i \<noteq> pos" "parent i \<noteq> ?p" by blast
    then show ?thesis
    proof cases
      case 1
      with K [of i] i False p show ?thesis by simp
    next
      case 2
      with below [of i] gt i False show ?thesis by simp
    next
      case 3
      with H [of i] i False show ?thesis by (simp split: if_splits)
    qed
  qed
  moreover have "d (?b (parent ?p)) \<le> d (?b i)" if "0 < i" "i < n" "parent i = ?p" "0 < ?p" for i
  proof -
    have ne: "parent ?p \<noteq> pos" "parent ?p \<noteq> ?p" "i \<noteq> ?p"
      using that p parent_less [OF that(4)] parent_less [OF that(1)] by linarith+
    show ?thesis
    proof (cases "i = pos")
      case True
      with ne top that show ?thesis by simp
    next
      case False
      with ne top below [of i] that show ?thesis by simp
    qed
  qed
  ultimately show ?thesis by (simp add: up_hole_def)
qed

lemma sift_up_heap:
  assumes "up_hole d (a(pos := t)) n pos" "pos < n" "sift_up d t a pos = (a', p)"
  shows "is_heap d (a'(p := t)) n" "elems (a'(p := t)) n = elems (a(pos := t)) n" "p < n"
proof -
  have "is_heap d (a'(p := t)) n \<and> elems (a'(p := t)) n = elems (a(pos := t)) n \<and> p < n"
    using assms
  proof (induction d t a pos rule: sift_up.induct)
    case (1 d t a pos)
    show ?case
    proof (cases "d (a (parent pos)) > d t \<and> pos \<noteq> parent pos")
      case True
      then have pos: "0 < pos" by simp
      let ?a = "a(pos := a (parent pos))"
      have "is_heap d (a'(p := t)) n \<and> elems (a'(p := t)) n = elems (?a(parent pos := t)) n \<and> p < n"
      proof (rule "1.IH" [OF True])
        show "up_hole d (?a(parent pos := t)) n (parent pos)"
          using up_hole_step [OF "1.prems"(1,2) pos] True by simp
        show "parent pos < n"
          using "1.prems"(2) parent_le [of pos] by linarith
        show "sift_up d t ?a (parent pos) = (a', p)"
          using "1.prems"(3) True by (simp add: sift_up.simps [of d t a pos])
      qed
      moreover have "elems (?a(parent pos := t)) n = elems (a(pos := t)) n"
        using "1.prems"(2) parent_le [of pos] by (intro elems_move) linarith+
      ultimately show ?thesis by (simp only: simp_thms)
    next
      case False
      then have [simp]: "a' = a" "p = pos"
        using "1.prems"(3) by (auto simp: sift_up.simps [of d t a pos])
      have "d ((a(pos := t)) (parent i)) \<le> d ((a(pos := t)) i)" if "0 < i" "i < n" for i
        using "1.prems"(1) False that by (cases "i = pos") (auto simp: up_hole_def)
      then show ?thesis using "1.prems"(2) by (simp add: is_heap_def)
    qed
  qed
  then show "is_heap d (a'(p := t)) n" "elems (a'(p := t)) n = elems (a(pos := t)) n" "p < n"
    by simp_all
qed

subsection \<open>Moving the hole down\<close>

text \<open>Heap order everywhere but between the hole at \<open>now\<close> and its children.\<close>

definition down_hole :: "(ptr \<Rightarrow> u64) \<Rightarrow> (nat \<Rightarrow> ptr) \<Rightarrow> nat \<Rightarrow> nat \<Rightarrow> bool" where
  "down_hole d b n now \<longleftrightarrow>
     (\<forall>i. 0 < i \<and> i < n \<and> parent i \<noteq> now \<longrightarrow> d (b (parent i)) \<le> d (b i)) \<and>
     (\<forall>i. 0 < i \<and> i < n \<and> parent i = now \<and> 0 < now \<longrightarrow> d (b (parent now)) \<le> d (b i))"

lemma down_hole_step:
  assumes hole: "down_hole d (a(now := t)) n now"
    and c: "c < n" "0 < c" "parent c = now"
    and gt: "d (a c) < d t"
    and least: "\<And>i. 0 < i \<Longrightarrow> i < n \<Longrightarrow> parent i = now \<Longrightarrow> d (a c) \<le> d (a i)"
  shows "down_hole d (a(now := a c, c := t)) n c" (is "down_hole d ?b n c")
proof -
  have now: "now < c" using c parent_less [of c] by simp
  have H: "d ((a(now := t)) (parent i)) \<le> d ((a(now := t)) i)"
    if "0 < i" "i < n" "parent i \<noteq> now" for i
    using hole that by (simp add: down_hole_def)
  have up: "d (a (parent now)) \<le> d (a c)" if "0 < now"
  proof -
    have "parent now \<noteq> now" "c \<noteq> now" using that now by auto
    with hole c that show ?thesis by (auto simp: down_hole_def)
  qed
  have sub: "d (a c) \<le> d (a i)" if "0 < i" "i < n" "parent i = c" for i
  proof -
    have "i \<noteq> now" "c \<noteq> now" using that now parent_less [of i] by auto
    with H [of i] that show ?thesis by (simp split: if_splits)
  qed
  have "d (?b (parent i)) \<le> d (?b i)" if i: "0 < i" "i < n" "parent i \<noteq> c" for i
  proof (cases "parent i = now")
    case True
    then have "i \<noteq> now" using i by auto
    with True i now gt least [of i] show ?thesis by (auto simp: less_imp_le)
  next
    case False
    consider "i = now" | "i = c" | "i \<noteq> now" "i \<noteq> c" by blast
    then show ?thesis
    proof cases
      case 1
      with up i now False show ?thesis by auto
    next
      case 2
      with c False show ?thesis by simp
    next
      case 3
      with H [of i] i False show ?thesis by simp
    qed
  qed
  moreover have "d (?b (parent c)) \<le> d (?b i)" if "0 < i" "i < n" "parent i = c" for i
  proof -
    have "i \<noteq> now" "i \<noteq> c" using that now parent_less [of i] by auto
    with sub [of i] that c now show ?thesis by simp
  qed
  ultimately show ?thesis unfolding down_hole_def by blast
qed

text \<open>
  The slot at index \<open>n\<close> still holds \<open>last\<close> while the loop runs. When the right child's index is
  \<open>n\<close>, the comparison therefore reads \<open>last\<close> itself: choosing that slot ends the loop, since
  \<open>last\<close> is not later than itself.
\<close>

lemma sift_down_step:
  "sift_down d t n a now =
     (if left_child now < n \<and>
         d t > d (a (if left_child now < n \<and> d (a (right_child now)) < d (a (left_child now))
                     then right_child now else left_child now))
      then sift_down d t n
             (a(now := a (if left_child now < n \<and> d (a (right_child now)) < d (a (left_child now))
                          then right_child now else left_child now)))
             (if left_child now < n \<and> d (a (right_child now)) < d (a (left_child now))
              then right_child now else left_child now)
      else (a, now))"
  by (simp add: sift_down.simps [of d t n a now] Let_def)

lemma sift_down_stop: "\<not> left_child now < n \<Longrightarrow> sift_down d t n a now = (a, now)"
  by (simp add: sift_down_step)

lemma sift_down_heap:
  assumes "down_hole d (a(now := t)) n now" "now < n" "a n = t"
    and "sift_down d t n a now = (a', p)"
  shows "is_heap d (a'(p := t)) n" "elems (a'(p := t)) n = elems (a(now := t)) n" "p < n"
proof -
  have "is_heap d (a'(p := t)) n \<and> elems (a'(p := t)) n = elems (a(now := t)) n \<and> p < n"
    using assms
  proof (induction d t n a now rule: sift_down.induct)
    case (1 d t n a now)
    let ?l = "left_child now" and ?r = "right_child now"
    let ?c = "if ?l < n \<and> d (a ?r) < d (a ?l) then ?r else ?l"
    have least: "d (a ?c) \<le> d (a i)" if "0 < i" "i < n" "parent i = now" for i
      using child_cases [OF that(1,3)] that(2)
      by (auto simp: not_less less_imp_le left_child_def right_child_def)
    show ?case
    proof (cases "?l < n \<and> d t > d (a ?c)")
      case True
      have c: "?c < n"
        using True right_child_le [of now n] "1.prems"(3) by (auto simp: le_less)
      have c': "0 < ?c" "parent ?c = now" by simp_all
      let ?a = "a(now := a ?c)"
      have "is_heap d (a'(p := t)) n \<and> elems (a'(p := t)) n = elems (?a(?c := t)) n \<and> p < n"
      proof (rule "1.IH" [OF conjunct1 [OF True] refl refl conjunct2 [OF True]])
        show "down_hole d (?a(?c := t)) n ?c"
          by (rule down_hole_step [OF "1.prems"(1) c c' conjunct2 [OF True] least])
        show "?c < n" by (rule c)
        show "?a n = t" using "1.prems"(2,3) by simp
        show "sift_down d t n ?a ?c = (a', p)"
          using "1.prems"(4) unfolding sift_down_step [of d t n a now] if_P [OF True] .
      qed
      moreover have "elems (?a(?c := t)) n = elems (a(now := t)) n"
        using "1.prems"(2) c by (intro elems_move)
      ultimately show ?thesis by (simp only: simp_thms)
    next
      case False
      then have [simp]: "a' = a" "p = now"
        using "1.prems"(4) by (auto simp: sift_down.simps [of d t n a now] Let_def split: if_splits)
      have "d ((a(now := t)) (parent i)) \<le> d ((a(now := t)) i)" if i: "0 < i" "i < n" for i
      proof (cases "parent i = now")
        case True
        then have "?l < n" using child_cases [OF i(1) True] i(2)
          by (auto simp: left_child_def right_child_def)
        with False have "d t \<le> d (a ?c)" by (simp add: not_less)
        also have "\<dots> \<le> d (a i)" by (rule least [OF i True])
        finally show ?thesis using True i by auto
      next
        case False
        with "1.prems"(1) i show ?thesis by (simp add: down_hole_def)
      qed
      then show ?thesis using "1.prems"(2) by (simp add: is_heap_def)
    qed
  qed
  then show "is_heap d (a'(p := t)) n" "elems (a'(p := t)) n = elems (a(now := t)) n" "p < n"
    by simp_all
qed

section \<open>Queue invariant and the effect of the operations\<close>

definition pq_elems :: "rt_priority_queue \<Rightarrow> ptr multiset" where
  "pq_elems q = elems (pq_threads q) (pq_size q)"

definition pq_inv :: "(ptr \<Rightarrow> rt_thread) \<Rightarrow> rt_priority_queue \<Rightarrow> bool" where
  "pq_inv th q \<longleftrightarrow>
     pq_size q \<le> MAX_QUEUE \<and>
     is_heap (\<lambda>x. deadline (th x)) (pq_threads q) (pq_size q) \<and>
     NULL \<notin># pq_elems q"

lemma size_pq_elems [simp]: "size (pq_elems q) = pq_size q"
  by (simp add: pq_elems_def)

lemma pq_elems_0 [simp]: "pq_size q = 0 \<Longrightarrow> pq_elems q = {#}"
  by (simp add: pq_elems_def)

lemma pq_inv_cong:
  assumes "\<And>x. x \<in># pq_elems q \<Longrightarrow> deadline (th x) = deadline (th' x)"
  shows "pq_inv th q = pq_inv th' q"
proof -
  have "deadline (th (pq_threads q i)) = deadline (th' (pq_threads q i))" if "i < pq_size q" for i
    using assms that by (auto simp: pq_elems_def)
  then have "is_heap (\<lambda>x. deadline (th x)) (pq_threads q) (pq_size q) =
      is_heap (\<lambda>x. deadline (th' x)) (pq_threads q) (pq_size q)"
    by (intro is_heap_cong) simp
  then show ?thesis by (simp add: pq_inv_def)
qed

lemma enqueue_full: "pq_size q = MAX_QUEUE \<Longrightarrow> rt_priority_queue_enqueue th q t = (-1, th, q)"
  by (simp add: rt_priority_queue_enqueue_def)

lemma enqueue_room:
  assumes inv: "pq_inv th q" and t: "t \<noteq> NULL" and room: "pq_size q < MAX_QUEUE"
  obtains q' where
    "rt_priority_queue_enqueue th q t = (0, th(t := (th t)\<lparr>q_type := pq_type q\<rparr>), q')"
    "pq_inv th q'" "pq_elems q' = add_mset t (pq_elems q)" "pq_type q' = pq_type q"
proof -
  let ?d = "\<lambda>x. deadline (th x)" and ?n = "pq_size q" and ?a = "pq_threads q"
  obtain a p where ap: "sift_up ?d t (?a(?n := t)) ?n = (a, p)" by fastforce
  let ?q' = "q\<lparr>pq_size := ?n + 1, pq_threads := a(p := t)\<rparr>"
  have hole: "up_hole ?d (?a(?n := t, ?n := t)) (Suc ?n) ?n"
    using inv by (auto simp: up_hole_def pq_inv_def is_heap_def less_Suc_eq)
  note H = sift_up_heap [OF hole _ ap, simplified]
  have el: "pq_elems ?q' = add_mset t (pq_elems q)"
    using H(2) by (simp add: pq_elems_def elems_Suc flip: fun_upd_def)
  have "pq_inv th ?q'"
    using H(1) inv t room el by (simp add: pq_inv_def)
  moreover have "rt_priority_queue_enqueue th q t =
      (0, th(t := (th t)\<lparr>q_type := pq_type q\<rparr>), ?q')"
    using room ap by (simp add: rt_priority_queue_enqueue_def Let_def)
  ultimately show ?thesis using that el by simp
qed

lemma dequeue_empty: "pq_size q = 0 \<Longrightarrow> rt_priority_queue_dequeue th q = (NULL, q)"
  by (simp add: rt_priority_queue_dequeue_def)

lemma dequeue_nonempty:
  assumes inv: "pq_inv th q" and ne: "pq_size q \<noteq> 0"
  obtains q' where
    "rt_priority_queue_dequeue th q = (pq_threads q 0, q')"
    "pq_inv th q'" "pq_elems q = add_mset (pq_threads q 0) (pq_elems q')" "pq_type q' = pq_type q"
    "\<And>x. x \<in># pq_elems q \<Longrightarrow> deadline (th (pq_threads q 0)) \<le> deadline (th x)"
proof -
  let ?d = "\<lambda>x. deadline (th x)" and ?a = "pq_threads q"
  obtain n where n: "pq_size q = Suc n" using ne by (cases "pq_size q") auto
  obtain a p where ap: "sift_down ?d (?a n) n ?a 0 = (a, p)" by fastforce
  let ?q' = "q\<lparr>pq_size := n, pq_threads := a(p := ?a n)\<rparr>"
  have heap: "is_heap ?d ?a (Suc n)" using inv n by (simp add: pq_inv_def)
  have both: "is_heap ?d (a(p := ?a n)) n \<and>
      elems ?a (Suc n) = add_mset (?a 0) (elems (a(p := ?a n)) n)"
  proof (cases "n = 0")
    case True
    then show ?thesis by (simp add: is_heap_def elems_Suc)
  next
    case False
    have hole: "down_hole ?d (?a(0 := ?a n)) n 0"
      using heap by (auto simp: down_hole_def is_heap_def)
    note H = sift_down_heap [OF hole _ refl ap]
    have "elems ?a (Suc n) = add_mset (?a 0) (elems (?a(0 := ?a n)) n)"
      using False elems_add_back [of 0 n ?a "?a n"] by (simp add: elems_Suc)
    with H False show ?thesis by simp
  qed
  then have el: "pq_elems q = add_mset (?a 0) (pq_elems ?q')"
    by (simp add: pq_elems_def n)
  have "pq_inv th ?q'"
    using both inv n el by (simp add: pq_inv_def)
  moreover have "rt_priority_queue_dequeue th q = (?a 0, ?q')"
    using ne n ap by (simp add: rt_priority_queue_dequeue_def Let_def)
  moreover have "deadline (th (?a 0)) \<le> deadline (th x)" if "x \<in># pq_elems q" for x
    using that heap_root_least [OF heap] by (auto simp: pq_elems_def set_elems n)
  ultimately show ?thesis using that el by simp
qed

subsection \<open>Removal\<close>

text \<open>Two thread stores that differ in the queue tags of threads at most.\<close>

definition same_but_qtype :: "(ptr \<Rightarrow> rt_thread) \<Rightarrow> (ptr \<Rightarrow> rt_thread) \<Rightarrow> bool" where
  "same_but_qtype th th' \<longleftrightarrow> (\<forall>x. (th' x)\<lparr>q_type := RUNNABLE_QUEUE\<rparr> = (th x)\<lparr>q_type := RUNNABLE_QUEUE\<rparr>)"

lemma same_but_qtype_refl [simp]: "same_but_qtype th th"
  by (simp add: same_but_qtype_def)

lemma same_but_qtype_upd: "same_but_qtype th th' \<Longrightarrow> same_but_qtype th (th'(t := (th' t)\<lparr>q_type := k\<rparr>))"
  by (simp add: same_but_qtype_def)

lemma same_but_qtype_deadline: "same_but_qtype th th' \<Longrightarrow> deadline (th' x) = deadline (th x)"
  unfolding same_but_qtype_def
  by (drule spec [of _ x], drule arg_cong [of _ _ deadline]) simp

lemma same_but_qtype_inv: "same_but_qtype th th' \<Longrightarrow> pq_inv th' q = pq_inv th q"
  by (rule pq_inv_cong) (simp add: same_but_qtype_deadline)

lemma remove_loop_spec:
  assumes "pq_inv th0 temp" "pq_inv th0 q" "same_but_qtype th0 th" "pq_size temp + pq_size q \<le> MAX_QUEUE"
    "remove_loop th t temp q found = (found', th', q')"
  shows "pq_inv th0 q' \<and> same_but_qtype th0 th' \<and> pq_type q' = pq_type q \<and>
     pq_elems q' = pq_elems q + filter_mset (\<lambda>x. x \<noteq> t) (pq_elems temp) \<and>
     (found' \<longleftrightarrow> found \<or> t \<in># pq_elems temp)"
  using assms
proof (induction th t temp q found rule: remove_loop.induct)
  case (1 th t temp q found)
  show ?case
  proof (cases "pq_size temp = 0")
    case True
    with "1.prems" have "found' = found" "th' = th" "q' = q"
      by (auto simp: remove_loop.simps [of th t temp q found] rt_priority_queue_empty_def)
    with "1.prems" True show ?thesis by simp
  next
    case False
    let ?cur = "pq_threads temp 0"
    have inv: "pq_inv th temp" "pq_inv th q"
      using "1.prems"(1,2,3) by (simp_all add: same_but_qtype_inv)
    obtain temp' where d: "rt_priority_queue_dequeue th temp = (?cur, temp')"
      "pq_inv th temp'" "pq_elems temp = add_mset ?cur (pq_elems temp')"
      using dequeue_nonempty [OF inv(1) False] by metis
    have cur: "?cur \<noteq> NULL"
      using inv(1) d(3) by (auto simp: pq_inv_def)
    have sz: "pq_size temp = Suc (pq_size temp')"
      using arg_cong [OF d(3), of size] by simp
    have inv': "pq_inv th0 temp'"
      using d(2) "1.prems"(3) by (simp add: same_but_qtype_inv)
    have ne: "\<not> rt_priority_queue_empty temp" using False by (simp add: rt_priority_queue_empty_def)
    show ?thesis
    proof (cases "?cur = t")
      case True
      have "remove_loop th t temp' q True = (found', th', q')"
        using "1.prems"(5) ne d(1) True by (simp add: remove_loop.simps [of th t temp q found])
      with "1.IH"(2) [OF ne d(1) [symmetric] refl] True inv' "1.prems"(2-4) sz
      show ?thesis by (auto simp: d(3))
    next
      case neq: False
      have room: "pq_size q < MAX_QUEUE" using "1.prems"(4) sz by simp
      obtain q2 where e: "rt_priority_queue_enqueue th q ?cur = (0, th(?cur := (th ?cur)\<lparr>q_type := pq_type q\<rparr>), q2)"
        "pq_inv th q2" "pq_elems q2 = add_mset ?cur (pq_elems q)" "pq_type q2 = pq_type q"
        using enqueue_room [OF inv(2) cur room] by metis
      let ?th2 = "th(?cur := (th ?cur)\<lparr>q_type := pq_type q\<rparr>)"
      have sz2: "pq_size q2 = Suc (pq_size q)"
        using arg_cong [OF e(3), of size] by simp
      have rec: "remove_loop ?th2 t temp' q2 found = (found', th', q')"
        using "1.prems"(5) ne d(1) e(1) cur neq by (simp add: remove_loop.simps [of th t temp q found])
      have inv2: "pq_inv th0 q2" "same_but_qtype th0 ?th2"
        using e(2) "1.prems"(3) by (simp_all add: same_but_qtype_inv same_but_qtype_upd)
      have "pq_size temp' + pq_size q2 \<le> MAX_QUEUE" using "1.prems"(4) sz sz2 by simp
      note IH = "1.IH"(1) [OF ne d(1) [symmetric] refl conjI [OF cur neq] e(1) [symmetric] refl refl
          inv' inv2 this rec]
      then show ?thesis using neq e(4) by (simp add: d(3) e(3))
    qed
  qed
qed

lemma remove_spec:
  assumes inv: "pq_inv th q" and r: "rt_priority_queue_remove th q t = (r, th', q')"
  shows "pq_inv th' q'" "same_but_qtype th th'" "pq_type q' = pq_type q"
    "pq_elems q' = filter_mset (\<lambda>x. x \<noteq> t) (pq_elems q)"
    "r = (if t \<in># pq_elems q then t else NULL)"
proof -
  let ?q0 = "q\<lparr>pq_size := 0\<rparr>"
  obtain found where rl: "remove_loop th t q ?q0 False = (found, th', q')"
    and found: "r = (if \<not> found then NULL else t)"
    using r by (auto simp: rt_priority_queue_remove_def split: prod.splits)
  have q0: "pq_inv th ?q0" "pq_elems ?q0 = {#}"
    by (simp_all add: pq_inv_def is_heap_def pq_elems_def)
  have "pq_size q + pq_size ?q0 \<le> MAX_QUEUE" using inv by (simp add: pq_inv_def)
  note S = remove_loop_spec [OF inv q0(1) same_but_qtype_refl this rl]
  show "pq_inv th' q'" "same_but_qtype th th'" "pq_type q' = pq_type q"
    "pq_elems q' = filter_mset (\<lambda>x. x \<noteq> t) (pq_elems q)"
    "r = (if t \<in># pq_elems q then t else NULL)"
    using S found q0(2) by (auto simp: same_but_qtype_inv)
qed

section \<open>The contract of a deadline queue\<close>

text \<open>
  What the scheduling pass relies on: \<open>put\<close> adds a thread or reports a full queue, \<open>get\<close>
  hands out a member with the least key, and neither touches the keys. The store \<open>'s\<close> is where
  the keys live, outside the queue.
\<close>

locale deadline_queue =
  fixes invar :: "'s \<Rightarrow> 'q \<Rightarrow> bool"
    and members :: "'q \<Rightarrow> 'a multiset"
    and key :: "'s \<Rightarrow> 'a \<Rightarrow> 'k::linorder"
    and valid :: "'a \<Rightarrow> bool"
    and capacity :: nat
    and put :: "'s \<Rightarrow> 'q \<Rightarrow> 'a \<Rightarrow> int \<times> 's \<times> 'q"
    and get :: "'s \<Rightarrow> 'q \<Rightarrow> 'a \<times> 'q"
  assumes put_room:
      "invar s q \<Longrightarrow> valid x \<Longrightarrow> size (members q) < capacity \<Longrightarrow> put s q x = (rc, s', q') \<Longrightarrow>
       rc = 0 \<and> invar s' q' \<and> members q' = add_mset x (members q) \<and> (\<forall>y. key s' y = key s y)"
    and put_full:
      "invar s q \<Longrightarrow> size (members q) = capacity \<Longrightarrow> put s q x = (-1, s, q)"
    and get_least:
      "invar s q \<Longrightarrow> members q \<noteq> {#} \<Longrightarrow> get s q = (x, q') \<Longrightarrow>
       valid x \<and> invar s q' \<and> members q = add_mset x (members q') \<and>
       (\<forall>y \<in># members q. key s x \<le> key s y)"
    and bounded: "invar s q \<Longrightarrow> size (members q) \<le> capacity"
    and stable: "invar s q \<Longrightarrow> (\<And>x. x \<in># members q \<Longrightarrow> key s' x = key s x) \<Longrightarrow> invar s' q"
begin

lemma put_rc: "invar s q \<Longrightarrow> valid x \<Longrightarrow> put s q x = (rc, s', q') \<Longrightarrow>
    rc = (if size (members q) = capacity then -1 else 0)"
  using put_room [of s q x rc s' q'] put_full [of s q x] bounded [of s q] by (auto simp: le_less)

lemma get_get_ordered:
  assumes "invar s q" "get s q = (x, q1)" "members q \<noteq> {#}"
    and "get s q1 = (y, q2)" "members q1 \<noteq> {#}"
  shows "key s x \<le> key s y"
proof -
  have 1: "invar s q1" "members q = add_mset x (members q1)" "\<forall>z \<in># members q. key s x \<le> key s z"
    using get_least [OF assms(1,3,2)] by auto
  have "members q1 = add_mset y (members q2)"
    using get_least [OF 1(1) assms(5,4)] by auto
  with 1 show ?thesis by simp
qed

lemma put_get:
  assumes "invar s q" "valid x" "put s q x = (0, s', q1)" "get s' q1 = (y, q2)"
    and "size (members q) < capacity"
  shows "y \<in># add_mset x (members q)" "key s y \<le> key s x"
    "\<And>z. z \<in># members q \<Longrightarrow> key s y \<le> key s z"
    "members q2 = add_mset x (members q) - {#y#}" "invar s' q2"
proof -
  have 1: "invar s' q1" "members q1 = add_mset x (members q)" "\<forall>y. key s' y = key s y"
    using put_room [OF assms(1,2,5,3)] by auto
  have "members q1 \<noteq> {#}" using 1(2) by simp
  then have 2: "members q1 = add_mset y (members q2)" "\<forall>z \<in># members q1. key s' y \<le> key s' z"
    "invar s' q2"
    using get_least [OF 1(1) _ assms(4)] by blast+
  have eq: "add_mset x (members q) = add_mset y (members q2)" using 1(2) 2(1) by simp
  then show "y \<in># add_mset x (members q)" "members q2 = add_mset x (members q) - {#y#}" by simp_all
  show "key s y \<le> key s x" "\<And>z. z \<in># members q \<Longrightarrow> key s y \<le> key s z"
    using 2(2) 1(3) unfolding 1(2) by simp_all
  show "invar s' q2" by (rule 2(3))
qed

end

lemma pq_dequeue_spec:
  assumes "pq_inv th q" "pq_elems q \<noteq> {#}" "rt_priority_queue_dequeue th q = (x, q')"
  shows "x \<noteq> NULL \<and> pq_inv th q' \<and> pq_elems q = add_mset x (pq_elems q') \<and>
      (\<forall>y \<in># pq_elems q. deadline (th x) \<le> deadline (th y))"
proof -
  have ne: "pq_size q \<noteq> 0" using assms(2) pq_elems_0 by blast
  obtain q1 where q1: "rt_priority_queue_dequeue th q = (pq_threads q 0, q1)"
    "pq_inv th q1" "pq_elems q = add_mset (pq_threads q 0) (pq_elems q1)"
    "\<And>x. x \<in># pq_elems q \<Longrightarrow> deadline (th (pq_threads q 0)) \<le> deadline (th x)"
    using dequeue_nonempty [OF assms(1) ne] by blast
  with assms(1,3) show ?thesis by (auto simp: pq_inv_def)
qed

lemma pq_enqueue_spec:
  assumes "pq_inv th q" "x \<noteq> NULL" "pq_size q < MAX_QUEUE"
    "rt_priority_queue_enqueue th q x = (rc, th', q')"
  shows "rc = 0 \<and> th' = th(x := (th x)\<lparr>q_type := pq_type q\<rparr>) \<and> pq_inv th' q' \<and>
    pq_elems q' = add_mset x (pq_elems q) \<and> pq_type q' = pq_type q \<and>
    (\<forall>y. deadline (th' y) = deadline (th y))"
proof -
  obtain q1 where q1: "rt_priority_queue_enqueue th q x = (0, th(x := (th x)\<lparr>q_type := pq_type q\<rparr>), q1)"
    "pq_inv th q1" "pq_elems q1 = add_mset x (pq_elems q)" "pq_type q1 = pq_type q"
    using enqueue_room [OF assms(1-3)] by blast
  moreover have "pq_inv (th(x := (th x)\<lparr>q_type := pq_type q\<rparr>)) q1"
    using q1(2) pq_inv_cong [of q1 th "th(x := (th x)\<lparr>q_type := pq_type q\<rparr>)"] by simp
  ultimately show ?thesis using assms(4) by simp
qed

interpretation edf: deadline_queue pq_inv pq_elems "\<lambda>th x. deadline (th x)" "\<lambda>x. x \<noteq> NULL"
  MAX_QUEUE rt_priority_queue_enqueue rt_priority_queue_dequeue
proof
  fix th q x rc th' q'
  assume A: "pq_inv th q" "x \<noteq> NULL" "size (pq_elems q) < MAX_QUEUE"
    "rt_priority_queue_enqueue th q x = (rc, th', q')"
  show "rc = 0 \<and> pq_inv th' q' \<and> pq_elems q' = add_mset x (pq_elems q) \<and>
      (\<forall>y. deadline (th' y) = deadline (th y))"
    using pq_enqueue_spec [OF A(1,2) A(3) [unfolded size_pq_elems] A(4)] by blast
next
  fix th q x
  assume "size (pq_elems q) = MAX_QUEUE"
  then show "rt_priority_queue_enqueue th q x = (-1, th, q)"
    by (simp add: enqueue_full)
next
  fix th q x q'
  assume "pq_inv th q" "pq_elems q \<noteq> {#}" "rt_priority_queue_dequeue th q = (x, q')"
  then show "x \<noteq> NULL \<and> pq_inv th q' \<and> pq_elems q = add_mset x (pq_elems q') \<and>
      (\<forall>y \<in># pq_elems q. deadline (th x) \<le> deadline (th y))"
    by (intro pq_dequeue_spec)
next
  fix th q
  assume "pq_inv th q"
  then show "size (pq_elems q) \<le> MAX_QUEUE" by (simp add: pq_inv_def)
next
  fix th th' :: "ptr \<Rightarrow> rt_thread" and q
  assume "pq_inv th q" "\<And>x. x \<in># pq_elems q \<Longrightarrow> deadline (th' x) = deadline (th x)"
  then show "pq_inv th' q" using pq_inv_cong [of q th th'] by simp
qed

section \<open>Only slots in use are read\<close>

lemma sift_down_local:
  assumes "\<And>i. i \<le> n \<Longrightarrow> a i = b i" "sift_down d t n a now = (a', p)" "sift_down d t n b now = (b', r)"
  shows "p = r \<and> (\<forall>i \<le> n. a' i = b' i)"
  using assms
proof (induction d t n a now arbitrary: b rule: sift_down.induct)
  case (1 d t n a now)
  let ?l = "left_child now" and ?r = "right_child now"
  let ?c = "if ?l < n \<and> d (a ?r) < d (a ?l) then ?r else ?l"
  show ?case
  proof (cases "?l < n")
    case True
    then have eq: "a ?l = b ?l" "a ?r = b ?r"
      using "1.prems"(1) right_child_le [of now n] by auto
    then have eqc: "a ?c = b ?c" by simp
    show ?thesis
    proof (cases "d t > d (a ?c)")
      case gt: True
      show ?thesis
      proof (rule "1.IH" [OF True refl refl gt])
        show "(a(now := a ?c)) i = (b(now := a ?c)) i" if "i \<le> n" for i
          using "1.prems"(1) that by simp
        show "sift_down d t n (a(now := a ?c)) ?c = (a', p)"
          using "1.prems"(2) unfolding sift_down_step [of d t n a now] if_P [OF conjI [OF True gt]] .
        have cb: "(if ?l < n \<and> d (b ?r) < d (b ?l) then ?r else ?l) = ?c"
          by (simp add: eq)
        have gt': "?l < n \<and> d t > d (b ?c)" using True gt eqc by simp
        show "sift_down d t n (b(now := a ?c)) ?c = (b', r)"
          using "1.prems"(3) unfolding sift_down_step [of d t n b now] cb if_P [OF gt'] eqc .
      qed
    next
      case False
      with True eq "1.prems" show ?thesis
        by (auto simp: sift_down.simps [of d t n a now] sift_down.simps [of d t n b now] Let_def
            split: if_splits)
    qed
  next
    case False
    with "1.prems" show ?thesis by (auto simp: sift_down_stop)
  qed
qed

section \<open>Properties\<close>

lemma is_heap_upt [code]: "is_heap d a n \<longleftrightarrow> list_all (\<lambda>i. d (a (parent i)) \<le> d (a i)) [1..<n]"
  by (auto simp: is_heap_def list_all_iff)

text \<open>
  C9. Dequeuing a non-empty priority queue that satisfies its invariant returns a thread of the
  queue whose deadline is the earliest of all, takes exactly that thread out, and leaves a queue
  that satisfies the invariant again.
\<close>

theorem dequeue_earliest_deadline:
  assumes "pq_inv th q" "pq_size q \<noteq> 0"
  shows "\<exists>x q'. rt_priority_queue_dequeue th q = (x, q') \<and> x \<noteq> NULL \<and> pq_inv th q' \<and>
     pq_elems q = add_mset x (pq_elems q') \<and>
     (\<forall>y \<in># pq_elems q. deadline (th x) \<le> deadline (th y))"
proof -
  obtain x q' where d: "rt_priority_queue_dequeue th q = (x, q')" by fastforce
  have "pq_elems q \<noteq> {#}" using assms(2) by (metis size_pq_elems size_empty)
  with edf.get_least [OF assms(1) this d] d show ?thesis by blast
qed

definition sample_store :: "ptr \<Rightarrow> rt_thread" where
  "sample_store x = zero_rt_thread\<lparr>deadline := of_nat x\<rparr>"

definition sample_pq :: rt_priority_queue where
  "sample_pq = \<lparr>pq_type = RUNNABLE_QUEUE, pq_size = 4, pq_threads = (\<lambda>_. 0)(0 := 2, 1 := 5, 2 := 3, 3 := 9)\<rparr>"

lemma sample_pq_inv: "pq_inv sample_store sample_pq"
  by code_simp

theorem dequeue_earliest_deadline_witness:
  "pq_size sample_pq = 4 \<and>
   (\<exists>x q'. rt_priority_queue_dequeue sample_store sample_pq = (x, q') \<and> x \<noteq> NULL \<and>
     pq_inv sample_store q' \<and> pq_elems sample_pq = add_mset x (pq_elems q') \<and>
     (\<forall>y \<in># pq_elems sample_pq. deadline (sample_store x) \<le> deadline (sample_store y)))"
  using dequeue_earliest_deadline [OF sample_pq_inv] by (simp add: sample_pq_def)

text \<open>
  C29. Enqueuing a thread into a priority queue with room succeeds, adds exactly that thread, tags
  it with the queue's type and changes nothing else of any thread, and keeps the invariant; a
  full queue refuses with -1 and is left as it was.
\<close>

theorem enqueue_adds_or_refuses:
  assumes "pq_inv th q" "t \<noteq> NULL"
  shows "if pq_size q = MAX_QUEUE then rt_priority_queue_enqueue th q t = (-1, th, q)
    else \<exists>q'. rt_priority_queue_enqueue th q t = (0, th(t := (th t)\<lparr>q_type := pq_type q\<rparr>), q') \<and>
           pq_inv (th(t := (th t)\<lparr>q_type := pq_type q\<rparr>)) q' \<and> pq_type q' = pq_type q \<and>
           pq_elems q' = add_mset t (pq_elems q)"
proof (cases "pq_size q = MAX_QUEUE")
  case True
  then show ?thesis by (simp add: enqueue_full)
next
  case False
  with assms(1) have room: "pq_size q < MAX_QUEUE" by (simp add: pq_inv_def)
  obtain rc th' q' where e: "rt_priority_queue_enqueue th q t = (rc, th', q')"
    by (metis prod_cases3)
  from pq_enqueue_spec [OF assms room e] e False show ?thesis by auto
qed

theorem enqueue_adds_or_refuses_witness:
  "\<exists>q'. rt_priority_queue_enqueue sample_store sample_pq 1 =
      (0, sample_store(1 := (sample_store 1)\<lparr>q_type := RUNNABLE_QUEUE\<rparr>), q') \<and>
     pq_elems q' = add_mset 1 (pq_elems sample_pq)"
  using enqueue_adds_or_refuses [OF sample_pq_inv, of 1]
  by (auto simp: sample_pq_def MAX_QUEUE_def)

text \<open>
  C30. Removing a thread from a priority queue takes out every occurrence of it and nothing else,
  returns the thread when it was queued and null when it was not, keeps the invariant, and
  changes no thread beyond the queue tags it rewrites. When the thread was not queued, the same
  threads are queued afterwards, each as often as before; their places in the array may differ,
  since the routine drains the queue and fills it again.
\<close>

theorem remove_takes_out_thread:
  assumes "pq_inv th q" "rt_priority_queue_remove th q t = (r, th', q')"
  shows "pq_inv th' q' \<and> pq_elems q' = filter_mset (\<lambda>x. x \<noteq> t) (pq_elems q) \<and>
    r = (if t \<in># pq_elems q then t else NULL) \<and> same_but_qtype th th'"
  using remove_spec [OF assms] by blast

theorem remove_takes_out_thread_witness:
  "let (r, th', q') = rt_priority_queue_remove sample_store sample_pq 5
   in r = 5 \<and> pq_elems q' = {#2, 3, 9#}"
proof -
  obtain r th' q' where e: "rt_priority_queue_remove sample_store sample_pq 5 = (r, th', q')"
    by (metis prod_cases3)
  have el: "pq_elems sample_pq = {#2, 3, 5, 9#}"
    by code_simp
  show ?thesis using remove_takes_out_thread [OF sample_pq_inv e] by (simp add: e el)
qed

text \<open>
  Dequeue reads only slots below the queue's size: two queues that agree on those slots
  return the same thread and agree on the slots of the shorter queue they leave. The unguarded
  read of the right child never goes past the slot the last thread was taken from.
\<close>

lemma dequeue_reads_used_slots:
  assumes "pq_size q1 = pq_size q2" "\<And>i. i < pq_size q1 \<Longrightarrow> pq_threads q1 i = pq_threads q2 i"
  shows "fst (rt_priority_queue_dequeue th q1) = fst (rt_priority_queue_dequeue th q2) \<and>
    (\<forall>i < pq_size q1 - 1. pq_threads (snd (rt_priority_queue_dequeue th q1)) i =
           pq_threads (snd (rt_priority_queue_dequeue th q2)) i)"
proof (cases "pq_size q1")
  case 0
  with assms(1) show ?thesis by (simp add: rt_priority_queue_dequeue_def)
next
  case (Suc n)
  let ?d = "\<lambda>x. deadline (th x)"
  obtain a p where a: "sift_down ?d (pq_threads q1 n) n (pq_threads q1) 0 = (a, p)" by fastforce
  have n: "pq_threads q2 n = pq_threads q1 n" "pq_threads q2 0 = pq_threads q1 0"
    using assms(2) Suc by simp_all
  obtain b r where b: "sift_down ?d (pq_threads q1 n) n (pq_threads q2) 0 = (b, r)" by fastforce
  have "p = r \<and> (\<forall>i \<le> n. a i = b i)"
    using assms(2) Suc by (intro sift_down_local [OF _ a b]) simp
  with a b n Suc assms(1) show ?thesis by (simp add: rt_priority_queue_dequeue_def)
qed

lemma dequeue_reads_used_slots_witness:
  "let q2 = sample_pq\<lparr>pq_threads := (pq_threads sample_pq)(4 := 1, 7 := 8)\<rparr>
   in fst (rt_priority_queue_dequeue sample_store sample_pq) = fst (rt_priority_queue_dequeue sample_store q2) \<and>
     (\<forall>i < pq_size sample_pq - 1. pq_threads (snd (rt_priority_queue_dequeue sample_store sample_pq)) i =
           pq_threads (snd (rt_priority_queue_dequeue sample_store q2)) i)"
  unfolding Let_def by (rule dequeue_reads_used_slots) (simp_all add: sample_pq_def)

end
