(* ===== verification/Rt_Queue.thy ===== *)
theory Rt_Queue
  imports Sched_Types
begin

text \<open>
  The circular buffer of aperiodic threads (\<open>rt_queue_*\<close> of \<^verbatim>\<open>src/nautilus/scheduler.c\<close>). The
  abstraction \<open>rq_list\<close> lists the queued threads from the oldest to the newest; every operation
  is proved to act on that list as its name says.
\<close>

section \<open>The operations\<close>

definition rt_queue_enqueue :: "rt_queue \<Rightarrow> ptr \<Rightarrow> int \<times> rt_queue" where
  "rt_queue_enqueue q t =
     (if rq_size q = MAX_QUEUE then (-1, q)
      else (0, q\<lparr>rq_threads := (rq_threads q)(rq_head q := t),
                 rq_head := (rq_head q + 1) mod MAX_QUEUE,
                 rq_size := rq_size q + 1\<rparr>))"

definition rt_queue_dequeue :: "rt_queue \<Rightarrow> ptr \<times> rt_queue" where
  "rt_queue_dequeue q =
     (if rq_size q = 0 then (NULL, q)
      else (rq_threads q (rq_tail q),
            q\<lparr>rq_tail := (rq_tail q + 1) mod MAX_QUEUE, rq_size := rq_size q - 1\<rparr>))"

text \<open>The search loop of removal: the position of the thread, or the size if it is absent.\<close>

function find_pos :: "rt_queue \<Rightarrow> ptr \<Rightarrow> nat \<Rightarrow> nat" where
  "find_pos q t now =
     (if now < rq_size q
      then if rq_threads q ((rq_tail q + now) mod MAX_QUEUE) = t then now
           else find_pos q t (now + 1)
      else now)"
  by pat_completeness auto
termination
  by (relation "measure (\<lambda>(q, t, now). rq_size q - now)") auto

text \<open>The copy-down loop: every later thread moves one slot towards the tail.\<close>

function copy_down :: "nat \<Rightarrow> nat \<Rightarrow> (nat \<Rightarrow> ptr) \<Rightarrow> nat \<Rightarrow> (nat \<Rightarrow> ptr)" where
  "copy_down tail n a now =
     (if now < n - 1
      then copy_down tail n (a((tail + now) mod MAX_QUEUE := a ((tail + now + 1) mod MAX_QUEUE))) (now + 1)
      else a)"
  by pat_completeness auto
termination
  by (relation "measure (\<lambda>(tail, n, a, now). n - now)") auto

declare find_pos.simps [simp del] copy_down.simps [simp del]

definition rt_queue_remove :: "rt_queue \<Rightarrow> ptr \<Rightarrow> ptr \<times> rt_queue" where
  "rt_queue_remove q t =
     (if rq_size q = 0 then (NULL, q)
      else let now = find_pos q t 0
           in if now = rq_size q then (NULL, q)
              else (t, q\<lparr>rq_threads := copy_down (rq_tail q) (rq_size q) (rq_threads q) now,
                         rq_head := (rq_head q + MAX_QUEUE - 1) mod MAX_QUEUE,
                         rq_size := rq_size q - 1\<rparr>))"

definition rt_queue_peek :: "rt_queue \<Rightarrow> nat \<Rightarrow> ptr" where
  "rt_queue_peek q pos =
     (if pos \<ge> rq_size q then NULL else rq_threads q ((rq_tail q + pos) mod MAX_QUEUE))"

definition rt_queue_empty :: "rt_queue \<Rightarrow> bool" where
  "rt_queue_empty q \<longleftrightarrow> rq_size q = 0"

section \<open>Invariant and abstraction\<close>

definition rq_inv :: "rt_queue \<Rightarrow> bool" where
  "rq_inv q \<longleftrightarrow>
     rq_size q \<le> MAX_QUEUE \<and> rq_tail q < MAX_QUEUE \<and>
     rq_head q = (rq_tail q + rq_size q) mod MAX_QUEUE"

definition ring :: "nat \<Rightarrow> nat \<Rightarrow> (nat \<Rightarrow> ptr) \<Rightarrow> ptr list" where
  "ring tail n a = map (\<lambda>i. a ((tail + i) mod MAX_QUEUE)) [0..<n]"

definition rq_list :: "rt_queue \<Rightarrow> ptr list" where
  "rq_list q = ring (rq_tail q) (rq_size q) (rq_threads q)"

lemma length_ring [simp]: "length (ring tail n a) = n"
  by (simp add: ring_def)

lemma nth_ring [simp]: "i < n \<Longrightarrow> ring tail n a ! i = a ((tail + i) mod MAX_QUEUE)"
  by (simp add: ring_def)

lemma length_rq_list [simp]: "length (rq_list q) = rq_size q"
  by (simp add: rq_list_def)

lemma nth_rq_list: "i < rq_size q \<Longrightarrow> rq_list q ! i = rq_threads q ((rq_tail q + i) mod MAX_QUEUE)"
  by (simp add: rq_list_def)

lemma ring_mod_eq:
  assumes "i < MAX_QUEUE" "j < MAX_QUEUE"
  shows "(tail + i) mod MAX_QUEUE = (tail + j) mod MAX_QUEUE \<longleftrightarrow> i = j"
  using mod_succ_inj [OF assms, of tail] by auto

lemma rq_list_empty [simp]: "rq_list q = [] \<longleftrightarrow> rq_size q = 0"
  by (metis length_rq_list length_0_conv)

subsection \<open>Enqueue and dequeue\<close>

lemma rq_enqueue_spec:
  assumes "rq_inv q" "rq_size q < MAX_QUEUE" "rt_queue_enqueue q t = (rc, q')"
  shows "rc = 0 \<and> rq_inv q' \<and> rq_list q' = rq_list q @ [t]"
proof -
  let ?M = MAX_QUEUE
  have q': "rc = 0" "q' = q\<lparr>rq_threads := (rq_threads q)(rq_head q := t),
      rq_head := (rq_head q + 1) mod ?M, rq_size := rq_size q + 1\<rparr>"
    using assms(2,3) by (auto simp: rt_queue_enqueue_def)
  have h: "rq_head q = (rq_tail q + rq_size q) mod ?M"
    using assms(1) by (simp add: rq_inv_def)
  have "rq_list q' = rq_list q @ [t]"
  proof (rule nth_equalityI)
    show "length (rq_list q') = length (rq_list q @ [t])" by (simp add: q')
    fix i assume "i < length (rq_list q')"
    then have i: "i \<le> rq_size q" by (simp add: q')
    show "rq_list q' ! i = (rq_list q @ [t]) ! i"
    proof (cases "i = rq_size q")
      case True
      then show ?thesis by (simp add: rq_list_def q' h nth_append)
    next
      case False
      with i assms(2) have "(rq_tail q + i) mod ?M \<noteq> (rq_tail q + rq_size q) mod ?M"
        by (subst ring_mod_eq) auto
      with False i show ?thesis by (simp add: rq_list_def q' h nth_append)
    qed
  qed
  moreover have "rq_inv q'"
    using assms(1,2) by (simp add: rq_inv_def q' mod_Suc_eq)
  ultimately show ?thesis by (simp add: q'(1))
qed

lemma rq_enqueue_full: "rq_size q = MAX_QUEUE \<Longrightarrow> rt_queue_enqueue q t = (-1, q)"
  by (simp add: rt_queue_enqueue_def)

lemma rq_dequeue_spec:
  assumes "rq_inv q" "rq_size q \<noteq> 0" "rt_queue_dequeue q = (t, q')"
  shows "rq_inv q' \<and> rq_list q = t # rq_list q'"
proof -
  let ?M = MAX_QUEUE
  obtain n where n: "rq_size q = Suc n" using assms(2) by (cases "rq_size q") auto
  have q': "t = rq_threads q (rq_tail q)"
    "q' = q\<lparr>rq_tail := (rq_tail q + 1) mod ?M, rq_size := n\<rparr>"
    using assms(2,3) n by (auto simp: rt_queue_dequeue_def)
  have "rq_list q = t # rq_list q'"
  proof (rule nth_equalityI)
    show "length (rq_list q) = length (t # rq_list q')" by (simp add: q' n)
    fix i assume i: "i < length (rq_list q)"
    show "rq_list q ! i = (t # rq_list q') ! i"
    proof (cases i)
      case 0
      with assms(1) n show ?thesis by (simp add: rq_list_def q' rq_inv_def)
    next
      case (Suc j)
      with i n show ?thesis by (simp add: rq_list_def q' mod_add_left_eq)
    qed
  qed
  moreover have "rq_inv q'"
    using assms(1) n by (simp add: rq_inv_def q' mod_add_left_eq)
  ultimately show ?thesis by simp
qed

subsection \<open>Removal\<close>

lemma find_pos_spec:
  assumes "now \<le> rq_size q"
  shows "now \<le> find_pos q t now \<and> find_pos q t now \<le> rq_size q \<and>
    (\<forall>i. now \<le> i \<and> i < find_pos q t now \<longrightarrow> rq_list q ! i \<noteq> t) \<and>
    (find_pos q t now < rq_size q \<longrightarrow> rq_list q ! find_pos q t now = t)"
  using assms
proof (induction q t now rule: find_pos.induct)
  case (1 q t now)
  show ?case
  proof (cases "now < rq_size q \<and> rq_list q ! now \<noteq> t")
    case True
    then have "rq_threads q ((rq_tail q + now) mod MAX_QUEUE) \<noteq> t" by (auto simp: nth_rq_list)
    then have eq: "find_pos q t now = find_pos q t (now + 1)" and
      IH: "now + 1 \<le> find_pos q t (now + 1) \<and> find_pos q t (now + 1) \<le> rq_size q \<and>
        (\<forall>i. now + 1 \<le> i \<and> i < find_pos q t (now + 1) \<longrightarrow> rq_list q ! i \<noteq> t) \<and>
        (find_pos q t (now + 1) < rq_size q \<longrightarrow> rq_list q ! find_pos q t (now + 1) = t)"
      using True "1.IH" by (auto simp: find_pos.simps [of q t now])
    have "rq_list q ! i \<noteq> t" if "now \<le> i" "i < find_pos q t (now + 1)" for i
      using that True IH by (cases "i = now") auto
    with IH show ?thesis unfolding eq by auto
  next
    case False
    then have "find_pos q t now = now"
      by (auto simp: find_pos.simps [of q t now] nth_rq_list)
    with False "1.prems" show ?thesis by auto
  qed
qed

lemma copy_down_spec:
  assumes "n \<le> MAX_QUEUE" "i < n"
  shows "copy_down tail n a now ((tail + i) mod MAX_QUEUE) =
    (if now \<le> i \<and> i < n - 1 then a ((tail + i + 1) mod MAX_QUEUE) else a ((tail + i) mod MAX_QUEUE))"
  using assms
proof (induction tail n a now rule: copy_down.induct)
  case (1 tail n a now)
  show ?case
  proof (cases "now < n - 1")
    case True
    let ?b = "a((tail + now) mod MAX_QUEUE := a ((tail + now + 1) mod MAX_QUEUE))"
    have b: "?b ((tail + k) mod MAX_QUEUE) =
        (if k = now then a ((tail + now + 1) mod MAX_QUEUE) else a ((tail + k) mod MAX_QUEUE))"
      if "k < n" for k
      using True that "1.prems" ring_mod_eq [of k now tail] by auto
    have "copy_down tail n a now ((tail + i) mod MAX_QUEUE) =
        copy_down tail n ?b (now + 1) ((tail + i) mod MAX_QUEUE)"
      using True by (simp add: copy_down.simps [of tail n a now])
    also have "\<dots> = (if now + 1 \<le> i \<and> i < n - 1 then ?b ((tail + i + 1) mod MAX_QUEUE)
        else ?b ((tail + i) mod MAX_QUEUE))"
      by (rule "1.IH" [OF True "1.prems"])
    also have "\<dots> = (if now \<le> i \<and> i < n - 1 then a ((tail + i + 1) mod MAX_QUEUE)
        else a ((tail + i) mod MAX_QUEUE))"
      using b [of i] b [of "i + 1"] "1.prems" True by auto
    finally show ?thesis .
  next
    case False
    then show ?thesis by (auto simp: copy_down.simps [of tail n a now])
  qed
qed

lemma ring_copy_down:
  assumes "n \<le> MAX_QUEUE" "p < n"
  shows "ring tail (n - 1) (copy_down tail n a p) =
    take p (ring tail n a) @ drop (Suc p) (ring tail n a)"
proof (rule nth_equalityI)
  show "length (ring tail (n - 1) (copy_down tail n a p)) =
      length (take p (ring tail n a) @ drop (Suc p) (ring tail n a))"
    using assms(2) by simp
  fix i assume "i < length (ring tail (n - 1) (copy_down tail n a p))"
  then have i: "i < n - 1" by simp
  then have "ring tail (n - 1) (copy_down tail n a p) ! i =
      (if p \<le> i then a ((tail + i + 1) mod MAX_QUEUE) else a ((tail + i) mod MAX_QUEUE))"
    using copy_down_spec [OF assms(1), of i tail a p] by simp
  with i assms show "ring tail (n - 1) (copy_down tail n a p) ! i =
      (take p (ring tail n a) @ drop (Suc p) (ring tail n a)) ! i"
    by (auto simp: nth_append min_def)
qed

text \<open>Taking out position \<open>p\<close>: what removal and the lottery both do to the buffer.\<close>

definition drop_pos :: "rt_queue \<Rightarrow> nat \<Rightarrow> rt_queue" where
  "drop_pos q p = q\<lparr>rq_threads := copy_down (rq_tail q) (rq_size q) (rq_threads q) p,
     rq_head := (rq_head q + MAX_QUEUE - 1) mod MAX_QUEUE, rq_size := rq_size q - 1\<rparr>"

lemma drop_pos_spec:
  assumes "rq_inv q" "p < rq_size q"
  shows "rq_inv (drop_pos q p)" "rq_list (drop_pos q p) = take p (rq_list q) @ drop (Suc p) (rq_list q)"
proof -
  let ?M = MAX_QUEUE
  obtain n where n: "rq_size q = Suc n" using assms(2) by (cases "rq_size q") auto
  have "(rq_head q + ?M - 1) mod ?M = ((rq_tail q + Suc n) mod ?M + (?M - 1)) mod ?M"
    using assms(1) n by (simp add: rq_inv_def)
  also have "\<dots> = (rq_tail q + Suc n + (?M - 1)) mod ?M"
    by (rule mod_add_left_eq)
  also have "rq_tail q + Suc n + (?M - 1) = rq_tail q + n + ?M"
    using MAX_QUEUE_pos by linarith
  finally show "rq_inv (drop_pos q p)"
    using assms(1) n by (simp add: rq_inv_def drop_pos_def)
  show "rq_list (drop_pos q p) = take p (rq_list q) @ drop (Suc p) (rq_list q)"
    using assms ring_copy_down [of "rq_size q" p] by (simp add: rq_list_def drop_pos_def rq_inv_def)
qed

lemma rq_remove_spec:
  assumes "rq_inv q"
  shows "t \<in> set (rq_list q) \<Longrightarrow>
      \<exists>q'. rt_queue_remove q t = (t, q') \<and> rq_inv q' \<and> rq_list q' = remove1 t (rq_list q)"
    and "t \<notin> set (rq_list q) \<Longrightarrow> rt_queue_remove q t = (NULL, q)"
proof -
  let ?p = "find_pos q t 0" and ?xs = "rq_list q"
  have p: "?p \<le> rq_size q" "\<forall>i < ?p. ?xs ! i \<noteq> t" "?p < rq_size q \<longrightarrow> ?xs ! ?p = t"
    using find_pos_spec [of 0 q t] by auto
  show "\<exists>q'. rt_queue_remove q t = (t, q') \<and> rq_inv q' \<and> rq_list q' = remove1 t ?xs"
    if t: "t \<in> set ?xs"
  proof -
    have lt: "?p < rq_size q"
    proof (rule ccontr)
      assume "\<not> ?p < rq_size q"
      with p have "\<forall>i < length ?xs. ?xs ! i \<noteq> t" by simp
      with t show False by (auto simp: in_set_conv_nth)
    qed
    have r: "rt_queue_remove q t = (t, drop_pos q ?p)"
      using lt by (simp add: rt_queue_remove_def drop_pos_def Let_def)
    have "?xs = take ?p ?xs @ t # drop (Suc ?p) ?xs"
      using lt p(3) id_take_nth_drop [of ?p ?xs] by simp
    moreover have "t \<notin> set (take ?p ?xs)"
      using p(2) lt by (auto simp: in_set_conv_nth)
    ultimately have "remove1 t ?xs = take ?p ?xs @ drop (Suc ?p) ?xs"
      by (metis remove1_append remove1.simps(2))
    with drop_pos_spec [OF assms lt] r show ?thesis by simp
  qed
  show "rt_queue_remove q t = (NULL, q)" if t: "t \<notin> set ?xs"
  proof -
    have "?p = rq_size q"
      using t p(1,3) by (metis length_rq_list nth_mem le_neq_implies_less)
    then show ?thesis by (simp add: rt_queue_remove_def Let_def)
  qed
qed

section \<open>The first-in first-out contract\<close>

text \<open>Client runs over a queue: put every element of a list, and take \<open>n\<close> elements.\<close>

primrec put_all :: "('q \<Rightarrow> 'a \<Rightarrow> int \<times> 'q) \<Rightarrow> 'q \<Rightarrow> 'a list \<Rightarrow> 'q" where
  "put_all enq q [] = q"
| "put_all enq q (x # xs) = put_all enq (snd (enq q x)) xs"

primrec take_out :: "('q \<Rightarrow> 'a \<times> 'q) \<Rightarrow> 'q \<Rightarrow> nat \<Rightarrow> 'a list \<times> 'q" where
  "take_out deq q 0 = ([], q)"
| "take_out deq q (Suc n) = (let (x, q1) = deq q; (xs, q2) = take_out deq q1 n in (x # xs, q2))"

locale fifo_queue =
  fixes invar :: "'q \<Rightarrow> bool"
    and contents :: "'q \<Rightarrow> 'a list"
    and capacity :: nat
    and enq :: "'q \<Rightarrow> 'a \<Rightarrow> int \<times> 'q"
    and deq :: "'q \<Rightarrow> 'a \<times> 'q"
  assumes enq_room: "\<lbrakk>invar q; length (contents q) < capacity\<rbrakk> \<Longrightarrow>
      fst (enq q x) = 0 \<and> invar (snd (enq q x)) \<and> contents (snd (enq q x)) = contents q @ [x]"
    and enq_full: "\<lbrakk>invar q; length (contents q) = capacity\<rbrakk> \<Longrightarrow> enq q x = (-1, q)"
    and deq_front: "\<lbrakk>invar q; contents q = x # xs\<rbrakk> \<Longrightarrow>
      fst (deq q) = x \<and> invar (snd (deq q)) \<and> contents (snd (deq q)) = xs"
begin

lemma put_all_contents:
  "\<lbrakk>invar q; length (contents q) + length xs \<le> capacity\<rbrakk> \<Longrightarrow>
    invar (put_all enq q xs) \<and> contents (put_all enq q xs) = contents q @ xs"
proof (induction xs arbitrary: q)
  case (Cons x xs)
  with enq_room [of q x] show ?case by simp
qed simp

lemma take_out_contents:
  "\<lbrakk>invar q; n \<le> length (contents q)\<rbrakk> \<Longrightarrow>
    fst (take_out deq q n) = take n (contents q) \<and>
    invar (snd (take_out deq q n)) \<and> contents (snd (take_out deq q n)) = drop n (contents q)"
proof (induction n arbitrary: q)
  case (Suc n)
  then obtain x xs where c: "contents q = x # xs" by (cases "contents q") auto
  with Suc deq_front [OF Suc.prems(1) c] show ?case by (simp add: case_prod_unfold Let_def)
qed simp

lemma put_all_take_out:
  assumes "invar q" "length (contents q) + length xs \<le> capacity"
  shows "fst (take_out deq (put_all enq q xs) (length (contents q) + length xs)) = contents q @ xs"
  using put_all_contents [OF assms] take_out_contents [of "put_all enq q xs"] by simp

end

interpretation rr_fifo: fifo_queue rq_inv rq_list MAX_QUEUE rt_queue_enqueue rt_queue_dequeue
proof unfold_locales
  fix q :: rt_queue and x
  assume "rq_inv q" "length (rq_list q) < MAX_QUEUE"
  then show "fst (rt_queue_enqueue q x) = 0 \<and> rq_inv (snd (rt_queue_enqueue q x)) \<and>
      rq_list (snd (rt_queue_enqueue q x)) = rq_list q @ [x]"
    using rq_enqueue_spec [of q x] by (simp add: prod_eq_iff)
next
  fix q :: rt_queue and x
  assume "rq_inv q" "length (rq_list q) = MAX_QUEUE"
  then show "rt_queue_enqueue q x = (-1, q)" by (simp add: rq_enqueue_full)
next
  fix q :: rt_queue and x xs
  assume "rq_inv q" and c: "rq_list q = x # xs"
  moreover from c have "rq_size q \<noteq> 0" by (metis list.distinct(1) rq_list_empty)
  ultimately show "fst (rt_queue_dequeue q) = x \<and> rq_inv (snd (rt_queue_dequeue q)) \<and>
      rq_list (snd (rt_queue_dequeue q)) = xs"
    using rq_dequeue_spec [of q] by (simp add: prod_eq_iff)
qed

lemma rq_peek_spec: "rt_queue_peek q pos = (if pos < length (rq_list q) then rq_list q ! pos else NULL)"
  by (simp add: rt_queue_peek_def nth_rq_list)

section \<open>Properties\<close>

definition sample_rq :: rt_queue where
  "sample_rq = \<lparr>rq_type = APERIODIC_QUEUE, rq_size = 3, rq_head = 1, rq_tail = 1022,
     rq_threads = (\<lambda>_. 0)(1022 := 11, 1023 := 12, 0 := 13)\<rparr>"

lemma sample_rq_facts: "rq_inv sample_rq" "rq_list sample_rq = [11, 12, 13]" "rq_size sample_rq = 3"
  by code_simp+

text \<open>
  C31. The buffer is first-in first-out: if a list of threads is enqueued on a well-formed queue
  that has room for them, then as many dequeues as there are threads return the threads that were
  there before, oldest first, followed by the new ones in the order they were enqueued. The
  positions may wrap around the end of the array.
\<close>
theorem queue_is_fifo:
  assumes "rq_inv q" "length (rq_list q) + length us \<le> MAX_QUEUE"
  shows "fst (take_out rt_queue_dequeue (put_all rt_queue_enqueue q us) (length (rq_list q) + length us))
    = rq_list q @ us"
  by (rule rr_fifo.put_all_take_out [OF assms])

theorem queue_is_fifo_witness:
  "fst (take_out rt_queue_dequeue (put_all rt_queue_enqueue sample_rq [14, 15]) 5) = [11, 12, 13, 14, 15]"
  using queue_is_fifo [of sample_rq "[14, 15]"]
  by (simp add: sample_rq_facts MAX_QUEUE_def eval_nat_numeral del: take_out.simps put_all.simps)

text \<open>
  Removing a queued thread from the middle of the buffer returns it and leaves the others in
  their order, with the first occurrence gone and the buffer well-formed; removing a thread that
  is not queued returns NULL and leaves the buffer untouched.
\<close>
lemma queue_remove_keeps_order:
  assumes "rq_inv q"
  shows "if t \<in> set (rq_list q)
    then fst (rt_queue_remove q t) = t \<and> rq_inv (snd (rt_queue_remove q t)) \<and>
      rq_list (snd (rt_queue_remove q t)) = remove1 t (rq_list q)
    else rt_queue_remove q t = (NULL, q)"
  using rq_remove_spec [OF assms, of t] by auto

lemma queue_remove_keeps_order_witness:
  "fst (rt_queue_remove sample_rq 12) = 12 \<and> rq_list (snd (rt_queue_remove sample_rq 12)) = [11, 13]
   \<and> rt_queue_remove sample_rq 99 = (NULL, sample_rq)"
  using queue_remove_keeps_order [of sample_rq 12] queue_remove_keeps_order [of sample_rq 99]
  by (simp add: sample_rq_facts)

end
