(* ===== verification/Aperiodic.thy ===== *)
theory Aperiodic
  imports Prio_Queue Rt_Queue
begin

text \<open>
  The aperiodic run queue of one CPU under the four models the build can choose
  (\<open>round_robin_*_aperiodic\<close>, \<open>lottery_*_aperiodic\<close> and the \<open>*_APERIODIC\<close> macros of
  \<^verbatim>\<open>src/nautilus/scheduler.c\<close>). The locale \<open>aperiodic_queue\<close> is the contract the scheduling
  pass relies on; every model is an interpretation of it. The random word that \<open>get_random\<close>
  returns is the argument \<open>rnd\<close>.
\<close>

section \<open>Round robin\<close>

definition upd_aperiodic :: "(rt_queue \<Rightarrow> rt_queue) \<Rightarrow> cpu_view \<Rightarrow> cpu_view" where
  "upd_aperiodic f S = S\<lparr>sched := (sched S)\<lparr>aperiodic := f (aperiodic (sched S))\<rparr>\<rparr>"

definition round_robin_put_aperiodic :: "cpu_view \<Rightarrow> ptr \<Rightarrow> int \<times> cpu_view" where
  "round_robin_put_aperiodic S t =
     (let (rc, q) = rt_queue_enqueue (aperiodic (sched S)) t in (rc, upd_aperiodic (\<lambda>_. q) S))"

definition round_robin_get_next_aperiodic :: "cpu_view \<Rightarrow> (ptr \<times> cpu_view) result" where
  "round_robin_get_next_aperiodic S =
     (let (r, q) = rt_queue_dequeue (aperiodic (sched S))
      in if r = NULL then Inl NullDeref
         else if is_idle (ks S r) \<and> rq_size q \<ge> 1
         then let (r', q') = rt_queue_dequeue (snd (rt_queue_enqueue q r))
              in Inr (r', upd_aperiodic (\<lambda>_. q') S)
         else Inr (r, upd_aperiodic (\<lambda>_. q) S))"

definition round_robin_remove_aperiodic :: "cpu_view \<Rightarrow> ptr \<Rightarrow> ptr \<times> cpu_view" where
  "round_robin_remove_aperiodic S t =
     (let (r, q) = rt_queue_remove (aperiodic (sched S)) t in (r, upd_aperiodic (\<lambda>_. q) S))"

section \<open>Lottery\<close>

definition weight :: "cpu_view \<Rightarrow> ptr \<Rightarrow> u64" where
  "weight S t = aperiodic_priority (constraints (ts S t))"

definition upd_total :: "(u64 \<Rightarrow> u64) \<Rightarrow> cpu_view \<Rightarrow> cpu_view" where
  "upd_total f S = S\<lparr>sched := (sched S)\<lparr>total_prob := f (total_prob (sched S))\<rparr>\<rparr>"

definition lottery_put_aperiodic :: "cpu_view \<Rightarrow> ptr \<Rightarrow> int \<times> cpu_view" where
  "lottery_put_aperiodic S t =
     (let (rc, q) = rt_queue_enqueue (aperiodic (sched S)) t;
          S1 = upd_aperiodic (\<lambda>_. q) S
      in (rc, if rc = 0 then upd_total (\<lambda>p. p + weight S t) S1 else S1))"

text \<open>The search loop: the position the drawn ticket falls on, or the size if it falls on none.\<close>

function lottery_pick :: "cpu_view \<Rightarrow> rt_queue \<Rightarrow> u64 \<Rightarrow> nat \<Rightarrow> u64 \<Rightarrow> nat" where
  "lottery_pick S q target cur cum =
     (if cur < rq_size q
      then let t = rq_threads q ((rq_tail q + cur) mod MAX_QUEUE);
               cum' = cum + weight S t
           in if cum' \<ge> target
              then if is_idle (ks S t) \<and> rq_size q > 1
                   then if cur < rq_size q - 1 then cur + 1 else cur - 1
                   else cur
              else lottery_pick S q target (cur + 1) cum'
      else cur)"
  by pat_completeness auto
termination
  by (relation "measure (\<lambda>(S, q, target, cur, cum). rq_size q - cur)") auto

declare lottery_pick.simps [simp del]

definition lottery_get_next_aperiodic :: "u64 \<Rightarrow> cpu_view \<Rightarrow> (ptr \<times> cpu_view) result" where
  "lottery_get_next_aperiodic rnd S =
     (let q = aperiodic (sched S); total = total_prob (sched S)
      in assert_that (total \<noteq> 0) (assert_that (rq_size q \<noteq> 0)
           (let cur = lottery_pick S q (rnd mod total) 0 0
            in if cur = rq_size q then Inl (Panic ''Cannot find thread in lottery scheduler'')
               else let t = rq_threads q ((rq_tail q + cur) mod MAX_QUEUE)
                    in Inr (t, upd_total (\<lambda>p. p - weight S t) (upd_aperiodic (\<lambda>_. drop_pos q cur) S)))))"

definition lottery_remove_aperiodic :: "cpu_view \<Rightarrow> ptr \<Rightarrow> ptr \<times> cpu_view" where
  "lottery_remove_aperiodic S t =
     (let (r, q) = rt_queue_remove (aperiodic (sched S)) t;
          S1 = upd_aperiodic (\<lambda>_. q) S
      in (r, if r \<noteq> NULL then upd_total (\<lambda>p. p - weight S t) S1 else S1))"

section \<open>Dynamic priorities\<close>

definition dynamic_put_aperiodic :: "cpu_view \<Rightarrow> ptr \<Rightarrow> int \<times> cpu_view" where
  "dynamic_put_aperiodic S t =
     (let (rc, th, q) = rt_priority_queue_enqueue (ts S) (aperiodic_pq (sched S)) t
      in (rc, S\<lparr>ts := th, sched := (sched S)\<lparr>aperiodic_pq := q\<rparr>\<rparr>))"

definition dynamic_get_next_aperiodic :: "cpu_view \<Rightarrow> (ptr \<times> cpu_view) result" where
  "dynamic_get_next_aperiodic S =
     (let (t, q) = rt_priority_queue_dequeue (ts S) (aperiodic_pq (sched S))
      in Inr (t, S\<lparr>sched := (sched S)\<lparr>aperiodic_pq := q\<rparr>\<rparr>))"

definition dynamic_remove_aperiodic :: "cpu_view \<Rightarrow> ptr \<Rightarrow> ptr \<times> cpu_view" where
  "dynamic_remove_aperiodic S t =
     (let (r, th, q) = rt_priority_queue_remove (ts S) (aperiodic_pq (sched S)) t
      in (r, S\<lparr>ts := th, sched := (sched S)\<lparr>aperiodic_pq := q\<rparr>\<rparr>))"

section \<open>The build's choice\<close>

definition PUT_APERIODIC :: "aper_model \<Rightarrow> cpu_view \<Rightarrow> ptr \<Rightarrow> int \<times> cpu_view" where
  "PUT_APERIODIC m S t =
     (case m of ROUND_ROBIN \<Rightarrow> round_robin_put_aperiodic S t
      | LOTTERY \<Rightarrow> lottery_put_aperiodic S t
      | _ \<Rightarrow> dynamic_put_aperiodic S t)"

definition GET_NEXT_APERIODIC :: "aper_model \<Rightarrow> u64 \<Rightarrow> cpu_view \<Rightarrow> (ptr \<times> cpu_view) result" where
  "GET_NEXT_APERIODIC m rnd S =
     (case m of ROUND_ROBIN \<Rightarrow> round_robin_get_next_aperiodic S
      | LOTTERY \<Rightarrow> lottery_get_next_aperiodic rnd S
      | _ \<Rightarrow> dynamic_get_next_aperiodic S)"

definition REMOVE_APERIODIC :: "aper_model \<Rightarrow> cpu_view \<Rightarrow> ptr \<Rightarrow> ptr \<times> cpu_view" where
  "REMOVE_APERIODIC m S t =
     (case m of ROUND_ROBIN \<Rightarrow> round_robin_remove_aperiodic S t
      | LOTTERY \<Rightarrow> lottery_remove_aperiodic S t
      | _ \<Rightarrow> dynamic_remove_aperiodic S t)"

definition PEEK_APERIODIC :: "aper_model \<Rightarrow> cpu_view \<Rightarrow> nat \<Rightarrow> ptr" where
  "PEEK_APERIODIC m S k =
     (if m = ROUND_ROBIN \<or> m = LOTTERY then rt_queue_peek (aperiodic (sched S)) k
      else rt_priority_queue_peek (aperiodic_pq (sched S)) k)"

definition SIZE_APERIODIC :: "aper_model \<Rightarrow> cpu_view \<Rightarrow> nat" where
  "SIZE_APERIODIC m S =
     (if m = ROUND_ROBIN \<or> m = LOTTERY then rq_size (aperiodic (sched S)) else pq_size (aperiodic_pq (sched S)))"

definition HAVE_APERIODIC :: "aper_model \<Rightarrow> cpu_view \<Rightarrow> bool" where
  "HAVE_APERIODIC m S \<longleftrightarrow>
     (if m = ROUND_ROBIN \<or> m = LOTTERY then \<not> rt_queue_empty (aperiodic (sched S))
      else \<not> rt_priority_queue_empty (aperiodic_pq (sched S)))"

section \<open>The contract\<close>

text \<open>
  An operation on the aperiodic queue leaves the rest of the CPU alone: the kernel threads, the
  timer, the other members of the scheduler, and the threads' scheduling state up to the queue
  tag, which nothing reads.
\<close>

definition aper_frame :: "cpu_view \<Rightarrow> cpu_view \<Rightarrow> bool" where
  "aper_frame S S' \<longleftrightarrow>
     ks S' = ks S \<and> apic S' = apic S \<and> cr8 S' = cr8 S \<and> same_but_qtype (ts S) (ts S') \<and>
     sched S' = (sched S)\<lparr>aperiodic := aperiodic (sched S'), aperiodic_pq := aperiodic_pq (sched S'),
       total_prob := total_prob (sched S')\<rparr>"

locale aperiodic_queue =
  fixes invar :: "cpu_view \<Rightarrow> bool"
    and members :: "cpu_view \<Rightarrow> ptr multiset"
    and ready :: "cpu_view \<Rightarrow> bool"
    and put :: "cpu_view \<Rightarrow> ptr \<Rightarrow> int \<times> cpu_view"
    and get_next :: "u64 \<Rightarrow> cpu_view \<Rightarrow> (ptr \<times> cpu_view) result"
    and remove :: "cpu_view \<Rightarrow> ptr \<Rightarrow> ptr \<times> cpu_view"
  assumes put_room: "\<lbrakk>invar S; t \<noteq> NULL; size (members S) < MAX_QUEUE; put S t = (rc, S')\<rbrakk> \<Longrightarrow>
      rc = 0 \<and> invar S' \<and> members S' = add_mset t (members S) \<and> aper_frame S S'"
    and put_full: "\<lbrakk>invar S; size (members S) = MAX_QUEUE\<rbrakk> \<Longrightarrow> put S t = (-1, S)"
    and get_member: "\<lbrakk>invar S; members S \<noteq> {#}; get_next rnd S = Inr (t, S')\<rbrakk> \<Longrightarrow>
      t \<noteq> NULL \<and> invar S' \<and> members S = add_mset t (members S') \<and> aper_frame S S'"
    and get_returns: "\<lbrakk>invar S; members S \<noteq> {#}; ready S\<rbrakk> \<Longrightarrow> \<exists>r. get_next rnd S = Inr r"
    and remove_present: "\<lbrakk>invar S; count (members S) t = 1; remove S t = (r, S')\<rbrakk> \<Longrightarrow>
      r = t \<and> invar S' \<and> members S = add_mset t (members S') \<and> aper_frame S S'"
    and remove_absent: "\<lbrakk>invar S; t \<notin># members S; remove S t = (r, S')\<rbrakk> \<Longrightarrow>
      r = NULL \<and> invar S' \<and> members S' = members S \<and> aper_frame S S'"
    and members_live: "invar S \<Longrightarrow> NULL \<notin># members S \<and> size (members S) \<le> MAX_QUEUE"
begin

text \<open>What the scheduling pass does with an aperiodic thread: put the current one, take the next.\<close>

lemma put_then_get:
  assumes "invar S" "t \<noteq> NULL" "size (members S) < MAX_QUEUE"
    "put S t = (rc, S1)" "get_next rnd S1 = Inr (n, S2)"
  shows "rc = 0 \<and> n \<noteq> NULL \<and> invar S2 \<and> add_mset t (members S) = add_mset n (members S2) \<and> n \<in># add_mset t (members S)"
proof -
  have S1: "rc = 0" "invar S1" "members S1 = add_mset t (members S)"
    using put_room [OF assms(1-4)] by auto
  with get_member [OF S1(2) _ assms(5)] show ?thesis by auto
qed

lemma put_then_remove:
  assumes "invar S" "t \<noteq> NULL" "t \<notin># members S" "size (members S) < MAX_QUEUE"
    "put S t = (rc, S1)" "remove S1 t = (r, S2)"
  shows "r = t \<and> invar S2 \<and> members S2 = members S"
proof -
  have S1: "invar S1" "members S1 = add_mset t (members S)"
    using put_room [OF assms(1,2,4,5)] by auto
  moreover from S1 assms(3) have "count (members S1) t = 1" by (simp add: not_in_iff)
  ultimately show ?thesis using remove_present [OF S1(1) _ assms(6)] by auto
qed

end

section \<open>Round robin meets the contract\<close>

lemma upd_aperiodic_simps [simp]:
  "ts (upd_aperiodic f S) = ts S" "ks (upd_aperiodic f S) = ks S" "apic (upd_aperiodic f S) = apic S" "cr8 (upd_aperiodic f S) = cr8 S"
  "sched (upd_aperiodic f S) = (sched S)\<lparr>aperiodic := f (aperiodic (sched S))\<rparr>"
  by (simp_all add: upd_aperiodic_def)

lemma upd_total_simps [simp]:
  "ts (upd_total f S) = ts S" "ks (upd_total f S) = ks S" "apic (upd_total f S) = apic S" "cr8 (upd_total f S) = cr8 S"
  "sched (upd_total f S) = (sched S)\<lparr>total_prob := f (total_prob (sched S))\<rparr>"
  by (simp_all add: upd_total_def)

lemma upd_aperiodic_id [simp]: "upd_aperiodic (\<lambda>_. aperiodic (sched S)) S = S"
  by (simp add: upd_aperiodic_def)

definition ring_inv :: "cpu_view \<Rightarrow> bool" where
  "ring_inv S \<longleftrightarrow> rq_inv (aperiodic (sched S)) \<and> NULL \<notin> set (rq_list (aperiodic (sched S)))"

definition ring_members :: "cpu_view \<Rightarrow> ptr multiset" where
  "ring_members S = mset (rq_list (aperiodic (sched S)))"

lemma ring_live: "ring_inv S \<Longrightarrow> NULL \<notin># ring_members S \<and> size (ring_members S) \<le> MAX_QUEUE"
  by (auto simp: ring_inv_def ring_members_def rq_inv_def)

lemma ring_nonempty: "ring_members S \<noteq> {#} \<longleftrightarrow> rq_size (aperiodic (sched S)) \<noteq> 0"
  by (simp add: ring_members_def)

text \<open>The facts of the buffer with the queue written as the fields the operations change.\<close>

lemma enqueue_cases:
  assumes "rq_inv q" "rt_queue_enqueue q t = (rc, q')"
  shows "if rq_size q = MAX_QUEUE then rc = -1 \<and> q' = q
    else rc = 0 \<and> rq_inv q' \<and> rq_list q' = rq_list q @ [t]"
  using assms rq_enqueue_spec [of q t rc q'] rq_enqueue_full [of q t] by (auto simp: rq_inv_def)

lemma remove_cases:
  assumes "rq_inv q" "rt_queue_remove q t = (r, q')"
  shows "if t \<in> set (rq_list q) then r = t \<and> rq_inv q' \<and> rq_list q' = remove1 t (rq_list q)
    else r = NULL \<and> q' = q"
  using assms rq_remove_spec [of q t] by auto

lemma rr_dequeue:
  assumes "ring_inv S" "rq_list (aperiodic (sched S)) = h # xs"
  obtains q1 where "rt_queue_dequeue (aperiodic (sched S)) = (h, q1)" "rq_inv q1" "rq_list q1 = xs"
    "h \<noteq> NULL" "rq_size q1 = length xs" "rq_size q1 < MAX_QUEUE"
proof -
  let ?q = "aperiodic (sched S)"
  have ne: "rq_size ?q \<noteq> 0" using assms(2) by (metis list.distinct(1) rq_list_empty)
  obtain r q1 where d: "rt_queue_dequeue ?q = (r, q1)" by fastforce
  have q1: "rq_inv q1" "r = h" "rq_list q1 = xs" "h \<noteq> NULL"
    using rq_dequeue_spec [OF _ ne d] assms by (auto simp: ring_inv_def)
  moreover have "rq_size q1 = length xs" using q1(3) by (metis length_rq_list)
  moreover have "length (h # xs) \<le> MAX_QUEUE"
    using assms by (metis length_rq_list ring_inv_def rq_inv_def)
  ultimately show ?thesis using that d by simp
qed

lemma rr_get_head:
  assumes "ring_inv S" "rq_list (aperiodic (sched S)) = h # xs" "\<not> is_idle (ks S h) \<or> xs = []"
  shows "\<exists>q'. round_robin_get_next_aperiodic S = Inr (h, upd_aperiodic (\<lambda>_. q') S) \<and>
    rq_inv q' \<and> rq_list q' = xs"
proof -
  obtain q1 where "rt_queue_dequeue (aperiodic (sched S)) = (h, q1)" "rq_inv q1" "rq_list q1 = xs"
    "h \<noteq> NULL" "rq_size q1 = length xs"
    using rr_dequeue [OF assms(1,2)] by blast
  with assms(3) show ?thesis by (auto simp: round_robin_get_next_aperiodic_def)
qed

lemma rr_get_skip:
  assumes "ring_inv S" "rq_list (aperiodic (sched S)) = h # k # rest" "is_idle (ks S h)"
  shows "\<exists>q'. round_robin_get_next_aperiodic S = Inr (k, upd_aperiodic (\<lambda>_. q') S) \<and>
    rq_inv q' \<and> rq_list q' = rest @ [h]"
proof -
  obtain q1 where q1: "rt_queue_dequeue (aperiodic (sched S)) = (h, q1)" "rq_inv q1" "rq_list q1 = k # rest"
    "h \<noteq> NULL" "rq_size q1 = length (k # rest)" "rq_size q1 < MAX_QUEUE"
    using rr_dequeue [OF assms(1,2)] .
  obtain rc q2 where e: "rt_queue_enqueue q1 h = (rc, q2)" by fastforce
  have q2: "rq_inv q2" "rq_list q2 = k # rest @ [h]"
    using rq_enqueue_spec [OF q1(2,6) e] q1(3) by auto
  have ne: "rq_size q2 \<noteq> 0" using q2(2) by (metis list.distinct(1) rq_list_empty)
  obtain t q3 where d2: "rt_queue_dequeue q2 = (t, q3)" by fastforce
  have q3: "rq_inv q3" "t = k" "rq_list q3 = rest @ [h]"
    using rq_dequeue_spec [OF q2(1) ne d2] q2(2) by auto
  have "round_robin_get_next_aperiodic S = Inr (k, upd_aperiodic (\<lambda>_. q3) S)"
    using q1(1,4,5) assms(3) e d2 q3(2) by (simp add: round_robin_get_next_aperiodic_def)
  with q3 show ?thesis by blast
qed

lemma rr_get_cases:
  assumes inv: "ring_inv S" and ne: "rq_size (aperiodic (sched S)) \<noteq> 0"
  shows "\<exists>t q'. round_robin_get_next_aperiodic S = Inr (t, upd_aperiodic (\<lambda>_. q') S) \<and> rq_inv q' \<and>
    mset (rq_list (aperiodic (sched S))) = add_mset t (mset (rq_list q'))"
proof -
  obtain h xs where c: "rq_list (aperiodic (sched S)) = h # xs"
    using ne by (metis list.exhaust rq_list_empty)
  show ?thesis
  proof (cases "is_idle (ks S h) \<and> xs \<noteq> []")
    case True
    then obtain k rest where "xs = k # rest" by (cases xs) auto
    with rr_get_skip [OF inv] c True show ?thesis by fastforce
  next
    case False
    with rr_get_head [OF inv c] c show ?thesis by fastforce
  qed
qed

lemma aper_frame_refl [simp]: "aper_frame S S"
  by (simp add: aper_frame_def)

lemma frame_upd_aperiodic [simp]: "aper_frame S (upd_aperiodic f S)"
  by (simp add: aper_frame_def)

lemma frame_upd_total [simp]: "aper_frame S (upd_total g (upd_aperiodic f S))"
  by (simp add: aper_frame_def)

lemma remove1_mset_add: "t \<in> set xs \<Longrightarrow> mset xs = add_mset t (mset (remove1 t xs))"
  by simp

interpretation rr: aperiodic_queue ring_inv ring_members "\<lambda>_. True"
  round_robin_put_aperiodic "\<lambda>_. round_robin_get_next_aperiodic" round_robin_remove_aperiodic
proof (unfold_locales, goal_cases)
  case (1 S t rc S')
  obtain q where q: "rt_queue_enqueue (aperiodic (sched S)) t = (rc, q)" "S' = upd_aperiodic (\<lambda>_. q) S"
    using 1(4) by (auto simp: round_robin_put_aperiodic_def split: prod.splits)
  with 1(1-3) enqueue_cases [OF _ q(1)] show ?case
    by (auto simp: ring_inv_def ring_members_def)
next
  case (2 S t)
  then show ?case by (simp add: round_robin_put_aperiodic_def ring_members_def rq_enqueue_full)
next
  case (3 S rnd t S')
  then obtain q' where "S' = upd_aperiodic (\<lambda>_. q') S" "rq_inv q'"
    "mset (rq_list (aperiodic (sched S))) = add_mset t (mset (rq_list q'))"
    using rr_get_cases [OF 3(1)] by (force simp: ring_nonempty)
  with 3(1) show ?case
    by (auto simp: ring_inv_def ring_members_def dest: arg_cong [of _ _ set_mset])
next
  case (4 S rnd)
  then show ?case using rr_get_cases [OF 4(1)] by (auto simp: ring_nonempty)
next
  case (5 S t r S')
  obtain q where q: "rt_queue_remove (aperiodic (sched S)) t = (r, q)" "S' = upd_aperiodic (\<lambda>_. q) S"
    using 5(3) by (auto simp: round_robin_remove_aperiodic_def split: prod.splits)
  moreover have "t \<in> set (rq_list (aperiodic (sched S)))"
    using 5(2) by (metis count_eq_zero_iff ring_members_def set_mset_mset zero_neq_one)
  ultimately show ?case using 5(1) remove_cases [OF _ q(1)] notin_set_remove1
    by (auto simp: ring_inv_def ring_members_def)
next
  case (6 S t r S')
  obtain q where q: "rt_queue_remove (aperiodic (sched S)) t = (r, q)" "S' = upd_aperiodic (\<lambda>_. q) S"
    using 6(3) by (auto simp: round_robin_remove_aperiodic_def split: prod.splits)
  with 6(1,2) remove_cases [OF _ q(1)] show ?case by (auto simp: ring_inv_def ring_members_def)
next
  case (7 S)
  then show ?case by (rule ring_live)
qed

section \<open>Lottery meets the contract\<close>

text \<open>The tickets of the first \<open>k\<close> threads, counted without wrap-around.\<close>

definition tickets :: "cpu_view \<Rightarrow> rt_queue \<Rightarrow> nat \<Rightarrow> nat" where
  "tickets S q k = (\<Sum>i < k. unat (weight S (rq_list q ! i)))"

lemma tickets_simps [simp]:
  "tickets S q 0 = 0" "tickets S q (Suc k) = tickets S q k + unat (weight S (rq_list q ! k))"
  by (simp_all add: tickets_def)

lemma tickets_mono: "j \<le> k \<Longrightarrow> tickets S q j \<le> tickets S q k"
  by (auto simp: tickets_def intro!: sum_mono2)

text \<open>The total is exact and not zero: what the draw needs to end on a thread.\<close>

definition lottery_ready :: "cpu_view \<Rightarrow> bool" where
  "lottery_ready S \<longleftrightarrow> total_prob (sched S) \<noteq> 0 \<and>
     unat (total_prob (sched S)) = tickets S (aperiodic (sched S)) (rq_size (aperiodic (sched S)))"

text \<open>The step from the idle thread to a neighbour.\<close>

definition skip_idle :: "cpu_view \<Rightarrow> rt_queue \<Rightarrow> nat \<Rightarrow> nat" where
  "skip_idle S q c =
     (if is_idle (ks S (rq_list q ! c)) \<and> rq_size q > 1
      then if c < rq_size q - 1 then c + 1 else c - 1 else c)"

lemma skip_idle_less: "c < rq_size q \<Longrightarrow> skip_idle S q c < rq_size q"
  by (auto simp: skip_idle_def)

lemma lottery_pick_le: "cur \<le> rq_size q \<Longrightarrow> lottery_pick S q g cur cum \<le> rq_size q"
proof (induction S q g cur cum rule: lottery_pick.induct)
  case (1 S q g cur cum)
  then show ?case
    by (subst lottery_pick.simps) (auto simp: Let_def)
qed

lemma lottery_pick_first:
  assumes "tickets S q (rq_size q) < 2 ^ 64"
  shows "\<lbrakk>unat cum = tickets S q cur; cur \<le> c; c < rq_size q; unat g \<le> tickets S q (Suc c);
      \<forall>i. cur \<le> i \<and> i < c \<longrightarrow> tickets S q (Suc i) < unat g\<rbrakk> \<Longrightarrow>
    lottery_pick S q g cur cum = skip_idle S q c"
proof (induction "c - cur" arbitrary: cur cum)
  case 0
  then have c: "cur = c" by simp
  let ?t = "rq_threads q ((rq_tail q + c) mod MAX_QUEUE)"
  have t: "rq_list q ! c = ?t" using 0 by (simp add: nth_rq_list)
  have "tickets S q (Suc c) < 2 ^ 64" using assms 0 tickets_mono [of "Suc c" "rq_size q" S q] by simp
  then have "unat (cum + weight S ?t) = tickets S q (Suc c)"
    using 0 c t by (simp add: unat_word_ariths)
  then have "g \<le> cum + weight S ?t" using 0 by (simp add: word_le_nat_alt)
  then show ?case using 0 c t by (subst lottery_pick.simps) (simp add: skip_idle_def Let_def)
next
  case (Suc n)
  let ?t = "rq_threads q ((rq_tail q + cur) mod MAX_QUEUE)"
  have lt: "cur < c" "cur < rq_size q" using Suc by auto
  have t: "rq_list q ! cur = ?t" using lt by (simp add: nth_rq_list)
  have "tickets S q (Suc cur) < 2 ^ 64" using assms lt tickets_mono [of "Suc cur" "rq_size q" S q] by simp
  then have u: "unat (cum + weight S ?t) = tickets S q (Suc cur)"
    using Suc.prems(1) t by (simp add: unat_word_ariths)
  have "tickets S q (Suc cur) < unat g" using Suc.prems(5) lt by blast
  then have "\<not> g \<le> cum + weight S ?t" using u by (simp add: word_le_nat_alt)
  then have "lottery_pick S q g cur cum = lottery_pick S q g (cur + 1) (cum + weight S ?t)"
    using lt by (subst lottery_pick.simps) (simp add: Let_def)
  also have "\<dots> = skip_idle S q c"
    using Suc u lt by (intro Suc.hyps(1)) auto
  finally show ?case .
qed

lemma draw_less: "n \<noteq> 0 \<Longrightarrow> unat (rnd mod n) < unat (n :: u64)"
  by (simp add: unat_mod unat_gt_0)

text \<open>With exact totals every ticket falls on a first thread whose cumulative count reaches it.\<close>

lemma ticket_falls:
  assumes "lottery_ready S" "q = aperiodic (sched S)" "g = rnd mod total_prob (sched S)"
  obtains c where "c < rq_size q" "unat g \<le> tickets S q (Suc c)" "\<forall>i < c. tickets S q (Suc i) < unat g"
    "lottery_pick S q g 0 0 = skip_idle S q c"
proof -
  let ?n = "rq_size q"
  have tot: "unat (total_prob (sched S)) = tickets S q ?n" "total_prob (sched S) \<noteq> 0"
    using assms by (simp_all add: lottery_ready_def)
  have g: "unat g < tickets S q ?n"
    unfolding assms(3) tot(1) [symmetric] using tot(2) by (rule draw_less)
  then obtain m where m: "?n = Suc m" by (cases ?n) auto
  let ?P = "\<lambda>c. unat g \<le> tickets S q (Suc c)"
  have P: "?P m" using g m by simp
  define c where "c = (LEAST c. ?P c)"
  have c: "?P c" "c \<le> m" unfolding c_def using P by (auto intro: LeastI Least_le)
  have b: "\<forall>i < c. tickets S q (Suc i) < unat g"
    unfolding c_def using not_less_Least by (metis not_le)
  have "tickets S q ?n < 2 ^ 64" using tot(1) unat64_less [of "total_prob (sched S)"] by simp
  then have "lottery_pick S q g 0 0 = skip_idle S q c"
    using c b m by (intro lottery_pick_first) auto
  with that [of c] c b m show ?thesis by auto
qed

lemma lottery_get_Inr:
  assumes "lottery_get_next_aperiodic rnd S = Inr (t, S')" "ring_inv S"
  obtains c where "c < rq_size (aperiodic (sched S))" "t = rq_list (aperiodic (sched S)) ! c"
    "c = lottery_pick S (aperiodic (sched S)) (rnd mod total_prob (sched S)) 0 0"
    "S' = upd_total (\<lambda>p. p - weight S t) (upd_aperiodic (\<lambda>_. drop_pos (aperiodic (sched S)) c) S)"
proof -
  let ?q = "aperiodic (sched S)"
  let ?c = "lottery_pick S ?q (rnd mod total_prob (sched S)) 0 0"
  have "?c \<noteq> rq_size ?q" using assms(1)
    by (auto simp: lottery_get_next_aperiodic_def Let_def assert_that_Inr)
  then have "?c < rq_size ?q" using lottery_pick_le [of 0 ?q S] by (simp add: order.not_eq_order_implies_strict)
  with assms(1) that [of ?c] show ?thesis
    by (auto simp: lottery_get_next_aperiodic_def Let_def assert_that_Inr nth_rq_list split: if_splits)
qed

lemma mset_drop_nth: "i < length xs \<Longrightarrow> mset xs = add_mset (xs ! i) (mset (take i xs @ drop (Suc i) xs))"
  by (subst id_take_nth_drop [of i xs]) auto

interpretation lot: aperiodic_queue ring_inv ring_members lottery_ready
  lottery_put_aperiodic lottery_get_next_aperiodic lottery_remove_aperiodic
proof (unfold_locales, goal_cases)
  case (1 S t rc S')
  obtain q where q: "rt_queue_enqueue (aperiodic (sched S)) t = (rc, q)"
    "S' = (if rc = 0 then upd_total (\<lambda>p. p + weight S t) (upd_aperiodic (\<lambda>_. q) S) else upd_aperiodic (\<lambda>_. q) S)"
    using 1(4) by (auto simp: lottery_put_aperiodic_def Let_def split: prod.splits)
  with 1(1-3) enqueue_cases [OF _ q(1)] show ?case
    by (auto simp: ring_inv_def ring_members_def)
next
  case (2 S t)
  then show ?case by (simp add: lottery_put_aperiodic_def ring_members_def rq_enqueue_full)
next
  case (3 S rnd t S')
  let ?q = "aperiodic (sched S)"
  obtain c where c: "c < rq_size ?q" "t = rq_list ?q ! c"
    "S' = upd_total (\<lambda>p. p - weight S t) (upd_aperiodic (\<lambda>_. drop_pos ?q c) S)"
    using lottery_get_Inr [OF 3(3,1)] by blast
  have d: "rq_inv (drop_pos ?q c)" "rq_list (drop_pos ?q c) = take c (rq_list ?q) @ drop (Suc c) (rq_list ?q)"
    using 3(1) c(1) drop_pos_spec [of ?q c] by (auto simp: ring_inv_def)
  have "mset (rq_list ?q) = add_mset t (mset (rq_list (drop_pos ?q c)))"
    using c(1,2) mset_drop_nth [of c "rq_list ?q"] by (simp add: d(2))
  moreover from this have "set (rq_list ?q) = insert t (set (rq_list (drop_pos ?q c)))"
    by (metis set_mset_add_mset_insert set_mset_mset)
  ultimately show ?case
    using 3(1) c d(1) by (auto simp: ring_inv_def ring_members_def)
next
  case (4 S rnd)
  let ?q = "aperiodic (sched S)"
  obtain c where "c < rq_size ?q" "lottery_pick S ?q (rnd mod total_prob (sched S)) 0 0 = skip_idle S ?q c"
    using ticket_falls [OF 4(3) refl refl] by metis
  with skip_idle_less [of c ?q S] 4(2,3) show ?case
    by (auto simp: lottery_get_next_aperiodic_def Let_def lottery_ready_def)
next
  case (5 S t r S')
  obtain q where q: "rt_queue_remove (aperiodic (sched S)) t = (r, q)"
    "S' = (if r \<noteq> NULL then upd_total (\<lambda>p. p - weight S t) (upd_aperiodic (\<lambda>_. q) S) else upd_aperiodic (\<lambda>_. q) S)"
    using 5(3) by (auto simp: lottery_remove_aperiodic_def Let_def split: prod.splits)
  moreover have t: "t \<in> set (rq_list (aperiodic (sched S)))"
    using 5(2) by (metis count_eq_zero_iff ring_members_def set_mset_mset zero_neq_one)
  moreover have "t \<noteq> NULL" using t 5(1) by (metis ring_inv_def)
  ultimately show ?case using 5(1) remove_cases [OF _ q(1)] notin_set_remove1
    by (auto simp: ring_inv_def ring_members_def)
next
  case (6 S t r S')
  obtain q where q: "rt_queue_remove (aperiodic (sched S)) t = (r, q)"
    "S' = (if r \<noteq> NULL then upd_total (\<lambda>p. p - weight S t) (upd_aperiodic (\<lambda>_. q) S) else upd_aperiodic (\<lambda>_. q) S)"
    using 6(3) by (auto simp: lottery_remove_aperiodic_def Let_def split: prod.splits)
  with 6(1,2) remove_cases [OF _ q(1)] show ?case by (auto simp: ring_inv_def ring_members_def)
next
  case (7 S)
  then show ?case by (rule ring_live)
qed

section \<open>Dynamic priorities meet the contract\<close>

definition heap_inv :: "cpu_view \<Rightarrow> bool" where
  "heap_inv S \<longleftrightarrow> pq_inv (ts S) (aperiodic_pq (sched S))"

definition heap_members :: "cpu_view \<Rightarrow> ptr multiset" where
  "heap_members S = pq_elems (aperiodic_pq (sched S))"

lemma filter_mset_single: "count M t = 1 \<Longrightarrow> M = add_mset t (filter_mset (\<lambda>x. x \<noteq> t) M)"
  by (rule multiset_eqI) auto

interpretation dyn: aperiodic_queue heap_inv heap_members "\<lambda>_. True"
  dynamic_put_aperiodic "\<lambda>_. dynamic_get_next_aperiodic" dynamic_remove_aperiodic
proof (unfold_locales, goal_cases)
  case (1 S t rc S')
  obtain th q where q: "rt_priority_queue_enqueue (ts S) (aperiodic_pq (sched S)) t = (rc, th, q)"
    "S' = S\<lparr>ts := th, sched := (sched S)\<lparr>aperiodic_pq := q\<rparr>\<rparr>"
    using 1(4) by (auto simp: dynamic_put_aperiodic_def split: prod.splits)
  with 1(1-3) pq_enqueue_spec [OF _ 1(2) _ q(1)] show ?case
    by (auto simp: heap_inv_def heap_members_def aper_frame_def same_but_qtype_upd)
next
  case (2 S t)
  then show ?case by (simp add: dynamic_put_aperiodic_def heap_members_def enqueue_full)
next
  case (3 S rnd t S')
  obtain q where q: "rt_priority_queue_dequeue (ts S) (aperiodic_pq (sched S)) = (t, q)"
    "S' = S\<lparr>sched := (sched S)\<lparr>aperiodic_pq := q\<rparr>\<rparr>"
    using 3(3) by (auto simp: dynamic_get_next_aperiodic_def split: prod.splits)
  with 3(1,2) pq_dequeue_spec [OF _ _ q(1)] show ?case
    by (auto simp: heap_inv_def heap_members_def aper_frame_def)
next
  case (4 S rnd)
  then show ?case by (auto simp: dynamic_get_next_aperiodic_def split: prod.splits)
next
  case (5 S t r S')
  obtain th q where q: "rt_priority_queue_remove (ts S) (aperiodic_pq (sched S)) t = (r, th, q)"
    "S' = S\<lparr>ts := th, sched := (sched S)\<lparr>aperiodic_pq := q\<rparr>\<rparr>"
    using 5(3) by (auto simp: dynamic_remove_aperiodic_def split: prod.splits)
  moreover have "t \<in># heap_members S" using 5(2) by (metis count_eq_zero_iff zero_neq_one)
  ultimately show ?case using 5(1,2) remove_spec [OF _ q(1)] filter_mset_single [OF 5(2)]
    by (auto simp: heap_inv_def heap_members_def aper_frame_def)
next
  case (6 S t r S')
  obtain th q where q: "rt_priority_queue_remove (ts S) (aperiodic_pq (sched S)) t = (r, th, q)"
    "S' = S\<lparr>ts := th, sched := (sched S)\<lparr>aperiodic_pq := q\<rparr>\<rparr>"
    using 6(3) by (auto simp: dynamic_remove_aperiodic_def split: prod.splits)
  moreover have "filter_mset (\<lambda>x. x \<noteq> t) (heap_members S) = heap_members S"
    using 6(2) by (auto simp: filter_mset_eq_conv)
  ultimately show ?case using 6(1,2) remove_spec [OF _ q(1)]
    by (auto simp: heap_inv_def heap_members_def aper_frame_def)
next
  case (7 S)
  then show ?case by (auto simp: heap_inv_def heap_members_def pq_inv_def)
qed

section \<open>Every build meets the contract\<close>

definition aper_inv :: "aper_model \<Rightarrow> cpu_view \<Rightarrow> bool" where
  "aper_inv m S \<longleftrightarrow> (if m = ROUND_ROBIN \<or> m = LOTTERY then ring_inv S else heap_inv S)"

definition aper_members :: "aper_model \<Rightarrow> cpu_view \<Rightarrow> ptr multiset" where
  "aper_members m S = (if m = ROUND_ROBIN \<or> m = LOTTERY then ring_members S else heap_members S)"

definition aper_ready :: "aper_model \<Rightarrow> cpu_view \<Rightarrow> bool" where
  "aper_ready m S \<longleftrightarrow> (m = LOTTERY \<longrightarrow> lottery_ready S)"

lemma HAVE_APERIODIC_iff: "HAVE_APERIODIC m S \<longleftrightarrow> aper_members m S \<noteq> {#}"
proof -
  have "pq_elems q = {#} \<longleftrightarrow> pq_size q = 0" for q
    by (metis pq_elems_0 size_empty size_pq_elems)
  then show ?thesis
    by (auto simp: HAVE_APERIODIC_def aper_members_def ring_members_def heap_members_def
        rt_queue_empty_def rt_priority_queue_empty_def)
qed

lemma SIZE_APERIODIC_eq: "SIZE_APERIODIC m S = size (aper_members m S)"
  by (auto simp: SIZE_APERIODIC_def aper_members_def ring_members_def heap_members_def)

lemmas aper_defs = aper_inv_def aper_members_def aper_ready_def
  PUT_APERIODIC_def GET_NEXT_APERIODIC_def REMOVE_APERIODIC_def

interpretation aper: aperiodic_queue "aper_inv m" "aper_members m" "aper_ready m"
  "PUT_APERIODIC m" "GET_NEXT_APERIODIC m" "REMOVE_APERIODIC m" for m
  unfolding aper_defs [abs_def]
  by (cases m) (simp_all add: rr.aperiodic_queue_axioms lot.aperiodic_queue_axioms dyn.aperiodic_queue_axioms)

section \<open>Lottery totals\<close>

lemma tickets_total: "tickets S q (rq_size q) = sum_list (map (\<lambda>t. unat (weight S t)) (rq_list q))"
  by (simp add: tickets_def sum_list_sum_nth atLeast0LessThan)

lemma lottery_ready_iff:
  "lottery_ready S \<longleftrightarrow> total_prob (sched S) \<noteq> 0 \<and>
    unat (total_prob (sched S)) = (\<Sum>t \<in># ring_members S. unat (weight S t))"
proof -
  have "sum_mset (image_mset f (mset xs)) = sum_list (map f xs)" for f :: "ptr \<Rightarrow> nat" and xs
    by (metis mset_map sum_mset_sum_list)
  then show ?thesis by (simp add: lottery_ready_def tickets_total ring_members_def)
qed

lemma weight_frame [simp]:
  "weight (upd_total f S) t = weight S t" "weight (upd_aperiodic g S) t = weight S t"
  by (simp_all add: weight_def)

definition lottery_exact :: "cpu_view \<Rightarrow> bool" where
  "lottery_exact S \<longleftrightarrow> unat (total_prob (sched S)) = (\<Sum>t \<in># ring_members S. unat (weight S t))"

lemma lottery_exact_drop:
  assumes "lottery_exact S" "ring_members S = add_mset t (ring_members S')" "weight S' = weight S"
    "total_prob (sched S') = total_prob (sched S) - weight S t"
  shows "lottery_exact S'"
proof -
  have u: "unat (total_prob (sched S)) = unat (weight S t) + (\<Sum>x \<in># ring_members S'. unat (weight S x))"
    using assms(1,2) by (simp add: lottery_exact_def)
  then have "unat (total_prob (sched S) - weight S t) = unat (total_prob (sched S)) - unat (weight S t)"
    by (intro unat_sub) (simp add: word_le_nat_alt)
  with u assms(3,4) show ?thesis by (simp add: lottery_exact_def)
qed

section \<open>Properties\<close>

text \<open>A ring of three threads, of which thread 1 is the idle thread, with weights 1, 5 and 1.\<close>

definition sample_ring_q :: rt_queue where
  "sample_ring_q = \<lparr>rq_type = APERIODIC_QUEUE, rq_size = 3, rq_head = 3, rq_tail = 0,
     rq_threads = (\<lambda>_. 0)(0 := 1, 1 := 2, 2 := 3)\<rparr>"

definition sample_ring :: cpu_view where
  "sample_ring = blank_view\<lparr>
     ts := (\<lambda>t. zero_rt_thread\<lparr>constraints := aperiodic_constraints (if t = 2 then 5 else 1)\<rparr>),
     ks := (\<lambda>t. (ks blank_view t)\<lparr>is_idle := (t = 1)\<rparr>),
     sched := zero_rt_scheduler\<lparr>total_prob := 7, aperiodic := sample_ring_q\<rparr>\<rparr>"

lemma sample_ring_q_facts: "rq_inv sample_ring_q" "rq_list sample_ring_q = [1, 2, 3]" "rq_size sample_ring_q = 3"
  by code_simp+

lemma sample_ring_facts [simp]:
  "aperiodic (sched sample_ring) = sample_ring_q" "total_prob (sched sample_ring) = 7"
  "is_idle (ks sample_ring t) \<longleftrightarrow> t = 1" "weight sample_ring t = (if t = 2 then 5 else 1)"
  by (simp_all add: sample_ring_def weight_def)

lemma sample_ring_members: "ring_members sample_ring = {#1, 2, 3#}" "ring_inv sample_ring"
  "rq_list (aperiodic (sched sample_ring)) = [1, 2, 3]" "rq_size (aperiodic (sched sample_ring)) = 3"
  by (simp_all add: ring_members_def ring_inv_def sample_ring_q_facts)

text \<open>
  C32. Under every aperiodic model the scheduler loses and duplicates no thread when it rotates:
  if the current thread is put on a well-formed queue with room and the next thread is then taken,
  the put succeeds, the thread taken is one of the queued threads or the current one, and the
  threads left on the well-formed queue together with the one taken are exactly the earlier ones
  together with the current one. The next thread is always found when the queue is ready, which
  for round robin and the dynamic models it always is and for lottery means that the stored total
  is exact and not zero.
\<close>
theorem aperiodic_rotation_conserves:
  assumes "aper_inv m S" "t \<noteq> NULL" "size (aper_members m S) < MAX_QUEUE"
    "PUT_APERIODIC m S t = (rc, S1)" "aper_ready m S1"
  shows "\<exists>n S2. GET_NEXT_APERIODIC m rnd S1 = Inr (n, S2) \<and> rc = 0 \<and> n \<noteq> NULL \<and> aper_inv m S2 \<and>
    n \<in># add_mset t (aper_members m S) \<and>
    add_mset n (aper_members m S2) = add_mset t (aper_members m S)"
proof -
  have S1: "aper_inv m S1" "aper_members m S1 = add_mset t (aper_members m S)"
    using aper.put_room [OF assms(1-4)] by auto
  then obtain n S2 where "GET_NEXT_APERIODIC m rnd S1 = Inr (n, S2)"
    using aper.get_returns [OF S1(1) _ assms(5), of rnd] by auto
  with aper.put_then_get [OF assms(1-4)] show ?thesis by auto
qed

theorem aperiodic_rotation_conserves_witness:
  "\<exists>n S2. GET_NEXT_APERIODIC ROUND_ROBIN 0 (snd (PUT_APERIODIC ROUND_ROBIN sample_ring 9)) = Inr (n, S2) \<and>
    add_mset n (aper_members ROUND_ROBIN S2) = {#9, 1, 2, 3#}"
proof -
  obtain rc S1 where p: "PUT_APERIODIC ROUND_ROBIN sample_ring 9 = (rc, S1)" by (metis surj_pair)
  have a: "aper_inv ROUND_ROBIN sample_ring" "(9 :: ptr) \<noteq> NULL"
    "size (aper_members ROUND_ROBIN sample_ring) < MAX_QUEUE" "aper_ready ROUND_ROBIN S1"
    by (simp_all add: aper_members_def sample_ring_members MAX_QUEUE_def aper_ready_def aper_inv_def)
  have m: "add_mset 9 (aper_members ROUND_ROBIN sample_ring) = {#9, 1, 2, 3#}"
    by (simp add: aper_members_def sample_ring_members)
  show ?thesis
    using aperiodic_rotation_conserves [OF a(1-3) p a(4), of 0] unfolding p m snd_conv by blast
qed

text \<open>
  Round robin never hands out the idle thread while another thread is waiting: if the queue
  holds at least two threads and at most one of them is an idle thread, the thread taken is not
  the idle thread; if the head is not idle, it is the head, and if the head is idle, the second
  thread is taken and the idle thread goes to the back.
\<close>
lemma round_robin_skips_idle:
  assumes "ring_inv S" "rq_list (aperiodic (sched S)) = h # k # rest"
    "\<not> (is_idle (ks S h) \<and> is_idle (ks S k))"
  shows "\<exists>t S'. round_robin_get_next_aperiodic S = Inr (t, S') \<and> \<not> is_idle (ks S t) \<and>
    (if is_idle (ks S h) then t = k \<and> rq_list (aperiodic (sched S')) = rest @ [h]
     else t = h \<and> rq_list (aperiodic (sched S')) = k # rest)"
  using rr_get_head [OF assms(1,2)] rr_get_skip [OF assms(1,2)] assms(3)
  by (cases "is_idle (ks S h)") auto

lemma round_robin_skips_idle_witness:
  "\<exists>t S'. round_robin_get_next_aperiodic sample_ring = Inr (t, S') \<and> t = 2 \<and>
    rq_list (aperiodic (sched S')) = [3, 1]"
  using round_robin_skips_idle [OF sample_ring_members(2,3)] by simp

text \<open>
  The lottery draw always ends on a thread and picks it by its tickets: when the stored total
  is exact and not zero, the draw returns without a panic; the thread is the first one whose
  cumulative ticket count reaches the drawn number, or a neighbour of it when that thread is an
  idle thread and not alone; exactly that position leaves the queue, and the total stays exact.
\<close>
lemma lottery_draw_by_tickets:
  assumes "ring_inv S" "lottery_ready S" "q = aperiodic (sched S)" "g = unat (rnd mod total_prob (sched S))"
  shows "\<exists>c t S'. lottery_get_next_aperiodic rnd S = Inr (t, S') \<and>
    c < rq_size q \<and> g \<le> tickets S q (Suc c) \<and> (\<forall>i < c. tickets S q (Suc i) < g) \<and>
    t = rq_list q ! skip_idle S q c \<and>
    rq_list (aperiodic (sched S')) = take (skip_idle S q c) (rq_list q) @ drop (Suc (skip_idle S q c)) (rq_list q) \<and>
    lottery_exact S'"
proof -
  obtain c where c: "c < rq_size q" "g \<le> tickets S q (Suc c)" "\<forall>i < c. tickets S q (Suc i) < g"
    "lottery_pick S q (rnd mod total_prob (sched S)) 0 0 = skip_idle S q c"
    using ticket_falls [OF assms(2,3) refl, of rnd] assms(4) by metis
  have ne: "ring_members S \<noteq> {#}" using c(1) assms(3) by (simp add: ring_nonempty)
  then obtain t S' where g: "lottery_get_next_aperiodic rnd S = Inr (t, S')"
    using lot.get_returns [OF assms(1) _ assms(2), of rnd] by auto
  have s: "t = rq_list q ! skip_idle S q c"
    "S' = upd_total (\<lambda>p. p - weight S t) (upd_aperiodic (\<lambda>_. drop_pos q (skip_idle S q c)) S)"
    using lottery_get_Inr [OF g assms(1)] c(4) assms(3) by metis+
  have "lottery_exact S"
    using assms(2) by (simp add: lottery_ready_iff lottery_exact_def)
  then have "lottery_exact S'"
    using lot.get_member [OF assms(1) ne g] s(2)
    by (intro lottery_exact_drop [of S t S']) (auto simp: weight_def)
  moreover have "rq_list (aperiodic (sched S')) =
      take (skip_idle S q c) (rq_list q) @ drop (Suc (skip_idle S q c)) (rq_list q)"
    using drop_pos_spec [of q "skip_idle S q c"] skip_idle_less [OF c(1)] assms(1,3) s(2)
    by (simp add: ring_inv_def)
  ultimately show ?thesis using g c s(1) by blast
qed

lemma sample_ring_ready: "lottery_ready sample_ring"
  by (simp add: lottery_ready_iff sample_ring_members)

lemma lottery_draw_by_tickets_witness:
  "\<exists>c t S'. lottery_get_next_aperiodic 8 sample_ring = Inr (t, S') \<and>
    c < 3 \<and> 1 \<le> tickets sample_ring sample_ring_q (Suc c) \<and>
    t = [1, 2, 3] ! skip_idle sample_ring sample_ring_q c \<and> lottery_exact S'"
  using lottery_draw_by_tickets [OF sample_ring_members(2) sample_ring_ready refl refl, of 8]
  by (auto simp: sample_ring_q_facts)

text \<open>
  The draw is off by one ticket: the drawn number ranges from 0 to the total minus one, and a
  thread wins when the cumulative count reaches the number, so that the first thread has one
  ticket too many and the last one too few. A thread with a single ticket at the end of the queue
  never wins, whatever the random word, although it holds a ticket.
\<close>
lemma lottery_starves_last_ticket:
  assumes "ring_inv S" "lottery_ready S" "rq_list (aperiodic (sched S)) = xs @ [l]" "xs \<noteq> []"
    "weight S l = 1" "\<forall>t \<in> set (xs @ [l]). \<not> is_idle (ks S t)" "l \<notin> set xs"
  shows "\<exists>t S'. lottery_get_next_aperiodic rnd S = Inr (t, S') \<and> t \<noteq> l \<and> t \<in> set xs"
proof -
  let ?q = "aperiodic (sched S)" and ?g = "rnd mod total_prob (sched S)"
  have sz: "rq_size ?q = Suc (length xs)" using assms(3) by (metis length_append_singleton length_rq_list)
  obtain c where c: "c < rq_size ?q" "\<forall>i < c. tickets S ?q (Suc i) < unat ?g"
    "lottery_pick S ?q ?g 0 0 = skip_idle S ?q c"
    using ticket_falls [OF assms(2) refl refl, of rnd] by metis
  have "unat ?g < unat (total_prob (sched S))"
    using assms(2) by (intro draw_less) (simp add: lottery_ready_def)
  also have "\<dots> = Suc (tickets S ?q (length xs))"
    using assms(2,3,5) sz by (simp add: lottery_ready_def)
  finally have "\<not> tickets S ?q (length xs) < unat ?g" by simp
  moreover obtain m where m: "length xs = Suc m" using assms(4) by (cases xs) auto
  ultimately have "c \<le> m" using c(2) by (metis not_less)
  then have cl: "c < length xs" using m by simp
  moreover have "rq_list ?q ! c = xs ! c" using cl assms(3) by (simp add: nth_append)
  moreover have "skip_idle S ?q c = c"
    using assms(6) cl calculation(2) by (simp add: skip_idle_def)
  moreover have "ring_members S \<noteq> {#}" using sz by (simp add: ring_nonempty)
  then obtain t S' where g: "lottery_get_next_aperiodic rnd S = Inr (t, S')"
    using lot.get_returns [OF assms(1) _ assms(2), of rnd] by auto
  moreover have "t = rq_list ?q ! skip_idle S ?q c"
    using lottery_get_Inr [OF g assms(1)] c(3) by metis
  ultimately have "t \<in> set xs" by simp
  with g assms(7) show ?thesis by blast
qed

text \<open>Two threads with one ticket each: the second never runs.\<close>

definition sample_pair_q :: rt_queue where
  "sample_pair_q = \<lparr>rq_type = APERIODIC_QUEUE, rq_size = 2, rq_head = 2, rq_tail = 0,
     rq_threads = (\<lambda>_. 0)(0 := 6, 1 := 7)\<rparr>"

definition sample_pair :: cpu_view where
  "sample_pair = sample_ring\<lparr>sched := zero_rt_scheduler\<lparr>total_prob := 2, aperiodic := sample_pair_q\<rparr>\<rparr>"

lemma sample_pair_q_facts: "rq_inv sample_pair_q" "rq_list sample_pair_q = [6, 7]"
  by code_simp+

lemma lottery_starves_last_ticket_witness:
  "\<forall>rnd. \<exists>S'. lottery_get_next_aperiodic rnd sample_pair = Inr (6, S')"
proof
  fix rnd
  have q: "aperiodic (sched sample_pair) = sample_pair_q" "total_prob (sched sample_pair) = 2"
    "weight sample_pair t = (if t = 2 then 5 else 1)" "is_idle (ks sample_pair t) = (t = 1)" for t
    by (simp_all add: sample_pair_def sample_ring_def weight_def)
  have "ring_inv sample_pair" "lottery_ready sample_pair"
    by (simp_all add: ring_inv_def q sample_pair_q_facts lottery_ready_iff ring_members_def)
  then show "\<exists>S'. lottery_get_next_aperiodic rnd sample_pair = Inr (6, S')"
    using lottery_starves_last_ticket [of sample_pair "[6]" 7 rnd] by (auto simp: q sample_pair_q_facts)
qed

text \<open>
  Taking the next aperiodic thread from an empty queue: round robin dereferences NULL before
  the caller can test the result, lottery fails its assertion, and only the dynamic models return
  NULL.
\<close>
lemma get_next_of_empty_queue:
  assumes "aper_inv m S" "aper_members m S = {#}"
  shows "GET_NEXT_APERIODIC m rnd S =
    (case m of ROUND_ROBIN \<Rightarrow> Inl NullDeref | LOTTERY \<Rightarrow> Inl FailedAssert | _ \<Rightarrow> Inr (NULL, S))"
proof -
  have "pq_elems q = {#} \<Longrightarrow> pq_size q = 0" for q by (metis size_empty size_pq_elems)
  with assms show ?thesis
    by (cases m) (auto simp: aper_defs ring_members_def heap_members_def round_robin_get_next_aperiodic_def
        rt_queue_dequeue_def lottery_get_next_aperiodic_def dynamic_get_next_aperiodic_def dequeue_empty
        assert_that_def Let_def)
qed

lemma get_next_of_empty_queue_witness:
  "GET_NEXT_APERIODIC ROUND_ROBIN 0 blank_view = Inl NullDeref"
  using get_next_of_empty_queue [of ROUND_ROBIN blank_view 0]
  by (simp add: aper_inv_def aper_members_def ring_inv_def ring_members_def blank_view_def
      zero_rt_scheduler_def rq_inv_def rq_list_def ring_def)

end
