(* ===== verification/Apic_Timer.thy ===== *)
theory Apic_Timer
  imports Sched_Types
begin

text \<open>
  The one-shot timer of the local APIC and the conversions between nanoseconds, cycles and timer
  ticks (\<^verbatim>\<open>src/dev/apic.c\<close>), at their machine widths. The register writes themselves are the
  hardware's; the model keeps the driver's record of them.
\<close>

datatype nk_timer_condition = UNCOND | IF_EARLIER | IF_LATER

definition apic_set_oneshot_timer :: "apic_dev \<Rightarrow> u32 \<Rightarrow> apic_dev" where
  "apic_set_oneshot_timer a ticks =
     a\<lparr>timer_set := True, current_ticks := (if ticks = 0 then 1 else ticks)\<rparr>"

definition apic_update_oneshot_timer :: "apic_dev \<Rightarrow> u32 \<Rightarrow> nk_timer_condition \<Rightarrow> apic_dev" where
  "apic_update_oneshot_timer a ticks cond =
     (let a1 = (if \<not> timer_set a then apic_set_oneshot_timer a ticks
                else case cond of
                       UNCOND \<Rightarrow> apic_set_oneshot_timer a ticks
                     | IF_EARLIER \<Rightarrow> if ticks < current_ticks a then apic_set_oneshot_timer a ticks else a
                     | IF_LATER \<Rightarrow> if ticks > current_ticks a then apic_set_oneshot_timer a ticks else a)
      in a1\<lparr>in_timer_interrupt := False, in_kick_interrupt := False\<rparr>)"

definition apic_cycles_to_ticks :: "apic_dev \<Rightarrow> u64 \<Rightarrow> u32 result" where
  "apic_cycles_to_ticks a cycles = bindr (udiv cycles (cycles_per_tick a)) (\<lambda>t. Inr (ucast t))"

definition apic_realtime_to_ticks :: "apic_dev \<Rightarrow> u64 \<Rightarrow> u32 result" where
  "apic_realtime_to_ticks a ns = bindr (udiv (ns * 1000) (ps_per_tick a)) (\<lambda>t. Inr (ucast t))"

definition apic_realtime_to_cycles :: "apic_dev \<Rightarrow> u64 \<Rightarrow> u64" where
  "apic_realtime_to_cycles a ns = (ns * cycles_per_us a) div 1000"

definition apic_cycles_to_realtime :: "apic_dev \<Rightarrow> u64 \<Rightarrow> u64 result" where
  "apic_cycles_to_realtime a cycles = bindr (udiv cycles (cycles_per_us a)) (\<lambda>us. Inr (1000 * us))"

text \<open>The interrupt handlers of the timer and of a kick from another CPU. \<open>time_to_next_ns\<close> is
  what \<open>nk_timer_handler\<close> returned.\<close>

definition apic_timer_handler :: "u64 \<Rightarrow> apic_dev \<Rightarrow> apic_dev result" where
  "apic_timer_handler time_to_next_ns a =
     (let a1 = a\<lparr>in_timer_interrupt := True, timer_count := timer_count a + 1, timer_set := False\<rparr>
      in if time_to_next_ns = -1 then Inr (apic_set_oneshot_timer a1 (-1))
         else bindr (apic_realtime_to_ticks a1 time_to_next_ns) (\<lambda>t. Inr (apic_set_oneshot_timer a1 t)))"

definition null_kick :: "apic_dev \<Rightarrow> apic_dev" where
  "null_kick a = a\<lparr>in_kick_interrupt := True\<rparr>"

section \<open>Lemmas\<close>

lemma update_oneshot_simps [simp]:
  "ps_per_tick (apic_update_oneshot_timer a t c) = ps_per_tick a"
  "cycles_per_us (apic_update_oneshot_timer a t c) = cycles_per_us a"
  "cycles_per_tick (apic_update_oneshot_timer a t c) = cycles_per_tick a"
  "in_timer_interrupt (apic_update_oneshot_timer a t c) = False"
  "in_kick_interrupt (apic_update_oneshot_timer a t c) = False"
  "timer_set (apic_update_oneshot_timer a t c) = True"
  by (simp_all add: apic_update_oneshot_timer_def apic_set_oneshot_timer_def Let_def
      split: nk_timer_condition.splits)

text \<open>An update that only moves the timer earlier leaves it at the smaller of the two counts.\<close>

lemma update_if_earlier:
  "current_ticks (apic_update_oneshot_timer a t IF_EARLIER) =
    (if timer_set a \<and> current_ticks a \<le> t then current_ticks a else if t = 0 then 1 else t)"
  by (auto simp: apic_update_oneshot_timer_def apic_set_oneshot_timer_def Let_def not_less)

lemma realtime_to_ticks_returns: "ps_per_tick a \<noteq> 0 \<Longrightarrow> \<exists>t. apic_realtime_to_ticks a ns = Inr t"
  by (simp add: apic_realtime_to_ticks_def udiv_def)

lemma cycles_to_realtime_returns: "cycles_per_us a \<noteq> 0 \<Longrightarrow> \<exists>t. apic_cycles_to_realtime a c = Inr t"
  by (simp add: apic_cycles_to_realtime_def udiv_def)

section \<open>Properties\<close>

text \<open>
  Converting a cycle count to nanoseconds is exact to the microsecond and monotonic: when the
  result fits 64 bits, it is 1000 times the whole microseconds elapsed, so it never runs ahead of
  the real time and lags it by less than a microsecond, and a later count never gives an earlier
  time.
\<close>
lemma cycles_to_realtime_exact:
  assumes "cycles_per_us a \<noteq> 0" "unat c2 div unat (cycles_per_us a) * 1000 < 2 ^ 64" "c1 \<le> c2"
  shows "\<exists>t1 t2. apic_cycles_to_realtime a c1 = Inr t1 \<and> apic_cycles_to_realtime a c2 = Inr t2 \<and> t1 \<le> t2 \<and>
    unat t2 = 1000 * (unat c2 div unat (cycles_per_us a)) \<and>
    unat t2 * unat (cycles_per_us a) \<le> 1000 * unat c2 \<and>
    1000 * unat c2 < (unat t2 + 1000) * unat (cycles_per_us a)"
proof -
  let ?f = "unat (cycles_per_us a)"
  have f: "0 < ?f" using assms(1) by (simp add: unat_gt_0)
  have le: "unat c1 div ?f \<le> unat c2 div ?f" using assms(3) by (intro div_le_mono) (simp add: word_le_nat_alt)
  have t: "unat (1000 * (c div cycles_per_us a)) = 1000 * (unat c div ?f)"
    if "unat c div ?f * 1000 < 2 ^ 64" for c
    using that by (simp add: unat_word_ariths unat_div)
  have t2: "unat (1000 * (c2 div cycles_per_us a)) = 1000 * (unat c2 div ?f)" using assms(2) by (rule t)
  moreover have "unat (1000 * (c1 div cycles_per_us a)) = 1000 * (unat c1 div ?f)"
    using le assms(2) by (intro t) simp
  ultimately have "1000 * (c1 div cycles_per_us a) \<le> 1000 * (c2 div cycles_per_us a)"
    using le by (simp add: word_le_nat_alt)
  moreover have "unat c2 div ?f * ?f \<le> unat c2" "unat c2 < (unat c2 div ?f + 1) * ?f"
    using f dividend_less_div_times [of ?f "unat c2"] by (simp_all add: add.commute)
  ultimately show ?thesis
    using t2 assms(1) by (simp add: apic_cycles_to_realtime_def udiv_def algebra_simps)
qed

lemma cycles_to_realtime_exact_witness:
  "\<exists>t2. apic_cycles_to_realtime (apic blank_view\<lparr>cycles_per_us := 3000\<rparr>) 7000000 = Inr t2 \<and> unat t2 = 2333000"
  using cycles_to_realtime_exact [of "apic blank_view\<lparr>cycles_per_us := 3000\<rparr>" 7000000 5] by auto

end
