(* ===== verification/Resched.thy ===== *)
theory Resched
  imports Aperiodic Apic_Timer
begin

text \<open>
  The scheduling pass of one CPU (\<open>_sched_need_resched\<close> of \<^verbatim>\<open>src/nautilus/scheduler.c\<close> with
  the queue macros, \<open>set_timer\<close>, the dynamic priority update and the deadline check it calls).
  The pass runs with interrupts off under the CPU's local lock, so it is one atomic function on
  the CPU's view of the machine. What it reads from outside is in the record \<open>resched_env\<close>. The
  result is the thread to switch to, NULL to stay with the current one, or a fault.
\<close>

unbundle bit_operations_syntax

section \<open>The real-time queues\<close>

definition HAVE_RT :: "cpu_view \<Rightarrow> bool" where
  "HAVE_RT S \<longleftrightarrow> \<not> rt_priority_queue_empty (runnable (sched S))"

definition PEEK_RT :: "cpu_view \<Rightarrow> ptr" where
  "PEEK_RT S = pq_threads (runnable (sched S)) 0"

definition GET_NEXT_RT :: "cpu_view \<Rightarrow> ptr \<times> cpu_view" where
  "GET_NEXT_RT S =
     (let (t, q) = rt_priority_queue_dequeue (ts S) (runnable (sched S))
      in (t, S\<lparr>sched := (sched S)\<lparr>runnable := q\<rparr>\<rparr>))"

definition PUT_RT :: "cpu_view \<Rightarrow> ptr \<Rightarrow> int \<times> cpu_view" where
  "PUT_RT S t =
     (let (rc, th, q) = rt_priority_queue_enqueue (ts S) (runnable (sched S)) t
      in (rc, S\<lparr>ts := th, sched := (sched S)\<lparr>runnable := q\<rparr>\<rparr>))"

definition REMOVE_RT :: "cpu_view \<Rightarrow> ptr \<Rightarrow> ptr \<times> cpu_view" where
  "REMOVE_RT S t =
     (let (r, th, q) = rt_priority_queue_remove (ts S) (runnable (sched S)) t
      in (r, S\<lparr>ts := th, sched := (sched S)\<lparr>runnable := q\<rparr>\<rparr>))"

definition HAVE_RT_PENDING :: "cpu_view \<Rightarrow> bool" where
  "HAVE_RT_PENDING S \<longleftrightarrow> \<not> rt_priority_queue_empty (pending (sched S))"

definition PEEK_RT_PENDING :: "cpu_view \<Rightarrow> ptr" where
  "PEEK_RT_PENDING S = pq_threads (pending (sched S)) 0"

definition GET_NEXT_RT_PENDING :: "cpu_view \<Rightarrow> ptr \<times> cpu_view" where
  "GET_NEXT_RT_PENDING S =
     (let (t, q) = rt_priority_queue_dequeue (ts S) (pending (sched S))
      in (t, S\<lparr>sched := (sched S)\<lparr>pending := q\<rparr>\<rparr>))"

definition PUT_RT_PENDING :: "cpu_view \<Rightarrow> ptr \<Rightarrow> int \<times> cpu_view" where
  "PUT_RT_PENDING S t =
     (let (rc, th, q) = rt_priority_queue_enqueue (ts S) (pending (sched S)) t
      in (rc, S\<lparr>ts := th, sched := (sched S)\<lparr>pending := q\<rparr>\<rparr>))"

definition REMOVE_RT_PENDING :: "cpu_view \<Rightarrow> ptr \<Rightarrow> ptr \<times> cpu_view" where
  "REMOVE_RT_PENDING S t =
     (let (r, th, q) = rt_priority_queue_remove (ts S) (pending (sched S)) t
      in (r, S\<lparr>ts := th, sched := (sched S)\<lparr>pending := q\<rparr>\<rparr>))"

section \<open>Helpers of the pass\<close>

text \<open>The two panics at the end of the pass.\<close>

definition panic_queue :: "'a result" where
  "panic_queue = Inl (Panic ''UNEXPECTED QUEUE OVERFLOW IN nk_sched_need_resched()'')"

definition panic_no_aperiodic :: "'a result" where
  "panic_no_aperiodic = Inl (Panic ''ATTEMPTING TO RUN A NULL RT_THREAD.'')"

text \<open>\<open>rt_thread_check_deadlines\<close> returns whether the deadline was missed.\<close>

definition rt_thread_check_deadlines :: "rt_thread \<Rightarrow> u64 \<Rightarrow> bool \<times> rt_thread" where
  "rt_thread_check_deadlines t now =
     (if now > deadline t
      then (True, t\<lparr>miss_count := miss_count t + 1,
                    miss_time_sum := miss_time_sum t + (now - deadline t),
                    miss_time_sum2 := miss_time_sum2 t + (now - deadline t) * (now - deadline t)\<rparr>)
      else (False, t))"

definition rt_thread_update_periodic :: "rt_thread \<Rightarrow> u64 \<Rightarrow> rt_thread" where
  "rt_thread_update_periodic t now =
     (if ctype (constraints t) = PERIODIC
      then t\<lparr>deadline := now + periodic_period (constraints t), run_time := 0\<rparr> else t)"

definition rt_thread_update_sporadic :: "rt_thread \<Rightarrow> u64 \<Rightarrow> rt_thread" where
  "rt_thread_update_sporadic t now =
     (if ctype (constraints t) = SPORADIC
      then t\<lparr>deadline := sporadic_deadline (constraints t), run_time := 0\<rparr> else t)"

text \<open>The dynamic priority: baseline plus the time \<open>run\<close>, clamped, plus a random-looking offset.\<close>

definition dynamic_priority :: "u64 \<Rightarrow> u64 \<Rightarrow> u64 \<Rightarrow> u64" where
  "dynamic_priority prio run now =
     (let d = prio + run;
          d' = (if d < prio \<or> d > -1 - 2048 then -1 - 2048 else d)
      in d' + (now AND 0xfff))"

definition rt_thread_update_aperiodic :: "aper_model \<Rightarrow> bool \<Rightarrow> rt_thread \<Rightarrow> nk_sched_config \<Rightarrow> u64 \<Rightarrow> rt_thread" where
  "rt_thread_update_aperiodic m idle t c now =
     (if ctype (constraints t) = APERIODIC
      then case m of
             DYNAMIC_QUANTUM \<Rightarrow>
               if idle then t\<lparr>deadline := -1\<rparr>
               else t\<lparr>deadline := dynamic_priority (aperiodic_priority (constraints t))
                        (if cur_run_time t < aperiodic_quantum c then cur_run_time t else aperiodic_quantum c) now\<rparr>
           | DYNAMIC_LIFETIME \<Rightarrow>
               if idle then t\<lparr>deadline := -1\<rparr>
               else t\<lparr>deadline := dynamic_priority (aperiodic_priority (constraints t)) (run_time t) now\<rparr>
           | _ \<Rightarrow> t
      else t)"

section \<open>The timer\<close>

text \<open>When the thread must be preempted; the assertions guard the subtraction.\<close>

definition next_preempt :: "rt_thread \<Rightarrow> nk_sched_config \<Rightarrow> u64 \<Rightarrow> u64 result" where
  "next_preempt t c now =
     (case ctype (constraints t) of
        APERIODIC \<Rightarrow> Inr (now + aperiodic_quantum c)
      | SPORADIC \<Rightarrow>
          assert_that (sporadic_size (constraints t) \<ge> run_time t)
            (Inr (now + (sporadic_size (constraints t) - run_time t)))
      | PERIODIC \<Rightarrow>
          assert_that (periodic_slice (constraints t) \<ge> run_time t)
            (Inr (now + (periodic_slice (constraints t) - run_time t))))"

definition next_arrival :: "cpu_view \<Rightarrow> u64" where
  "next_arrival S = (if HAVE_RT_PENDING S then deadline (ts S (PEEK_RT_PENDING S)) else -1)"

definition cur_time :: "apic_dev \<Rightarrow> u64 \<Rightarrow> u64 result" where
  "cur_time a cycles = apic_cycles_to_realtime a cycles"

text \<open>\<open>cycles\<close> is the cycle counter when the function compares the current time.\<close>

definition set_timer :: "cpu_view \<Rightarrow> ptr \<Rightarrow> u64 \<Rightarrow> u64 \<Rightarrow> cpu_view result" where
  "set_timer S t now cycles =
     (let arrival = next_arrival S
      in bindr (if t \<noteq> NULL then next_preempt (ts S t) (cfg (sched S)) now else Inr (-1)) (\<lambda>preempt.
         let S1 = (if t \<noteq> NULL then upd_rt t (\<lambda>r. r\<lparr>start_time := now\<rparr>) S else S);
             st = (if arrival < preempt then arrival else preempt);
             S2 = upd_sched (\<lambda>s. s\<lparr>tsc := (tsc s)\<lparr>tsc_start_time := now, set_time := st\<rparr>\<rparr>) S1
         in bindr (apic_realtime_to_ticks (apic S2) (st - now + slack (sched S2))) (\<lambda>ticks.
            bindr (cur_time (apic S2) cycles) (\<lambda>t2.
            Inr (S2\<lparr>apic := apic_update_oneshot_timer (apic S2) (if t2 \<ge> st then 1 else ticks) IF_EARLIER\<rparr>)))))"

definition set_interrupt_priority :: "ptr \<Rightarrow> cpu_view \<Rightarrow> cpu_view" where
  "set_interrupt_priority t S = S\<lparr>cr8 := ucast (interrupt_priority_class (constraints (ts S t)))\<rparr>"

section \<open>Instrumentation\<close>

definition INST_SCHED_OUT :: "u64 \<Rightarrow> inst_counters \<Rightarrow> inst_counters" where
  "INST_SCHED_OUT diff k =
     k\<lparr>inst_num := inst_num k + 1, inst_sum := inst_sum k + diff, inst_sum2 := inst_sum2 k + diff * diff,
       inst_max := (if inst_max k < diff then diff else inst_max k),
       inst_min := (if inst_min k = 0 \<or> inst_min k > diff then diff else inst_min k)\<rparr>"

section \<open>Arrivals\<close>

definition arrive :: "rt_thread \<Rightarrow> rt_thread" where
  "arrive t =
     (let t1 = t\<lparr>arrival_count := arrival_count t + 1\<rparr>
      in if ctype (constraints t) = PERIODIC
         then t1\<lparr>deadline := deadline t + periodic_period (constraints t), run_time := 0\<rparr>
         else t1\<lparr>deadline := sporadic_deadline (constraints t)\<rparr>)"

lemma get_pending_size:
  assumes "GET_NEXT_RT_PENDING S = (t, S')" "HAVE_RT_PENDING S"
  shows "pq_size (pending (sched S')) < pq_size (pending (sched S))"
proof -
  have "sched S' = (sched S)\<lparr>pending := snd (rt_priority_queue_dequeue (ts S) (pending (sched S)))\<rparr>"
    using assms(1) by (auto simp: GET_NEXT_RT_PENDING_def split: prod.splits)
  with assms(2) show ?thesis by (simp add: HAVE_RT_PENDING_def rt_priority_queue_empty_def)
qed

lemma put_rt_pending [simp]: "pending (sched (snd (PUT_RT S t))) = pending (sched S)"
  by (simp add: PUT_RT_def case_prod_unfold Let_def)

function pump_pending :: "u64 \<Rightarrow> cpu_view \<Rightarrow> cpu_view result" where
  "pump_pending now S =
     (if HAVE_RT_PENDING S \<and> deadline (ts S (PEEK_RT_PENDING S)) \<le> now
      then let (a, S1) = GET_NEXT_RT_PENDING S
           in if a = NULL then pump_pending now S1
              else let (rc, S2) = PUT_RT (upd_rt a arrive S1) a
                   in if rc \<noteq> 0 then panic_queue else pump_pending now S2
      else Inr S)"
  by pat_completeness auto
termination
proof (relation "measure (\<lambda>(now, S). pq_size (pending (sched S)))", goal_cases)
  case (2 now S x a S1)
  then show ?case using get_pending_size [of S a S1] by simp
next
  case (3 now S x a S1 xa rc S2)
  then show ?case
    using get_pending_size [of S a S1] put_rt_pending [of "upd_rt a arrive S1" a] by (auto simp: prod_eq_iff)
qed simp

declare pump_pending.simps [simp del]

section \<open>Choosing the next thread\<close>

definition next_aperiodic :: "aper_model \<Rightarrow> u64 \<Rightarrow> cpu_view \<Rightarrow> (ptr \<times> cpu_view) result" where
  "next_aperiodic m rnd S =
     bindr (GET_NEXT_APERIODIC m rnd S) (\<lambda>(n, S1). if n = NULL then panic_no_aperiodic else Inr (n, S1))"

definition next_rt_or_aperiodic :: "aper_model \<Rightarrow> u64 \<Rightarrow> cpu_view \<Rightarrow> (ptr \<times> cpu_view) result" where
  "next_rt_or_aperiodic m rnd S =
     (if HAVE_RT S
      then let (n, S1) = GET_NEXT_RT S in if n \<noteq> NULL then Inr (n, S1) else next_aperiodic m rnd S1
      else next_aperiodic m rnd S)"

definition suspend :: "ptr \<Rightarrow> cpu_view \<Rightarrow> cpu_view" where
  "suspend t S = upd_kt t (\<lambda>k. k\<lparr>tstatus := NK_THR_SUSPENDED\<rparr>) S"

text \<open>The current thread is put back on a queue, unless it is on its way elsewhere.\<close>

definition requeue :: "(cpu_view \<Rightarrow> ptr \<Rightarrow> int \<times> cpu_view) \<Rightarrow> ptr \<Rightarrow> cpu_view \<Rightarrow> cpu_view result" where
  "requeue put c S = (let (rc, S1) = put (suspend c S) c in if rc \<noteq> 0 then panic_queue else Inr S1)"

definition resched_aperiodic ::
  "aper_model \<Rightarrow> u64 \<Rightarrow> u64 \<Rightarrow> bool \<Rightarrow> ptr \<Rightarrow> cpu_view \<Rightarrow> (ptr \<times> cpu_view) result" where
  "resched_aperiodic m rnd now special c S =
     (let S1 = upd_rt c (\<lambda>r. rt_thread_update_aperiodic m (is_idle (ks S c)) r (cfg (sched S)) now) S
      in bindr (if \<not> special then requeue (PUT_APERIODIC m) c S1 else Inr S1) (next_rt_or_aperiodic m rnd))"

text \<open>
  A thread that has just changed its constraints was put on the pending queue; if it has been
  pumped to the head of the run queue by now, it takes itself off and goes on.
\<close>

definition changing_fast :: "cpu_view \<Rightarrow> (ptr \<times> cpu_view) result" where
  "changing_fast S =
     (let (n, S1) = GET_NEXT_RT S in if n = NULL then Inl NullDeref else Inr (n, suspend n S1))"

definition demote :: "rt_thread \<Rightarrow> rt_thread" where
  "demote r =
     (let c = constraints r
      in r\<lparr>constraints := c\<lparr>ctype := APERIODIC, word0 := sporadic_aperiodic_priority c\<rparr>\<rparr>)"

definition sporadic_done ::
  "aper_model \<Rightarrow> u64 \<Rightarrow> u64 \<Rightarrow> bool \<Rightarrow> ptr \<Rightarrow> cpu_view \<Rightarrow> (ptr \<times> cpu_view) result" where
  "sporadic_done m rnd now special c S =
     (let S1 = upd_rt c (\<lambda>r. snd (rt_thread_check_deadlines r now)) S
      in bindr (if \<not> special then requeue (PUT_APERIODIC m) c (upd_rt c demote S1) else Inr S1)
           (next_rt_or_aperiodic m rnd))"

text \<open>
  The end of the sporadic case: a special thread leaves for an aperiodic one, and a thread that
  stays writes through \<open>rt_n\<close> before \<open>rt_n\<close> has been assigned.
\<close>

definition sporadic_tail :: "aper_model \<Rightarrow> u64 \<Rightarrow> bool \<Rightarrow> cpu_view \<Rightarrow> (ptr \<times> cpu_view) result" where
  "sporadic_tail m rnd special S = (if special then next_aperiodic m rnd S else Inl BadPointer)"

text \<open>
  Preemption by the head of the run queue: the thread to switch to, or \<open>None\<close> and the state in
  which the current thread goes on.
\<close>

definition preempt_by_rt :: "bool \<Rightarrow> ptr \<Rightarrow> cpu_view \<Rightarrow> (ptr \<times> cpu_view) result option \<times> cpu_view" where
  "preempt_by_rt special c S =
     (if HAVE_RT S \<and> (special \<or> deadline (ts S c) > deadline (ts S (PEEK_RT S)))
      then let (n, S1) = GET_NEXT_RT S
           in if n \<noteq> NULL
              then (Some (bindr (if \<not> special then requeue PUT_RT c S1 else Inr S1) (\<lambda>S2. Inr (n, S2))), S1)
              else (None, S1)
      else (None, S))"

definition resched_sporadic ::
  "aper_model \<Rightarrow> u64 \<Rightarrow> u64 \<Rightarrow> bool \<Rightarrow> bool \<Rightarrow> ptr \<Rightarrow> cpu_view \<Rightarrow> (ptr \<times> cpu_view) result" where
  "resched_sporadic m rnd now changing special c S =
     (if changing \<and> HAVE_RT S \<and> PEEK_RT S = c then changing_fast S
      else if run_time (ts S c) \<ge> sporadic_size (constraints (ts S c)) then sporadic_done m rnd now special c S
      else case preempt_by_rt special c S of
             (Some r, _) \<Rightarrow> r
           | (None, S1) \<Rightarrow> sporadic_tail m rnd special S1)"

definition rearrive :: "rt_thread \<Rightarrow> rt_thread" where
  "rearrive r = r\<lparr>deadline := deadline r + periodic_period (constraints r), run_time := 0\<rparr>"

definition periodic_done :: "u64 \<Rightarrow> bool \<Rightarrow> ptr \<Rightarrow> cpu_view \<Rightarrow> cpu_view result" where
  "periodic_done now special c S =
     (let (missed, r) = rt_thread_check_deadlines (ts S c) now; S1 = upd_rt c (\<lambda>_. r) S
      in if missed
         then let S2 = upd_rt c rearrive S1
              in if \<not> special
                 then requeue PUT_RT c (upd_rt c (\<lambda>r. r\<lparr>arrival_count := arrival_count r + 1\<rparr>) S2)
                 else Inr S2
         else if \<not> special then requeue PUT_RT_PENDING c S1 else Inr S1)"

definition periodic_tail :: "aper_model \<Rightarrow> u64 \<Rightarrow> bool \<Rightarrow> ptr \<Rightarrow> cpu_view \<Rightarrow> (ptr \<times> cpu_view) result" where
  "periodic_tail m rnd special c S =
     (if special \<or> tstatus (ks S c) = NK_THR_SUSPENDED then next_aperiodic m rnd S
      else Inr (c, suspend c S))"

definition resched_periodic ::
  "aper_model \<Rightarrow> u64 \<Rightarrow> u64 \<Rightarrow> bool \<Rightarrow> bool \<Rightarrow> ptr \<Rightarrow> cpu_view \<Rightarrow> (ptr \<times> cpu_view) result" where
  "resched_periodic m rnd now changing special c S =
     (if changing \<and> HAVE_RT S \<and> PEEK_RT S = c then changing_fast S
      else if run_time (ts S c) \<ge> periodic_slice (constraints (ts S c))
      then bindr (periodic_done now special c S) (\<lambda>S1.
             if HAVE_RT S1
             then let (n, S2) = GET_NEXT_RT S1
                  in if n \<noteq> NULL then Inr (n, S2) else periodic_tail m rnd special c S2
             else periodic_tail m rnd special c S1)
      else case preempt_by_rt special c S of
             (Some r, _) \<Rightarrow> r
           | (None, S1) \<Rightarrow> periodic_tail m rnd special c S1)"

section \<open>The pass\<close>

text \<open>
  \<open>cycles_in\<close> and \<open>cycles_set\<close> are the cycle counter at entry and in \<open>set_timer\<close>, \<open>inst_diff\<close> the
  cycles the pass took, \<open>rnd\<close> the random word, \<open>preempt_off\<close> whether preemption is disabled on the
  CPU and \<open>force\<close> the caller's \<open>force_resched\<close>.
\<close>

record resched_env =
  cycles_in :: u64
  cycles_set :: u64
  inst_diff :: u64
  rnd_word :: u64
  preempt_off :: bool
  force :: bool

definition CUR_IS_SPECIAL :: "rt_status \<Rightarrow> bool" where
  "CUR_IS_SPECIAL st \<longleftrightarrow> st = SLEEPING \<or> st = EXITING \<or> st = CHANGING"

definition out_good_early :: "resched_env \<Rightarrow> cpu_view \<Rightarrow> (ptr \<times> cpu_view) result" where
  "out_good_early e S =
     Inr (NULL, upd_sched (\<lambda>s. s\<lparr>resched_fast := INST_SCHED_OUT (inst_diff e) (resched_fast s)\<rparr>) S)"

definition mark_running :: "ptr \<Rightarrow> cpu_view \<Rightarrow> cpu_view" where
  "mark_running t S =
     (if tstatus (ks S t) \<noteq> NK_THR_WAITING then upd_kt t (\<lambda>k. k\<lparr>tstatus := NK_THR_RUNNING\<rparr>) S else S)"

definition out_good :: "resched_env \<Rightarrow> u64 \<Rightarrow> rt_status \<Rightarrow> ptr \<Rightarrow> ptr \<Rightarrow> cpu_view \<Rightarrow> (ptr \<times> cpu_view) result" where
  "out_good e now st c n S =
     (let S1 = upd_rt c (\<lambda>r. r\<lparr>resched_long_count := resched_long_count r + 1,
                              status := (if st = CHANGING then ADMITTED else status r),
                              exit_time := (if st = EXITING then now else exit_time r)\<rparr>) S;
          S2 = upd_sched (\<lambda>s. s\<lparr>current := n\<rparr>) S1
      in bindr (set_timer S2 n now (cycles_set e)) (\<lambda>S3.
         if n \<noteq> c
         then let S4 = upd_rt n (\<lambda>r. r\<lparr>switch_in_count := switch_in_count r + 1, cur_run_time := 0\<rparr>)
                         (mark_running n S3)
              in Inr (n, upd_sched (\<lambda>s. s\<lparr>resched_slow := INST_SCHED_OUT (inst_diff e) (resched_slow s)\<rparr>)
                           (set_interrupt_priority n S4))
         else Inr (NULL, upd_sched (\<lambda>s. s\<lparr>resched_slow_noswitch :=
                           INST_SCHED_OUT (inst_diff e) (resched_slow_noswitch s)\<rparr>) (mark_running c S3))))"

definition DELAY_FOR_PREEMPT_NS :: u64 where
  "DELAY_FOR_PREEMPT_NS = 10000"

definition preempt_disabled_exit :: "cpu_view \<Rightarrow> (ptr \<times> cpu_view) result" where
  "preempt_disabled_exit S =
     (if in_timer_interrupt (apic S) \<or> in_kick_interrupt (apic S)
      then bindr (apic_realtime_to_ticks (apic S) DELAY_FOR_PREEMPT_NS) (\<lambda>t.
           Inr (NULL, S\<lparr>apic := apic_update_oneshot_timer (apic S) t IF_EARLIER\<rparr>))
      else Inr (NULL, S))"

definition charge :: "u64 \<Rightarrow> ptr \<Rightarrow> cpu_view \<Rightarrow> cpu_view" where
  "charge now c S =
     upd_rt c (\<lambda>r. r\<lparr>run_time := run_time r + (now - start_time r),
                    cur_run_time := cur_run_time r + (now - start_time r),
                    resched_count := resched_count r + 1\<rparr>)
       (upd_sched (\<lambda>s. s\<lparr>tsc := (tsc s)\<lparr>end_time := now\<rparr>\<rparr>) S)"

text \<open>Nothing to do: no timeout, no timer or kick interrupt, and the thread wants nothing special.\<close>

definition stay_early :: "u64 \<Rightarrow> ptr \<Rightarrow> cpu_view \<Rightarrow> bool" where
  "stay_early now c S \<longleftrightarrow>
     \<not> set_time (tsc (sched S)) < now \<and> \<not> in_timer_interrupt (apic S) \<and> \<not> in_kick_interrupt (apic S) \<and>
     \<not> CUR_IS_SPECIAL (status (ts S c)) \<and> status (ts S c) \<noteq> YIELDING \<and> \<not> is_idle (ks S c)"

definition choose_next ::
  "aper_model \<Rightarrow> u64 \<Rightarrow> u64 \<Rightarrow> rt_status \<Rightarrow> ptr \<Rightarrow> cpu_view \<Rightarrow> (ptr \<times> cpu_view) result" where
  "choose_next m rnd now st c S =
     (case ctype (constraints (ts S c)) of
        APERIODIC \<Rightarrow> resched_aperiodic m rnd now (CUR_IS_SPECIAL st) c S
      | SPORADIC \<Rightarrow> resched_sporadic m rnd now (st = CHANGING) (CUR_IS_SPECIAL st) c S
      | PERIODIC \<Rightarrow> resched_periodic m rnd now (st = CHANGING) (CUR_IS_SPECIAL st) c S)"

definition sched_need_resched :: "aper_model \<Rightarrow> resched_env \<Rightarrow> ptr \<Rightarrow> cpu_view \<Rightarrow> (ptr \<times> cpu_view) result" where
  "sched_need_resched m e c S =
     (if preempt_off e \<and> \<not> force e then preempt_disabled_exit S
      else bindr (cur_time (apic S) (cycles_in e)) (\<lambda>now.
           let S1 = charge now c S; st = status (ts S c)
           in if stay_early now c S1 then out_good_early e S1
              else bindr (pump_pending now S1) (\<lambda>S2.
                   bindr (choose_next m (rnd_word e) now st c S2) (\<lambda>(n, S3).
                   out_good e now st c n S3))))"

definition nk_sched_need_resched :: "aper_model \<Rightarrow> resched_env \<Rightarrow> ptr \<Rightarrow> cpu_view \<Rightarrow> (ptr \<times> cpu_view) result" where
  "nk_sched_need_resched m e c S = sched_need_resched m (e\<lparr>force := False\<rparr>) c S"

end
