(* ===== verification/Resched_Inv.thy ===== *)
theory Resched_Inv
  imports Resched
begin

text \<open>
  The invariant of one CPU's scheduler and the proof that a scheduling pass keeps it, loses and
  duplicates no thread, dispatches by earliest deadline first and programs the timer for the next
  event. The aperiodic queue is used only through the contract \<open>aperiodic_queue\<close>.
\<close>

section \<open>The invariant\<close>

abbreviation rt_run :: "cpu_view \<Rightarrow> ptr multiset" where
  "rt_run S \<equiv> pq_elems (runnable (sched S))"

abbreviation rt_pend :: "cpu_view \<Rightarrow> ptr multiset" where
  "rt_pend S \<equiv> pq_elems (pending (sched S))"

definition queued :: "aper_model \<Rightarrow> cpu_view \<Rightarrow> ptr multiset" where
  "queued m S = rt_run S + rt_pend S + aper_members m S"

text \<open>A runnable real-time thread has budget left, and a pending sporadic one has not overrun.\<close>

definition rt_ok :: "rt_thread \<Rightarrow> bool" where
  "rt_ok r \<longleftrightarrow>
     (case ctype (constraints r) of
        APERIODIC \<Rightarrow> False
      | SPORADIC \<Rightarrow> run_time r \<le> sporadic_size (constraints r)
      | PERIODIC \<Rightarrow> run_time r \<le> periodic_slice (constraints r))"

definition pend_ok :: "rt_thread \<Rightarrow> bool" where
  "pend_ok r \<longleftrightarrow> ctype (constraints r) \<noteq> APERIODIC \<and>
     (ctype (constraints r) = SPORADIC \<longrightarrow> run_time r \<le> sporadic_size (constraints r))"

text \<open>
  \<open>rt_ok\<close> is what the assertion before the timer is set demands. Budget strictly left is more: a pass ends the slice of a thread that has used it up exactly.
\<close>

definition budget_left :: "rt_thread \<Rightarrow> bool" where
  "budget_left r \<longleftrightarrow>
     (case ctype (constraints r) of
        APERIODIC \<Rightarrow> False
      | SPORADIC \<Rightarrow> run_time r < sporadic_size (constraints r)
      | PERIODIC \<Rightarrow> run_time r < periodic_slice (constraints r))"

definition sched_inv :: "aper_model \<Rightarrow> cpu_view \<Rightarrow> bool" where
  "sched_inv m S \<longleftrightarrow>
     pq_inv (ts S) (runnable (sched S)) \<and> pq_inv (ts S) (pending (sched S)) \<and> aper_inv m S \<and>
     (\<forall>t \<in># rt_run S. rt_ok (ts S t)) \<and> (\<forall>t \<in># rt_pend S. pend_ok (ts S t)) \<and>
     (\<forall>t \<in># aper_members m S. ctype (constraints (ts S t)) = APERIODIC)"

section \<open>What the invariant depends on\<close>

definition keys :: "rt_thread \<Rightarrow> u64 \<times> u64 \<times> nk_sched_constraints" where
  "keys r = (deadline r, run_time r, constraints r)"

definition same_queues :: "cpu_view \<Rightarrow> cpu_view \<Rightarrow> bool" where
  "same_queues S S' \<longleftrightarrow>
     runnable (sched S') = runnable (sched S) \<and> pending (sched S') = pending (sched S) \<and>
     aperiodic (sched S') = aperiodic (sched S) \<and> aperiodic_pq (sched S') = aperiodic_pq (sched S)"

lemma same_queues_members:
  assumes "same_queues S S'"
  shows "rt_run S' = rt_run S" "rt_pend S' = rt_pend S" "aper_members m S' = aper_members m S"
    "queued m S' = queued m S"
  using assms
  by (simp_all add: same_queues_def queued_def aper_members_def ring_members_def heap_members_def)

lemma rt_ok_keys: "keys r' = keys r \<Longrightarrow> rt_ok r' = rt_ok r" "keys r' = keys r \<Longrightarrow> pend_ok r' = pend_ok r"
  by (auto simp: keys_def rt_ok_def pend_ok_def split: constraint_type.splits)

lemma budget_left_keys: "keys r' = keys r \<Longrightarrow> budget_left r' = budget_left r"
  by (auto simp: keys_def budget_left_def split: constraint_type.splits)

lemma budget_left_ok: "budget_left r \<Longrightarrow> rt_ok r"
  by (auto simp: budget_left_def rt_ok_def split: constraint_type.splits)

lemma aper_inv_keys:
  assumes "same_queues S S'" "\<And>x. x \<in># aper_members m S \<Longrightarrow> keys (ts S' x) = keys (ts S x)"
  shows "aper_inv m S' = aper_inv m S"
proof (cases "m = ROUND_ROBIN \<or> m = LOTTERY")
  case True
  with assms(1) show ?thesis by (simp add: aper_inv_def ring_inv_def same_queues_def)
next
  case False
  with assms have "pq_inv (ts S') (aperiodic_pq (sched S)) = pq_inv (ts S) (aperiodic_pq (sched S))"
    by (intro pq_inv_cong) (simp add: aper_members_def heap_members_def keys_def)
  with False assms(1) show ?thesis by (simp add: aper_inv_def heap_inv_def same_queues_def)
qed

lemma sched_inv_keys:
  assumes "sched_inv m S" "same_queues S S'" "\<And>x. x \<in># queued m S \<Longrightarrow> keys (ts S' x) = keys (ts S x)"
  shows "sched_inv m S'"
proof -
  note q = same_queues_members [OF assms(2)]
  have k: "keys (ts S' x) = keys (ts S x)" if "x \<in># rt_run S \<or> x \<in># rt_pend S \<or> x \<in># aper_members m S" for x
    using that assms(3) by (auto simp: queued_def)
  have "pq_inv (ts S') (runnable (sched S)) = pq_inv (ts S) (runnable (sched S))"
    "pq_inv (ts S') (pending (sched S)) = pq_inv (ts S) (pending (sched S))"
    using k by (intro pq_inv_cong; simp add: keys_def)+
  moreover have "aper_inv m S' = aper_inv m S" using assms(2) k by (intro aper_inv_keys) auto
  moreover have "rt_ok (ts S' x) = rt_ok (ts S x)" if "x \<in># rt_run S" for x
    using that k by (intro rt_ok_keys) simp
  moreover have "pend_ok (ts S' x) = pend_ok (ts S x)" if "x \<in># rt_pend S" for x
    using that k by (intro rt_ok_keys) simp
  moreover have "constraints (ts S' x) = constraints (ts S x)" if "x \<in># aper_members m S" for x
    using that k by (simp add: keys_def)
  ultimately show ?thesis
    using assms(1,2) q by (simp add: sched_inv_def same_queues_def)
qed

text \<open>The updates of the pass that leave the queues alone.\<close>

lemma same_queues_upd [simp]:
  "same_queues S S" "same_queues S (upd_rt t f S)" "same_queues S (upd_kt t g S)"
  "same_queues S (S\<lparr>apic := a\<rparr>)" "same_queues S (S\<lparr>cr8 := w\<rparr>)"
  by (simp_all add: same_queues_def)

lemma same_queues_trans: "same_queues S S1 \<Longrightarrow> same_queues S1 S2 \<Longrightarrow> same_queues S S2"
  by (simp add: same_queues_def)

lemma same_but_qtype_fields:
  assumes "same_but_qtype th th'"
  shows "keys (th' x) = keys (th x)" "status (th' x) = status (th x)" "start_time (th' x) = start_time (th x)"
    "deadline (th' x) = deadline (th x)" "run_time (th' x) = run_time (th x)" "constraints (th' x) = constraints (th x)"
proof -
  have e: "(th' x)\<lparr>q_type := RUNNABLE_QUEUE\<rparr> = (th x)\<lparr>q_type := RUNNABLE_QUEUE\<rparr>"
    using assms by (simp add: same_but_qtype_def)
  show "status (th' x) = status (th x)" "start_time (th' x) = start_time (th x)"
    "deadline (th' x) = deadline (th x)" "run_time (th' x) = run_time (th x)" "constraints (th' x) = constraints (th x)"
    using arg_cong [OF e, of status] arg_cong [OF e, of start_time] arg_cong [OF e, of deadline]
      arg_cong [OF e, of run_time] arg_cong [OF e, of constraints] by simp_all
  then show "keys (th' x) = keys (th x)" by (simp add: keys_def)
qed

lemma same_but_qtype_trans: "same_but_qtype a b \<Longrightarrow> same_but_qtype b c \<Longrightarrow> same_but_qtype a c"
  by (simp add: same_but_qtype_def)

section \<open>The queue operations\<close>

text \<open>What a queue operation leaves alone.\<close>

definition rest :: "rt_scheduler \<Rightarrow> nk_sched_config \<times> ptr \<times> tsc_info \<times> u64" where
  "rest s = (cfg s, current s, tsc s, slack s)"

definition op_frame :: "cpu_view \<Rightarrow> cpu_view \<Rightarrow> bool" where
  "op_frame S S' \<longleftrightarrow> ks S' = ks S \<and> apic S' = apic S \<and> cr8 S' = cr8 S \<and>
     same_but_qtype (ts S) (ts S') \<and> rest (sched S') = rest (sched S)"

lemma op_frame_refl [simp]: "op_frame S S"
  by (simp add: op_frame_def)

lemma op_frame_trans: "op_frame S S1 \<Longrightarrow> op_frame S1 S2 \<Longrightarrow> op_frame S S2"
  by (auto simp: op_frame_def intro: same_but_qtype_trans)

lemma op_frame_keys: "op_frame S S' \<Longrightarrow> keys (ts S' x) = keys (ts S x)"
  by (simp add: op_frame_def same_but_qtype_fields)

lemma op_frame_fields:
  assumes "op_frame S S'"
  shows "deadline (ts S' x) = deadline (ts S x)" "run_time (ts S' x) = run_time (ts S x)"
    "constraints (ts S' x) = constraints (ts S x)" "status (ts S' x) = status (ts S x)"
proof -
  have "same_but_qtype (ts S) (ts S')" using assms by (simp add: op_frame_def)
  note F = same_but_qtype_fields [OF this]
  show "deadline (ts S' x) = deadline (ts S x)" "run_time (ts S' x) = run_time (ts S x)"
    "constraints (ts S' x) = constraints (ts S x)" "status (ts S' x) = status (ts S x)"
    by (rule F)+
qed

lemma aper_frame_op:
  assumes "aper_frame S S'"
  shows "op_frame S S'" "runnable (sched S') = runnable (sched S)" "pending (sched S') = pending (sched S)"
proof -
  have e: "sched S' = (sched S)\<lparr>aperiodic := aperiodic (sched S'), aperiodic_pq := aperiodic_pq (sched S'),
      total_prob := total_prob (sched S')\<rparr>"
    using assms by (simp add: aper_frame_def)
  have "rest (sched S') = rest (sched S)" using arg_cong [OF e, of rest] by (simp add: rest_def)
  then show "op_frame S S'" using assms by (simp add: aper_frame_def op_frame_def)
  show "runnable (sched S') = runnable (sched S)" "pending (sched S') = pending (sched S)"
    using arg_cong [OF e, of runnable] arg_cong [OF e, of pending] by simp_all
qed

text \<open>
  The invariant after an operation is rebuilt from the new queues; the threads keep their keys.
\<close>

lemma sched_inv_op:
  assumes "sched_inv m S" "op_frame S S'"
    "pq_inv (ts S') (runnable (sched S'))" "pq_inv (ts S') (pending (sched S'))" "aper_inv m S'"
    "\<And>x. x \<in># rt_run S' \<Longrightarrow> rt_ok (ts S x)" "\<And>x. x \<in># rt_pend S' \<Longrightarrow> pend_ok (ts S x)"
    "\<And>x. x \<in># aper_members m S' \<Longrightarrow> ctype (constraints (ts S x)) = APERIODIC"
  shows "sched_inv m S'"
proof -
  have k: "keys (ts S' x) = keys (ts S x)" for x using assms(2) by (rule op_frame_keys)
  have "rt_ok (ts S' x) = rt_ok (ts S x)" "pend_ok (ts S' x) = pend_ok (ts S x)"
    "constraints (ts S' x) = constraints (ts S x)" for x
    using rt_ok_keys [OF k] k [of x] by (simp_all add: keys_def)
  with assms(3-8) show ?thesis by (simp add: sched_inv_def)
qed

lemma aper_heap_stable:
  assumes "aper_inv m S" "same_but_qtype (ts S) (ts S')" "aperiodic (sched S') = aperiodic (sched S)"
    "aperiodic_pq (sched S') = aperiodic_pq (sched S)"
  shows "aper_inv m S'" "aper_members m S' = aper_members m S"
proof -
  show "aper_members m S' = aper_members m S"
    using assms(3,4) by (simp add: aper_members_def ring_members_def heap_members_def)
  show "aper_inv m S'"
    using assms by (auto simp: aper_inv_def ring_inv_def heap_inv_def same_but_qtype_inv split: if_splits)
qed

lemma get_rt_spec:
  assumes "sched_inv m S" "HAVE_RT S"
  obtains t S' where "GET_NEXT_RT S = (t, S')" "t \<noteq> NULL" "sched_inv m S'" "op_frame S S'" "ts S' = ts S"
    "rt_run S = add_mset t (rt_run S')" "rt_pend S' = rt_pend S" "aper_members m S' = aper_members m S"
    "rt_ok (ts S t)" "\<forall>x \<in># rt_run S. deadline (ts S t) \<le> deadline (ts S x)" "PEEK_RT S = t"
proof -
  let ?q = "runnable (sched S)"
  have ne: "pq_size ?q \<noteq> 0" using assms(2) by (simp add: HAVE_RT_def rt_priority_queue_empty_def)
  have inv: "pq_inv (ts S) ?q" "aper_inv m S" using assms(1) by (simp_all add: sched_inv_def)
  obtain q where q: "rt_priority_queue_dequeue (ts S) ?q = (pq_threads ?q 0, q)"
    "pq_inv (ts S) q" "pq_elems ?q = add_mset (pq_threads ?q 0) (pq_elems q)"
    "\<And>x. x \<in># pq_elems ?q \<Longrightarrow> deadline (ts S (pq_threads ?q 0)) \<le> deadline (ts S x)"
    using dequeue_nonempty [OF inv(1) ne] by blast
  let ?S = "S\<lparr>sched := (sched S)\<lparr>runnable := q\<rparr>\<rparr>"
  have f: "op_frame S ?S" by (simp add: op_frame_def rest_def)
  have a: "aper_inv m ?S" "aper_members m ?S = aper_members m S"
    using aper_heap_stable [OF inv(2), of ?S] by simp_all
  have "sched_inv m ?S"
    by (rule sched_inv_op [OF assms(1) f]) (use assms(1) q a in \<open>auto simp: sched_inv_def\<close>)
  moreover have "pq_threads ?q 0 \<noteq> NULL" using inv(1) q(3) by (auto simp: pq_inv_def)
  moreover have "GET_NEXT_RT S = (pq_threads ?q 0, ?S)" using q(1) by (simp add: GET_NEXT_RT_def)
  moreover have "rt_ok (ts S (pq_threads ?q 0))" using assms(1) q(3) by (simp add: sched_inv_def)
  ultimately show ?thesis using that f a q(3,4) by (simp add: PEEK_RT_def)
qed

lemma put_rt_spec:
  assumes "sched_inv m S" "t \<noteq> NULL" "size (rt_run S) < MAX_QUEUE" "rt_ok (ts S t)"
  obtains S' where "PUT_RT S t = (0, S')" "sched_inv m S'" "op_frame S S'"
    "rt_run S' = add_mset t (rt_run S)" "rt_pend S' = rt_pend S" "aper_members m S' = aper_members m S"
proof -
  let ?q = "runnable (sched S)"
  obtain rc th q where e: "rt_priority_queue_enqueue (ts S) ?q t = (rc, th, q)" by (metis prod_cases3)
  have inv: "pq_inv (ts S) ?q" "aper_inv m S" "pq_inv (ts S) (pending (sched S))"
    using assms(1) by (simp_all add: sched_inv_def)
  have room: "pq_size ?q < MAX_QUEUE" using assms(3) by simp
  have q: "rc = 0" "th = (ts S)(t := (ts S t)\<lparr>q_type := pq_type ?q\<rparr>)" "pq_inv th q"
    "pq_elems q = add_mset t (pq_elems ?q)"
    using pq_enqueue_spec [OF inv(1) assms(2) room e] by blast+
  have s: "same_but_qtype (ts S) th" unfolding q(2) by (rule same_but_qtype_upd) simp
  let ?S = "S\<lparr>ts := th, sched := (sched S)\<lparr>runnable := q\<rparr>\<rparr>"
  have f: "op_frame S ?S" using s by (simp add: op_frame_def rest_def)
  have a: "aper_inv m ?S" "aper_members m ?S = aper_members m S"
    using aper_heap_stable [OF inv(2), of ?S] s by simp_all
  have "sched_inv m ?S"
    by (rule sched_inv_op [OF assms(1) f])
      (use assms q a s inv in \<open>auto simp: sched_inv_def same_but_qtype_inv\<close>)
  moreover have "PUT_RT S t = (0, ?S)" using e q(1) by (simp add: PUT_RT_def)
  ultimately show ?thesis using that f a q(4) by simp
qed

lemma put_pending_spec:
  assumes "sched_inv m S" "t \<noteq> NULL" "size (rt_pend S) < MAX_QUEUE" "pend_ok (ts S t)"
  obtains S' where "PUT_RT_PENDING S t = (0, S')" "sched_inv m S'" "op_frame S S'"
    "rt_pend S' = add_mset t (rt_pend S)" "rt_run S' = rt_run S" "aper_members m S' = aper_members m S"
proof -
  let ?q = "pending (sched S)"
  obtain rc th q where e: "rt_priority_queue_enqueue (ts S) ?q t = (rc, th, q)" by (metis prod_cases3)
  have inv: "pq_inv (ts S) ?q" "aper_inv m S" "pq_inv (ts S) (runnable (sched S))"
    using assms(1) by (simp_all add: sched_inv_def)
  have room: "pq_size ?q < MAX_QUEUE" using assms(3) by simp
  have q: "rc = 0" "th = (ts S)(t := (ts S t)\<lparr>q_type := pq_type ?q\<rparr>)" "pq_inv th q"
    "pq_elems q = add_mset t (pq_elems ?q)"
    using pq_enqueue_spec [OF inv(1) assms(2) room e] by blast+
  have s: "same_but_qtype (ts S) th" unfolding q(2) by (rule same_but_qtype_upd) simp
  let ?S = "S\<lparr>ts := th, sched := (sched S)\<lparr>pending := q\<rparr>\<rparr>"
  have f: "op_frame S ?S" using s by (simp add: op_frame_def rest_def)
  have a: "aper_inv m ?S" "aper_members m ?S = aper_members m S"
    using aper_heap_stable [OF inv(2), of ?S] s by simp_all
  have "sched_inv m ?S"
    by (rule sched_inv_op [OF assms(1) f])
      (use assms q a s inv in \<open>auto simp: sched_inv_def same_but_qtype_inv\<close>)
  moreover have "PUT_RT_PENDING S t = (0, ?S)" using e q(1) by (simp add: PUT_RT_PENDING_def)
  ultimately show ?thesis using that f a q(4) by simp
qed

lemma put_aper_spec:
  assumes "sched_inv m S" "t \<noteq> NULL" "size (aper_members m S) < MAX_QUEUE"
    "ctype (constraints (ts S t)) = APERIODIC"
  obtains S' where "PUT_APERIODIC m S t = (0, S')" "sched_inv m S'" "op_frame S S'"
    "aper_members m S' = add_mset t (aper_members m S)" "rt_run S' = rt_run S" "rt_pend S' = rt_pend S"
proof -
  obtain rc S' where e: "PUT_APERIODIC m S t = (rc, S')" by fastforce
  have inv: "aper_inv m S" "pq_inv (ts S) (runnable (sched S))" "pq_inv (ts S) (pending (sched S))"
    using assms(1) by (simp_all add: sched_inv_def)
  have p: "rc = 0" "aper_inv m S'" "aper_members m S' = add_mset t (aper_members m S)" "aper_frame S S'"
    using aper.put_room [OF inv(1) assms(2,3) e] by simp_all
  note f = aper_frame_op [OF p(4)]
  have s: "same_but_qtype (ts S) (ts S')" using f(1) by (simp add: op_frame_def)
  have "sched_inv m S'"
    by (rule sched_inv_op [OF assms(1) f(1)])
      (use assms p f(2,3) s inv in \<open>auto simp: sched_inv_def same_but_qtype_inv\<close>)
  with e p f that show ?thesis by simp
qed

lemma next_aperiodic_spec:
  assumes "sched_inv m S" "aper_members m S \<noteq> {#}" "m \<noteq> LOTTERY"
  obtains n S' where "next_aperiodic m rnd S = Inr (n, S')" "n \<noteq> NULL" "sched_inv m S'" "op_frame S S'"
    "aper_members m S = add_mset n (aper_members m S')" "rt_run S' = rt_run S" "rt_pend S' = rt_pend S"
    "ctype (constraints (ts S n)) = APERIODIC"
proof -
  have inv: "aper_inv m S" "pq_inv (ts S) (runnable (sched S))" "pq_inv (ts S) (pending (sched S))"
    using assms(1) by (simp_all add: sched_inv_def)
  have "aper_ready m S" using assms(3) by (simp add: aper_ready_def)
  then obtain n S' where g: "GET_NEXT_APERIODIC m rnd S = Inr (n, S')"
    using aper.get_returns [OF inv(1) assms(2), of rnd] by auto
  have p: "n \<noteq> NULL" "aper_inv m S'" "aper_members m S = add_mset n (aper_members m S')" "aper_frame S S'"
    using aper.get_member [OF inv(1) assms(2) g] by simp_all
  note f = aper_frame_op [OF p(4)]
  have s: "same_but_qtype (ts S) (ts S')" using f(1) by (simp add: op_frame_def)
  have "sched_inv m S'"
    by (rule sched_inv_op [OF assms(1) f(1)])
      (use assms p f(2,3) s inv in \<open>auto simp: sched_inv_def same_but_qtype_inv\<close>)
  moreover have "ctype (constraints (ts S n)) = APERIODIC" using assms(1) p(3) by (simp add: sched_inv_def)
  moreover have "next_aperiodic m rnd S = Inr (n, S')" using g p(1) by (simp add: next_aperiodic_def)
  ultimately show ?thesis using that p f by simp
qed

section \<open>Arrivals\<close>

text \<open>Every thread is on at most one queue.\<close>

definition uniq :: "ptr multiset \<Rightarrow> bool" where
  "uniq M \<longleftrightarrow> (\<forall>x. count M x \<le> 1)"

lemma uniq_add: "uniq (add_mset t M) \<longleftrightarrow> t \<notin># M \<and> uniq M"
proof
  assume u: "uniq (add_mset t M)"
  have "count M x \<le> 1" for x
  proof -
    have "count M x \<le> count (add_mset t M) x" by simp
    also have "\<dots> \<le> 1" using u unfolding uniq_def by blast
    finally show ?thesis .
  qed
  moreover have "Suc (count M t) \<le> 1" using u unfolding uniq_def by (metis count_add_mset)
  ultimately show "t \<notin># M \<and> uniq M" by (simp add: uniq_def not_in_iff)
next
  assume "t \<notin># M \<and> uniq M"
  then show "uniq (add_mset t M)" by (simp add: uniq_def not_in_iff)
qed

lemma get_pending_spec:
  assumes "sched_inv m S" "HAVE_RT_PENDING S"
  obtains t S' where "GET_NEXT_RT_PENDING S = (t, S')" "t \<noteq> NULL" "sched_inv m S'" "op_frame S S'" "ts S' = ts S"
    "rt_pend S = add_mset t (rt_pend S')" "rt_run S' = rt_run S" "aper_members m S' = aper_members m S"
    "pend_ok (ts S t)" "\<forall>x \<in># rt_pend S. deadline (ts S t) \<le> deadline (ts S x)" "PEEK_RT_PENDING S = t"
proof -
  let ?q = "pending (sched S)"
  have ne: "pq_size ?q \<noteq> 0" using assms(2) by (simp add: HAVE_RT_PENDING_def rt_priority_queue_empty_def)
  have inv: "pq_inv (ts S) ?q" "aper_inv m S" using assms(1) by (simp_all add: sched_inv_def)
  obtain q where q: "rt_priority_queue_dequeue (ts S) ?q = (pq_threads ?q 0, q)"
    "pq_inv (ts S) q" "pq_elems ?q = add_mset (pq_threads ?q 0) (pq_elems q)"
    "\<And>x. x \<in># pq_elems ?q \<Longrightarrow> deadline (ts S (pq_threads ?q 0)) \<le> deadline (ts S x)"
    using dequeue_nonempty [OF inv(1) ne] by blast
  let ?S = "S\<lparr>sched := (sched S)\<lparr>pending := q\<rparr>\<rparr>"
  have f: "op_frame S ?S" by (simp add: op_frame_def rest_def)
  have a: "aper_inv m ?S" "aper_members m ?S = aper_members m S"
    using aper_heap_stable [OF inv(2), of ?S] by simp_all
  have "sched_inv m ?S"
    by (rule sched_inv_op [OF assms(1) f]) (use assms(1) q a in \<open>auto simp: sched_inv_def\<close>)
  moreover have "pq_threads ?q 0 \<noteq> NULL" using inv(1) q(3) by (auto simp: pq_inv_def)
  moreover have "GET_NEXT_RT_PENDING S = (pq_threads ?q 0, ?S)" using q(1) by (simp add: GET_NEXT_RT_PENDING_def)
  moreover have "pend_ok (ts S (pq_threads ?q 0))" using assms(1) q(3) by (simp add: sched_inv_def)
  ultimately show ?thesis using that f a q(3,4) by (simp add: PEEK_RT_PENDING_def)
qed

lemma arrive_ok: "pend_ok r \<Longrightarrow> rt_ok (arrive r)"
  by (auto simp: pend_ok_def rt_ok_def arrive_def Let_def constraint_words split: constraint_type.splits)

lemma arrive_fields [simp]:
  "constraints (arrive r) = constraints r" "status (arrive r) = status r" "start_time (arrive r) = start_time r"
  by (simp_all add: arrive_def Let_def)

text \<open>
  What the arrivals do to the threads: a thread that was not pending, or that still is, keeps its
  keys; one that arrived is runnable, a periodic one with a new deadline and a fresh budget.
\<close>

definition pumped :: "cpu_view \<Rightarrow> cpu_view \<Rightarrow> bool" where
  "pumped S S' \<longleftrightarrow>
     ks S' = ks S \<and> apic S' = apic S \<and> cr8 S' = cr8 S \<and> rest (sched S') = rest (sched S) \<and>
     (\<forall>x. constraints (ts S' x) = constraints (ts S x) \<and> status (ts S' x) = status (ts S x) \<and>
       (x \<notin># rt_pend S \<or> x \<in># rt_pend S' \<longrightarrow> keys (ts S' x) = keys (ts S x)) \<and>
       (x \<in># rt_pend S \<and> x \<notin># rt_pend S' \<longrightarrow> x \<in># rt_run S' \<and> keys (ts S' x) = keys (arrive (ts S x))))"

lemma keys_arrive: "keys r' = keys r \<Longrightarrow> keys (arrive r') = keys (arrive r)"
  by (auto simp: keys_def arrive_def Let_def)

lemma pump_step:
  assumes inv: "sched_inv m S" and u: "uniq (queued m S)" and sz: "size (rt_run S + rt_pend S) \<le> MAX_QUEUE"
    and h: "HAVE_RT_PENDING S"
  obtains a S1 S2 where "GET_NEXT_RT_PENDING S = (a, S1)" "a \<noteq> NULL" "PUT_RT (upd_rt a arrive S1) a = (0, S2)"
    "sched_inv m S2" "rt_pend S = add_mset a (rt_pend S2)" "rt_run S2 = add_mset a (rt_run S)"
    "aper_members m S2 = aper_members m S" "ks S2 = ks S" "apic S2 = apic S" "cr8 S2 = cr8 S"
    "rest (sched S2) = rest (sched S)" "same_but_qtype ((ts S)(a := arrive (ts S a))) (ts S2)"
proof -
  obtain a S1 where g: "GET_NEXT_RT_PENDING S = (a, S1)" "a \<noteq> NULL" "sched_inv m S1" "op_frame S S1" "ts S1 = ts S"
    "rt_pend S = add_mset a (rt_pend S1)" "rt_run S1 = rt_run S" "aper_members m S1 = aper_members m S"
    "pend_ok (ts S a)"
    using get_pending_spec [OF inv h] .
  let ?S = "upd_rt a arrive S1"
  have "queued m S = add_mset a (queued m S1)" using g by (simp add: queued_def)
  then have a: "a \<notin># queued m S1" using u by (simp add: uniq_add)
  have i: "sched_inv m ?S"
    by (rule sched_inv_keys [OF g(3)]) (use a in auto)
  have z: "size (rt_run ?S) < MAX_QUEUE" using sz g(6,7) by simp
  have k: "rt_ok (ts ?S a)" using g(5,9) by (simp add: arrive_ok)
  obtain S2 where p: "PUT_RT ?S a = (0, S2)" "sched_inv m S2" "op_frame ?S S2"
    "rt_run S2 = add_mset a (rt_run ?S)" "rt_pend S2 = rt_pend ?S" "aper_members m S2 = aper_members m ?S"
    using put_rt_spec [OF i g(2) z k] .
  have "aper_members m ?S = aper_members m S1" by (rule same_queues_members) simp
  with p(3-6) g(4-8) show ?thesis by (intro that [OF g(1,2) p(1,2)]) (simp_all add: op_frame_def)
qed

lemma pumped_refl: "pumped S S"
  by (simp add: pumped_def)

lemma pumped_step:
  assumes p: "rt_pend S = add_mset a (rt_pend S2)" "a \<notin># rt_pend S2" "a \<in># rt_run S2"
    and f: "ks S2 = ks S" "apic S2 = apic S" "cr8 S2 = cr8 S" "rest (sched S2) = rest (sched S)"
    and t: "same_but_qtype ((ts S)(a := arrive (ts S a))) (ts S2)"
    and r: "pumped S2 S'" "rt_pend S' \<subseteq># rt_pend S2" "rt_run S2 \<subseteq># rt_run S'"
  shows "pumped S S'"
proof -
  note F = same_but_qtype_fields [OF t]
  have other: "keys (ts S2 x) = keys (ts S x)" "constraints (ts S2 x) = constraints (ts S x)"
    "status (ts S2 x) = status (ts S x)" if "x \<noteq> a" for x
    using that F [of x] by simp_all
  have own: "constraints (ts S2 a) = constraints (ts S a)" "status (ts S2 a) = status (ts S a)"
    "keys (ts S2 a) = keys (arrive (ts S a))"
    using F [of a] by (simp_all)
  have a: "a \<notin># rt_pend S'" "a \<in># rt_run S'" using r(2,3) p(2,3) by (auto dest: mset_subset_eqD)
  have ka: "keys (ts S' a) = keys (ts S2 a)" using r(1) p(2) by (simp add: pumped_def)
  have "constraints (ts S' x) = constraints (ts S x) \<and> status (ts S' x) = status (ts S x) \<and>
       (x \<notin># rt_pend S \<or> x \<in># rt_pend S' \<longrightarrow> keys (ts S' x) = keys (ts S x)) \<and>
       (x \<in># rt_pend S \<and> x \<notin># rt_pend S' \<longrightarrow> x \<in># rt_run S' \<and> keys (ts S' x) = keys (arrive (ts S x)))" for x
  proof (cases "x = a")
    case True
    then show ?thesis using r(1) own a ka p(1) by (simp add: pumped_def)
  next
    case False
    with p(1) have "x \<in># rt_pend S \<longleftrightarrow> x \<in># rt_pend S2" by simp
    with r(1) other [OF False] keys_arrive [OF other(1) [OF False]] show ?thesis by (simp add: pumped_def)
  qed
  then show ?thesis using r(1) f by (simp add: pumped_def)
qed

lemma pump_spec:
  assumes "sched_inv m S" "uniq (queued m S)" "size (rt_run S + rt_pend S) \<le> MAX_QUEUE"
  shows "\<exists>S'. pump_pending now S = Inr S' \<and> sched_inv m S' \<and>
    rt_run S' + rt_pend S' = rt_run S + rt_pend S \<and> aper_members m S' = aper_members m S \<and>
    rt_run S \<subseteq># rt_run S' \<and> rt_pend S' \<subseteq># rt_pend S \<and>
    (\<forall>t \<in># rt_pend S'. now < deadline (ts S' t)) \<and> pumped S S'"
  using assms
proof (induction "size (rt_pend S)" arbitrary: S rule: less_induct)
  case (less S)
  show ?case
  proof (cases "HAVE_RT_PENDING S \<and> deadline (ts S (PEEK_RT_PENDING S)) \<le> now")
    case True
    obtain a S1 S2 where p: "GET_NEXT_RT_PENDING S = (a, S1)" "a \<noteq> NULL" "PUT_RT (upd_rt a arrive S1) a = (0, S2)"
      "sched_inv m S2" "rt_pend S = add_mset a (rt_pend S2)" "rt_run S2 = add_mset a (rt_run S)"
      "aper_members m S2 = aper_members m S" "ks S2 = ks S" "apic S2 = apic S" "cr8 S2 = cr8 S"
      "rest (sched S2) = rest (sched S)" "same_but_qtype ((ts S)(a := arrive (ts S a))) (ts S2)"
      using pump_step [OF less.prems(1,2,3)] True by blast
    have q: "queued m S2 = queued m S" using p(5-7) by (simp add: queued_def)
    have "a \<notin># rt_pend S2" using less.prems(2) p(5) by (auto simp: queued_def uniq_add)
    have "size (rt_pend S2) < size (rt_pend S)" unfolding p(5) by simp
    moreover have "size (rt_run S2 + rt_pend S2) \<le> MAX_QUEUE" using less.prems(3) unfolding p(5,6) by simp
    ultimately obtain S' where r: "pump_pending now S2 = Inr S'" "sched_inv m S'"
      "rt_run S' + rt_pend S' = rt_run S2 + rt_pend S2" "aper_members m S' = aper_members m S2"
      "rt_run S2 \<subseteq># rt_run S'" "rt_pend S' \<subseteq># rt_pend S2"
      "\<forall>t \<in># rt_pend S'. now < deadline (ts S' t)" "pumped S2 S'"
      using less.hyps [of S2] less.prems(2) p(4) q by metis
    have "pump_pending now S = Inr S'"
      using True p(1-3) r(1) by (subst pump_pending.simps) simp
    moreover have "pumped S S'"
      using pumped_step [OF p(5) \<open>a \<notin># rt_pend S2\<close> _ p(8-12) r(8,6,5)] p(6) by simp
    moreover have "rt_run S \<subseteq># rt_run S'" "rt_pend S' \<subseteq># rt_pend S"
      using r(5,6) p(5,6) by (metis mset_subset_eq_add_mset_cancel subset_mset.order_trans mset_subset_eq_add_right
          add_mset_add_single mset_subset_eq_add_left)+
    ultimately show ?thesis using r p(5-7) by (intro exI [of _ S']) simp
  next
    case False
    then have e: "pump_pending now S = Inr S" by (subst pump_pending.simps) auto
    have "now < deadline (ts S t)" if t: "t \<in># rt_pend S" for t
    proof -
      have "pq_size (pending (sched S)) \<noteq> 0" using t by (metis empty_iff pq_elems_0 set_mset_empty)
      then have h: "HAVE_RT_PENDING S" by (simp add: HAVE_RT_PENDING_def rt_priority_queue_empty_def)
      then obtain u where "\<forall>x \<in># rt_pend S. deadline (ts S u) \<le> deadline (ts S x)" "PEEK_RT_PENDING S = u"
        using get_pending_spec [OF less.prems(1) h] by metis
      then have "deadline (ts S (PEEK_RT_PENDING S)) \<le> deadline (ts S t)" using t by blast
      moreover have "now < deadline (ts S (PEEK_RT_PENDING S))" using False h by simp
      ultimately show ?thesis by simp
    qed
    with e less.prems(1) show ?thesis by (simp add: pumped_refl)
  qed
qed

section \<open>Putting the current thread back\<close>

definition ambient :: "cpu_view \<Rightarrow> cpu_view \<Rightarrow> bool" where
  "ambient S S' \<longleftrightarrow> apic S' = apic S \<and> cr8 S' = cr8 S \<and> rest (sched S') = rest (sched S)"

lemma ambient_trans: "ambient S S1 \<Longrightarrow> ambient S1 S2 \<Longrightarrow> ambient S S2"
  by (simp add: ambient_def)

lemma ambient_simps [simp]: "ambient S S" "ambient S (upd_rt t f S)" "ambient S (suspend t S)"
  by (simp_all add: ambient_def suspend_def)

lemma op_frame_ambient: "op_frame S S' \<Longrightarrow> ambient S S'"
  by (simp add: op_frame_def ambient_def)

lemma suspend_simps [simp]:
  "ts (suspend t S) = ts S" "sched (suspend t S) = sched S" "tstatus (ks (suspend t S) t) = NK_THR_SUSPENDED"
  by (simp_all add: suspend_def)

lemma same_queues_suspend [simp]: "same_queues S (suspend t S)"
  by (simp add: same_queues_def)

lemma suspend_inv: "sched_inv m S \<Longrightarrow> sched_inv m (suspend t S)"
  by (erule sched_inv_keys) simp_all

lemma upd_unqueued:
  assumes "sched_inv m S" "c \<notin># queued m S"
  shows "sched_inv m (upd_rt c f S)"
  by (rule sched_inv_keys [OF assms(1)]) (use assms(2) in auto)

lemma members_upd [simp]:
  "aper_members m (upd_rt c f S) = aper_members m S" "aper_members m (suspend c S) = aper_members m S"
  "queued m (upd_rt c f S) = queued m S" "queued m (suspend c S) = queued m S"
  by (rule same_queues_members, simp)+

text \<open>Success of \<open>requeue\<close> is the same for the three queues; only the condition on the thread differs.\<close>

definition requeued :: "aper_model \<Rightarrow> ptr \<Rightarrow> cpu_view \<Rightarrow> cpu_view \<Rightarrow> bool" where
  "requeued m c S S' \<longleftrightarrow> sched_inv m S' \<and> queued m S' = add_mset c (queued m S) \<and>
     same_but_qtype (ts S) (ts S') \<and> ambient S S' \<and> tstatus (ks S' c) = NK_THR_SUSPENDED"

lemma requeuedI:
  assumes "put (suspend c S) c = (0, S')" "sched_inv m S'" "op_frame (suspend c S) S'"
    "queued m S' = add_mset c (queued m S)"
  shows "requeue put c S = Inr S' \<and> requeued m c S S'"
proof -
  have "tstatus (ks S' c) = NK_THR_SUSPENDED" "same_but_qtype (ts S) (ts S')" "ambient S S'"
    using assms(3) by (auto simp: op_frame_def ambient_def suspend_def)
  with assms show ?thesis by (simp add: requeue_def requeued_def)
qed

lemma requeue_aper:
  assumes "sched_inv m S" "c \<noteq> NULL" "size (queued m S) < MAX_QUEUE" "ctype (constraints (ts S c)) = APERIODIC"
  obtains S' where "requeue (PUT_APERIODIC m) c S = Inr S'" "requeued m c S S'"
    "aper_members m S' = add_mset c (aper_members m S)" "rt_run S' = rt_run S" "rt_pend S' = rt_pend S"
proof -
  have z: "size (aper_members m (suspend c S)) < MAX_QUEUE" using assms(3) by (simp add: queued_def)
  have k: "ctype (constraints (ts (suspend c S) c)) = APERIODIC" using assms(4) by simp
  obtain S' where p: "PUT_APERIODIC m (suspend c S) c = (0, S')" "sched_inv m S'" "op_frame (suspend c S) S'"
    "aper_members m S' = add_mset c (aper_members m (suspend c S))" "rt_run S' = rt_run (suspend c S)"
    "rt_pend S' = rt_pend (suspend c S)"
    using put_aper_spec [OF suspend_inv [OF assms(1)] assms(2) z k] .
  have "queued m S' = add_mset c (queued m S)" using p(4-6) by (simp add: queued_def)
  with requeuedI [of "PUT_APERIODIC m", OF p(1-3)] p(4-6) that show ?thesis by simp
qed

lemma requeue_rt:
  assumes "sched_inv m S" "c \<noteq> NULL" "size (queued m S) < MAX_QUEUE" "rt_ok (ts S c)"
  obtains S' where "requeue PUT_RT c S = Inr S'" "requeued m c S S'"
    "rt_run S' = add_mset c (rt_run S)" "aper_members m S' = aper_members m S" "rt_pend S' = rt_pend S"
proof -
  have z: "size (rt_run (suspend c S)) < MAX_QUEUE" using assms(3) by (simp add: queued_def)
  have k: "rt_ok (ts (suspend c S) c)" using assms(4) by simp
  obtain S' where p: "PUT_RT (suspend c S) c = (0, S')" "sched_inv m S'" "op_frame (suspend c S) S'"
    "rt_run S' = add_mset c (rt_run (suspend c S))" "rt_pend S' = rt_pend (suspend c S)"
    "aper_members m S' = aper_members m (suspend c S)"
    using put_rt_spec [OF suspend_inv [OF assms(1)] assms(2) z k] .
  have "queued m S' = add_mset c (queued m S)" using p(4-6) by (simp add: queued_def)
  with requeuedI [of PUT_RT, OF p(1-3)] p(4-6) that show ?thesis by simp
qed

lemma requeue_pending:
  assumes "sched_inv m S" "c \<noteq> NULL" "size (queued m S) < MAX_QUEUE" "pend_ok (ts S c)"
  obtains S' where "requeue PUT_RT_PENDING c S = Inr S'" "requeued m c S S'"
    "rt_pend S' = add_mset c (rt_pend S)" "aper_members m S' = aper_members m S" "rt_run S' = rt_run S"
proof -
  have z: "size (rt_pend (suspend c S)) < MAX_QUEUE" using assms(3) by (simp add: queued_def)
  have k: "pend_ok (ts (suspend c S) c)" using assms(4) by simp
  obtain S' where p: "PUT_RT_PENDING (suspend c S) c = (0, S')" "sched_inv m S'" "op_frame (suspend c S) S'"
    "rt_pend S' = add_mset c (rt_pend (suspend c S))" "rt_run S' = rt_run (suspend c S)"
    "aper_members m S' = aper_members m (suspend c S)"
    using put_pending_spec [OF suspend_inv [OF assms(1)] assms(2) z k] .
  have "queued m S' = add_mset c (queued m S)" using p(4-6) by (simp add: queued_def)
  with requeuedI [of PUT_RT_PENDING, OF p(1-3)] p(4-6) that show ?thesis by simp
qed

section \<open>The choice\<close>

lemma HAVE_RT_iff: "HAVE_RT S \<longleftrightarrow> rt_run S \<noteq> {#}"
  by (metis HAVE_RT_def pq_elems_0 rt_priority_queue_empty_def size_empty size_pq_elems)

text \<open>
  Earliest deadline first: no runnable real-time thread has an earlier deadline than the chosen
  thread, and none is passed over for an aperiodic one. A chosen real-time thread has budget.
\<close>

definition edf_choice :: "cpu_view \<Rightarrow> ptr \<Rightarrow> bool" where
  "edf_choice S n \<longleftrightarrow>
     (\<forall>t \<in># rt_run S. ctype (constraints (ts S n)) \<noteq> APERIODIC \<and> deadline (ts S n) \<le> deadline (ts S t)) \<and>
     (ctype (constraints (ts S n)) \<noteq> APERIODIC \<longrightarrow> rt_ok (ts S n))"

definition picked :: "aper_model \<Rightarrow> cpu_view \<Rightarrow> ptr \<Rightarrow> cpu_view \<Rightarrow> bool" where
  "picked m S n S' \<longleftrightarrow> n \<noteq> NULL \<and> sched_inv m S' \<and> queued m S = add_mset n (queued m S') \<and>
     rt_pend S' = rt_pend S \<and> op_frame S S' \<and> edf_choice S' n \<and>
     rt_run S' \<subseteq># rt_run S \<and> rt_run S \<subseteq># add_mset n (rt_run S') \<and>
     (ctype (constraints (ts S n)) \<noteq> APERIODIC \<longrightarrow> n \<in># rt_run S)"

lemma pick_rt:
  assumes "sched_inv m S" "HAVE_RT S"
  obtains n S' where "GET_NEXT_RT S = (n, S')" "picked m S n S'" "n \<noteq> NULL" "PEEK_RT S = n" "n \<in># rt_run S"
    "\<forall>x \<in># rt_run S. deadline (ts S n) \<le> deadline (ts S x)" "ts S' = ts S" "rt_run S = add_mset n (rt_run S')"
proof -
  obtain t S' where g: "GET_NEXT_RT S = (t, S')" "t \<noteq> NULL" "sched_inv m S'" "op_frame S S'" "ts S' = ts S"
    "rt_run S = add_mset t (rt_run S')" "rt_pend S' = rt_pend S" "aper_members m S' = aper_members m S"
    "rt_ok (ts S t)" "\<forall>x \<in># rt_run S. deadline (ts S t) \<le> deadline (ts S x)" "PEEK_RT S = t"
    using get_rt_spec [OF assms] .
  have "ctype (constraints (ts S t)) \<noteq> APERIODIC" using g(9) by (auto simp: rt_ok_def)
  then have "edf_choice S' t" using g(5,6,9,10) by (simp add: edf_choice_def)
  moreover have "queued m S = add_mset t (queued m S')" using g(6-8) by (simp add: queued_def)
  ultimately have "picked m S t S'" using g(2-4,6,7) by (simp add: picked_def)
  with g that show ?thesis by simp
qed

lemma pick_aperiodic:
  assumes "sched_inv m S" "\<not> HAVE_RT S" "aper_members m S \<noteq> {#}" "m \<noteq> LOTTERY"
  shows "\<exists>n S'. next_aperiodic m rnd S = Inr (n, S') \<and> picked m S n S'"
proof -
  obtain n S' where g: "next_aperiodic m rnd S = Inr (n, S')" "n \<noteq> NULL" "sched_inv m S'" "op_frame S S'"
    "aper_members m S = add_mset n (aper_members m S')" "rt_run S' = rt_run S" "rt_pend S' = rt_pend S"
    "ctype (constraints (ts S n)) = APERIODIC"
    using next_aperiodic_spec [OF assms(1,3,4)] .
  have "ctype (constraints (ts S' n)) = APERIODIC"
    using g(8) op_frame_fields [OF g(4)] by simp
  then have "edf_choice S' n" using assms(2) g(6) by (simp add: edf_choice_def HAVE_RT_iff)
  moreover have "queued m S = add_mset n (queued m S')" using g(5-7) by (simp add: queued_def)
  ultimately show ?thesis using g by (simp add: picked_def)
qed

lemma pick_rt_or_aperiodic:
  assumes "sched_inv m S" "aper_members m S \<noteq> {#}" "m \<noteq> LOTTERY"
  shows "\<exists>n S'. next_rt_or_aperiodic m rnd S = Inr (n, S') \<and> picked m S n S'"
proof (cases "HAVE_RT S")
  case True
  obtain n S' where "GET_NEXT_RT S = (n, S')" "picked m S n S'" "n \<noteq> NULL"
    using pick_rt [OF assms(1) True] by blast
  with True show ?thesis by (simp add: next_rt_or_aperiodic_def)
next
  case False
  with pick_aperiodic [OF assms(1) False assms(2,3), of rnd] show ?thesis by (simp add: next_rt_or_aperiodic_def)
qed

text \<open>The state in which the choice is made: arrivals are done and the current thread is on no queue.\<close>

definition ready :: "aper_model \<Rightarrow> u64 \<Rightarrow> ptr \<Rightarrow> cpu_view \<Rightarrow> bool" where
  "ready m now c S \<longleftrightarrow> sched_inv m S \<and> c \<noteq> NULL \<and> c \<notin># queued m S \<and> size (queued m S) < MAX_QUEUE \<and>
     (\<forall>t \<in># rt_pend S. now < deadline (ts S t)) \<and> m \<noteq> LOTTERY"

text \<open>
  After the choice all pending threads are to arrive later, but for a current thread that used up
  its slice exactly at its deadline, which is its next arrival.
\<close>

definition pend_after :: "u64 \<Rightarrow> ptr \<Rightarrow> cpu_view \<Rightarrow> bool" where
  "pend_after now c S \<longleftrightarrow>
     (\<forall>t \<in># rt_pend S. now < deadline (ts S t) \<or> t = c \<and> deadline (ts S t) = now)"

text \<open>
  Where the threads come from: the chosen one and the runnable ones were runnable and are
  unchanged, or are the current thread with budget left or at the start of its next period; the
  pending ones were pending and are unchanged, or are the current thread with its slice used up.
\<close>

definition goes_on :: "rt_thread \<Rightarrow> rt_thread \<Rightarrow> bool" where
  "goes_on r r' \<longleftrightarrow> budget_left r' \<or>
     run_time r' = 0 \<and> constraints r' = constraints r \<and> ctype (constraints r) = PERIODIC"

definition origins :: "ptr \<Rightarrow> cpu_view \<Rightarrow> ptr \<Rightarrow> cpu_view \<Rightarrow> bool" where
  "origins c S n S' \<longleftrightarrow>
     (\<forall>x \<in># add_mset n (rt_run S'). ctype (constraints (ts S' x)) \<noteq> APERIODIC \<longrightarrow>
        (if x = c then goes_on (ts S c) (ts S' c) else x \<in># rt_run S \<and> keys (ts S' x) = keys (ts S x))) \<and>
     (\<forall>x \<in># rt_pend S'.
        (if x = c then ctype (constraints (ts S c)) = PERIODIC \<and> constraints (ts S' c) = constraints (ts S c)
         else x \<in># rt_pend S \<and> keys (ts S' x) = keys (ts S x)))"

text \<open>What the choice achieves; the current thread joins the queues unless it is special.\<close>

definition chosen :: "aper_model \<Rightarrow> u64 \<Rightarrow> bool \<Rightarrow> ptr \<Rightarrow> cpu_view \<Rightarrow> ptr \<Rightarrow> cpu_view \<Rightarrow> bool" where
  "chosen m now special c S n S' \<longleftrightarrow> n \<noteq> NULL \<and> sched_inv m S' \<and>
     add_mset n (queued m S') = (if special then queued m S else add_mset c (queued m S)) \<and>
     edf_choice S' n \<and> pend_after now c S' \<and> ambient S S' \<and>
     rt_run S \<subseteq># add_mset n (rt_run S') \<and> origins c S n S'"

text \<open>Changes to the current thread alone.\<close>

definition touch :: "ptr \<Rightarrow> cpu_view \<Rightarrow> cpu_view \<Rightarrow> bool" where
  "touch c S S' \<longleftrightarrow> same_queues S S' \<and> ambient S S' \<and> (\<forall>x. x \<noteq> c \<longrightarrow> keys (ts S' x) = keys (ts S x))"

lemma touch_simps [simp]: "touch c S S" "touch c S (upd_rt c f S)" "touch c S (upd_rt c f (upd_rt c g S))"
  by (simp_all add: touch_def ambient_def same_queues_def)

lemma touch_queues:
  assumes "touch c S S'"
  shows "rt_run S' = rt_run S" "rt_pend S' = rt_pend S" "aper_members m S' = aper_members m S" "queued m S' = queued m S"
  using assms same_queues_members [of S S'] by (simp_all add: touch_def)

lemma ready_upd:
  assumes "ready m now c S"
  shows "ready m now c (upd_rt c f S)"
proof -
  have "c \<notin># rt_pend S" using assms by (auto simp: ready_def queued_def)
  then show ?thesis using assms by (auto simp: ready_def upd_unqueued)
qed

lemma pend_after_frame:
  assumes "pend_after now c S" "rt_pend S' = rt_pend S" "same_but_qtype (ts S) (ts S')"
  shows "pend_after now c S'"
  using assms(1,2) same_but_qtype_fields(4) [OF assms(3)] by (simp add: pend_after_def)

lemma ready_pend: "ready m now c S \<Longrightarrow> pend_after now c S"
  by (auto simp: ready_def pend_after_def)

lemma picked_frame:
  assumes "picked m S n S'"
  shows "op_frame S S'" "same_but_qtype (ts S) (ts S')" "ambient S S'"
  using assms op_frame_ambient by (auto simp: picked_def op_frame_def)

lemma picked_member:
  assumes "picked m S n S'" "x \<in># add_mset n (rt_run S')" "ctype (constraints (ts S' x)) \<noteq> APERIODIC"
  shows "x \<in># rt_run S" "keys (ts S' x) = keys (ts S x)"
proof -
  have "constraints (ts S' x) = constraints (ts S x)" by (rule op_frame_fields [OF picked_frame(1) [OF assms(1)]])
  then show "x \<in># rt_run S" using assms by (auto simp: picked_def dest: mset_subset_eqD)
  show "keys (ts S' x) = keys (ts S x)" by (rule op_frame_keys [OF picked_frame(1) [OF assms(1)]])
qed

lemma chosen_special:
  assumes r: "ready m now c S" and p: "picked m S n S'" and t: "touch c S0 S"
  shows "chosen m now True c S0 n S'"
proof -
  have "pend_after now c S'"
    using pend_after_frame [OF ready_pend [OF r] _ picked_frame(2) [OF p]] p by (simp add: picked_def)
  moreover have "ambient S0 S'"
    using ambient_trans [of S0 S S'] picked_frame(3) [OF p] t by (simp add: touch_def)
  moreover have "origins c S0 n S'"
  proof -
    have "x \<noteq> c \<and> x \<in># rt_run S0 \<and> keys (ts S' x) = keys (ts S0 x)"
      if "x \<in># add_mset n (rt_run S')" "ctype (constraints (ts S' x)) \<noteq> APERIODIC" for x
    proof -
      note x = picked_member [OF p that]
      then have "x \<noteq> c" using r by (auto simp: ready_def queued_def)
      then show ?thesis using x t touch_queues(1) [OF t] by (simp add: touch_def)
    qed
    moreover have "x \<noteq> c \<and> x \<in># rt_pend S0 \<and> keys (ts S' x) = keys (ts S0 x)" if "x \<in># rt_pend S'" for x
    proof -
      have "x \<in># rt_pend S" using that p by (simp add: picked_def)
      moreover from this have "x \<noteq> c" using r by (auto simp: ready_def queued_def)
      ultimately show ?thesis
        using t touch_queues(2) [OF t] op_frame_keys [OF picked_frame(1) [OF p]] by (simp add: touch_def)
    qed
    ultimately show ?thesis unfolding origins_def by simp
  qed
  ultimately show ?thesis using p touch_queues [OF t] by (simp add: chosen_def picked_def)
qed

lemma chosen_requeued:
  assumes q: "requeued m c S S1" and d: "pend_after now c S1" and p: "picked m S1 n S'" and t: "touch c S0 S"
    and run: "rt_run S \<subseteq># rt_run S1" "\<And>x. x \<in># rt_run S1 \<Longrightarrow> x \<noteq> c \<Longrightarrow> x \<in># rt_run S"
      "c \<in># rt_run S1 \<Longrightarrow> goes_on (ts S0 c) (ts S1 c)" "\<And>x. x \<in># rt_pend S1 \<Longrightarrow> x \<noteq> c \<Longrightarrow> x \<in># rt_pend S"
      "c \<in># rt_pend S1 \<Longrightarrow> ctype (constraints (ts S0 c)) = PERIODIC \<and> constraints (ts S1 c) = constraints (ts S0 c)"
  shows "chosen m now False c S0 n S'"
proof -
  have "pend_after now c S'"
    using pend_after_frame [OF d _ picked_frame(2) [OF p]] p by (simp add: picked_def)
  moreover have "ambient S0 S'"
    using q t picked_frame(3) [OF p] ambient_trans [of S0 S S1] ambient_trans [of S0 S1 S']
    by (simp add: touch_def requeued_def)
  moreover have "origins c S0 n S'"
  proof -
    have s1: "keys (ts S1 x) = keys (ts S x)" for x
      using q by (simp add: requeued_def same_but_qtype_fields)
    have "if x = c then goes_on (ts S0 c) (ts S' c) else x \<in># rt_run S0 \<and> keys (ts S' x) = keys (ts S0 x)"
      if "x \<in># add_mset n (rt_run S')" "ctype (constraints (ts S' x)) \<noteq> APERIODIC" for x
    proof -
      note x = picked_member [OF p that]
      have "goes_on (ts S0 c) (ts S' c)" if "x = c"
        using run(3) x that budget_left_keys [of "ts S' c" "ts S1 c"] by (auto simp: goes_on_def keys_def)
      then show ?thesis using x run(2) s1 t touch_queues(1) [OF t] by (simp add: touch_def)
    qed
    moreover have "if x = c then ctype (constraints (ts S0 c)) = PERIODIC \<and> constraints (ts S' c) = constraints (ts S0 c)
      else x \<in># rt_pend S0 \<and> keys (ts S' x) = keys (ts S0 x)" if "x \<in># rt_pend S'" for x
      using that run(4) [of x] run(5) p t touch_queues(2) [OF t] op_frame_keys [OF picked_frame(1) [OF p], of x] s1 [of x]
      by (auto simp: picked_def touch_def keys_def)
    ultimately show ?thesis unfolding origins_def by blast
  qed
  moreover have "rt_run S0 \<subseteq># add_mset n (rt_run S')"
    using run(1) p touch_queues(1) [OF t] subset_mset.order_trans by (fastforce simp: picked_def)
  ultimately show ?thesis using q p touch_queues [OF t] by (simp add: chosen_def picked_def requeued_def)
qed

lemma pend_after_requeue:
  assumes "ready m now c S" "requeued m c S S1" "rt_pend S1 = rt_pend S"
  shows "pend_after now c S1"
  using pend_after_frame [OF ready_pend [OF assms(1)] assms(3)] assms(2) by (simp add: requeued_def)

lemma update_aperiodic_constraints [simp]:
  "constraints (rt_thread_update_aperiodic m i r k now) = constraints r"
  by (simp add: rt_thread_update_aperiodic_def split: aper_model.splits)

lemma check_deadlines_keys [simp]:
  "constraints (snd (rt_thread_check_deadlines r now)) = constraints r"
  "run_time (snd (rt_thread_check_deadlines r now)) = run_time r"
  "deadline (snd (rt_thread_check_deadlines r now)) = deadline r"
  by (simp_all add: rt_thread_check_deadlines_def)

text \<open>A thread on its way to the aperiodic queue: the aperiodic case and a completed sporadic one.\<close>

lemma choose_via_aperiodic:
  assumes "ready m now c S" "special \<Longrightarrow> aper_members m S \<noteq> {#}"
    "\<not> special \<Longrightarrow> ctype (constraints (ts S c)) = APERIODIC" "touch c S0 S"
  shows "\<exists>n S'. bindr (if \<not> special then requeue (PUT_APERIODIC m) c S else Inr S) (next_rt_or_aperiodic m rnd)
      = Inr (n, S') \<and> chosen m now special c S0 n S'"
proof (cases special)
  case True
  have "sched_inv m S" "m \<noteq> LOTTERY" using assms(1) by (simp_all add: ready_def)
  then obtain n S' where "next_rt_or_aperiodic m rnd S = Inr (n, S')" "picked m S n S'"
    using pick_rt_or_aperiodic [of m S rnd] assms(2) True by blast
  with chosen_special [OF assms(1) _ assms(4)] True show ?thesis by auto
next
  case False
  have r: "sched_inv m S" "c \<noteq> NULL" "size (queued m S) < MAX_QUEUE" "m \<noteq> LOTTERY"
    using assms(1) by (simp_all add: ready_def)
  obtain S1 where q: "requeue (PUT_APERIODIC m) c S = Inr S1" "requeued m c S S1"
    "aper_members m S1 = add_mset c (aper_members m S)" "rt_run S1 = rt_run S" "rt_pend S1 = rt_pend S"
    using requeue_aper [OF r(1-3) assms(3) [OF False]] .
  have "sched_inv m S1" using q(2) by (simp add: requeued_def)
  then obtain n S' where n: "next_rt_or_aperiodic m rnd S1 = Inr (n, S')" "picked m S1 n S'"
    using pick_rt_or_aperiodic [of m S1 rnd] q(3) r(4) by auto
  have "c \<notin># rt_run S" "c \<notin># rt_pend S" using assms(1) by (simp_all add: ready_def queued_def)
  then have "chosen m now False c S0 n S'"
    using q(4,5) by (intro chosen_requeued [OF q(2) pend_after_requeue [OF assms(1) q(2,5)] n(2) assms(4)]) simp_all
  with n(1) q(1) False show ?thesis by simp
qed

lemma choose_aperiodic:
  assumes "ready m now c S" "special \<Longrightarrow> aper_members m S \<noteq> {#}" "ctype (constraints (ts S c)) = APERIODIC"
  shows "\<exists>n S'. resched_aperiodic m rnd now special c S = Inr (n, S') \<and> chosen m now special c S n S'"
  unfolding resched_aperiodic_def Let_def
  by (rule choose_via_aperiodic [OF ready_upd [OF assms(1)]]) (use assms(2,3) in simp_all)

lemma choose_sporadic_done:
  assumes "ready m now c S" "special \<Longrightarrow> aper_members m S \<noteq> {#}"
  shows "\<exists>n S'. sporadic_done m rnd now special c S = Inr (n, S') \<and> chosen m now special c S n S'"
proof (cases special)
  case True
  then show ?thesis
    using choose_via_aperiodic [OF ready_upd [OF assms(1)], of True _ S rnd] assms(2)
    by (simp add: sporadic_done_def Let_def)
next
  case False
  let ?S = "upd_rt c demote (upd_rt c (\<lambda>r. snd (rt_thread_check_deadlines r now)) S)"
  have "\<exists>n S'. bindr (if \<not> False then requeue (PUT_APERIODIC m) c ?S else Inr ?S) (next_rt_or_aperiodic m rnd)
      = Inr (n, S') \<and> chosen m now False c S n S'"
    by (intro choose_via_aperiodic ready_upd assms(1)) (simp_all add: demote_def Let_def)
  with False show ?thesis by (simp add: sporadic_done_def Let_def)
qed

lemma choose_preempt:
  assumes r: "ready m now c S" and h: "HAVE_RT S" and p: "special \<or> deadline (ts S c) > deadline (ts S (PEEK_RT S))"
    and k: "\<not> special \<Longrightarrow> budget_left (ts S c)"
  shows "\<exists>n S' S1. preempt_by_rt special c S = (Some (Inr (n, S')), S1) \<and> chosen m now special c S n S'"
proof -
  have inv: "sched_inv m S" "c \<noteq> NULL" "size (queued m S) < MAX_QUEUE" using r by (simp_all add: ready_def)
  obtain n S1 where g: "GET_NEXT_RT S = (n, S1)" "picked m S n S1" "n \<noteq> NULL" "PEEK_RT S = n" "n \<in># rt_run S"
    "\<forall>x \<in># rt_run S. deadline (ts S n) \<le> deadline (ts S x)" "ts S1 = ts S" "rt_run S = add_mset n (rt_run S1)"
    using pick_rt [OF inv(1) h] .
  show ?thesis
  proof (cases special)
    case True
    with g h p chosen_special [OF r g(2), of S] show ?thesis by (simp add: preempt_by_rt_def)
  next
    case False
    have q: "queued m S = add_mset n (queued m S1)" "sched_inv m S1" "rt_pend S1 = rt_pend S" "ambient S S1"
      using g(2) op_frame_ambient by (simp_all add: picked_def)
    have z: "size (queued m S1) < MAX_QUEUE" using inv(3) q(1) by simp
    have k1: "rt_ok (ts S1 c)" using budget_left_ok k False g(7) by simp
    obtain S2 where w: "requeue PUT_RT c S1 = Inr S2" "requeued m c S1 S2"
      "rt_run S2 = add_mset c (rt_run S1)" "aper_members m S2 = aper_members m S1" "rt_pend S2 = rt_pend S1"
      using requeue_rt [OF q(2) inv(2) z k1] .
    have "same_but_qtype (ts S) (ts S2)" using w(2) g(7) by (simp add: requeued_def)
    note F = same_but_qtype_fields [OF this]
    have lt: "deadline (ts S n) < deadline (ts S c)" using p False g(4) by simp
    have "rt_ok (ts S n)" using inv(1) g(5) by (simp add: sched_inv_def)
    then have "edf_choice S n" using g(6) by (auto simp: edf_choice_def rt_ok_def)
    then have "edf_choice S2 n"
      using w(3) g(8) F(4,6) lt rt_ok_keys(1) [OF F(1)] by (auto simp: edf_choice_def)
    moreover have "pend_after now c S2"
      using r w(5) q(3) F(4) by (auto simp: ready_def pend_after_def)
    moreover have "origins c S n S2"
      using budget_left_keys [OF F(1)] k False w(3,5) q(3) r g(5,8) F(1)
      by (auto simp: origins_def goes_on_def ready_def queued_def)
    moreover have "rt_run S \<subseteq># add_mset n (rt_run S2)" using w(3) g(8) by simp
    moreover have "ambient S S2" using w(2) q(4) ambient_trans by (auto simp: requeued_def)
    ultimately have "chosen m now False c S n S2"
      using w(2) g(3) q(1) by (simp add: chosen_def requeued_def)
    with False g h p w(1) show ?thesis by (simp add: preempt_by_rt_def)
  qed
qed

lemma no_preempt:
  "\<not> (HAVE_RT S \<and> (special \<or> deadline (ts S c) > deadline (ts S (PEEK_RT S)))) \<Longrightarrow>
    preempt_by_rt special c S = (None, S)"
  by (auto simp: preempt_by_rt_def)

lemma choose_special_aperiodic:
  assumes "ready m now c S" "\<not> HAVE_RT S" "aper_members m S \<noteq> {#}"
  shows "\<exists>n S'. next_aperiodic m rnd S = Inr (n, S') \<and> chosen m now True c S n S'"
proof -
  have "sched_inv m S" "m \<noteq> LOTTERY" using assms(1) by (simp_all add: ready_def)
  then obtain n S' where "next_aperiodic m rnd S = Inr (n, S')" "picked m S n S'"
    using pick_aperiodic [of m S rnd] assms(2,3) by blast
  with chosen_special [OF assms(1), of n S' S] show ?thesis by auto
qed

lemma choose_sporadic:
  assumes r: "ready m now c S" and a: "aper_members m S \<noteq> {#}" and k: "ctype (constraints (ts S c)) = SPORADIC"
    and out: "special \<or> run_time (ts S c) \<ge> sporadic_size (constraints (ts S c)) \<or>
      (\<exists>t \<in># rt_run S. deadline (ts S t) < deadline (ts S c))"
  shows "\<exists>n S'. resched_sporadic m rnd now False special c S = Inr (n, S') \<and> chosen m now special c S n S'"
proof (cases "run_time (ts S c) \<ge> sporadic_size (constraints (ts S c))")
  case True
  with choose_sporadic_done [OF r a, where special = special and rnd = rnd] show ?thesis by (simp add: resched_sporadic_def)
next
  case False
  show ?thesis
  proof (cases "HAVE_RT S")
    case True
    have "special \<or> deadline (ts S c) > deadline (ts S (PEEK_RT S))"
    proof (cases special)
      case False
      then obtain t where t: "t \<in># rt_run S" "deadline (ts S t) < deadline (ts S c)"
        using out \<open>\<not> run_time (ts S c) \<ge> _\<close> by blast
      have inv: "sched_inv m S" using r by (simp add: ready_def)
      obtain n where "PEEK_RT S = n" "\<forall>x \<in># rt_run S. deadline (ts S n) \<le> deadline (ts S x)"
        using pick_rt [OF inv True] by blast
      with t show ?thesis by auto
    qed simp
    moreover have "budget_left (ts S c)" using k False by (simp add: budget_left_def)
    ultimately obtain n S' S1 where "preempt_by_rt special c S = (Some (Inr (n, S')), S1)" "chosen m now special c S n S'"
      using choose_preempt [OF r True] by blast
    with False show ?thesis by (simp add: resched_sporadic_def)
  next
    case nort: False
    then have special using out False by (auto simp: HAVE_RT_iff)
    with False nort choose_special_aperiodic [OF r nort a, of rnd] no_preempt [of S special c] show ?thesis
      by (simp add: resched_sporadic_def sporadic_tail_def)
  qed
qed

lemma upd_rt_twice: "upd_rt c f (upd_rt c g S) = upd_rt c (\<lambda>r. f (g r)) S"
  by (simp add: upd_rt_def)

lemma upd_rt_id [simp]: "upd_rt c (\<lambda>_. ts S c) S = S"
  by (simp add: upd_rt_def)

lemma periodic_done_special: "\<exists>g. periodic_done now True c S = Inr (upd_rt c g S)"
  by (auto simp: periodic_done_def Let_def upd_rt_twice split: prod.splits)

lemma periodic_done_normal:
  assumes r: "ready m now c S" and k: "ctype (constraints (ts S c)) = PERIODIC"
  shows "\<exists>S0 S1. periodic_done now False c S = Inr S1 \<and> requeued m c S0 S1 \<and> touch c S S0 \<and>
    aper_members m S1 = aper_members m S \<and> pend_after now c S1 \<and> rt_run S \<subseteq># rt_run S1 \<and>
    (\<forall>x \<in># rt_run S1. x = c \<and> goes_on (ts S c) (ts S1 c) \<or> x \<noteq> c \<and> x \<in># rt_run S) \<and>
    (\<forall>x \<in># rt_pend S1. x = c \<and> constraints (ts S1 c) = constraints (ts S c) \<or> x \<noteq> c \<and> x \<in># rt_pend S)"
proof (cases "now > deadline (ts S c)")
  case True
  have nin: "c \<notin># rt_run S" "c \<notin># rt_pend S" using r by (simp_all add: ready_def queued_def)
  let ?S = "upd_rt c (\<lambda>_. (rearrive (snd (rt_thread_check_deadlines (ts S c) now)))\<lparr>arrival_count :=
      arrival_count (rearrive (snd (rt_thread_check_deadlines (ts S c) now))) + 1\<rparr>) S"
  have r': "ready m now c ?S" by (rule ready_upd [OF r])
  then have i: "sched_inv m ?S" "c \<noteq> NULL" "size (queued m ?S) < MAX_QUEUE" unfolding ready_def by blast+
  have ok: "rt_ok (ts ?S c)" using k by (simp add: rt_ok_def rearrive_def)
  obtain S1 where q: "requeue PUT_RT c ?S = Inr S1" "requeued m c ?S S1"
    "rt_run S1 = add_mset c (rt_run ?S)" "aper_members m S1 = aper_members m ?S" "rt_pend S1 = rt_pend ?S"
    using requeue_rt [OF i ok] .
  have "periodic_done now False c S = Inr S1"
    using True q(1) by (simp add: periodic_done_def rt_thread_check_deadlines_def upd_rt_twice Let_def)
  moreover have "pend_after now c S1" by (rule pend_after_requeue [OF r' q(2,5)])
  moreover have "same_but_qtype (ts ?S) (ts S1)" using q(2) by (simp add: requeued_def)
  from same_but_qtype_fields(1) [OF this, of c] have "goes_on (ts S c) (ts S1 c)" using k by (simp add: goes_on_def keys_def rearrive_def)
  ultimately show ?thesis using q(2-5) nin by (intro exI [of _ ?S] exI [of _ S1]) auto
next
  case False
  have i: "sched_inv m S" "c \<noteq> NULL" "size (queued m S) < MAX_QUEUE" using r by (simp_all add: ready_def)
  have ok: "pend_ok (ts S c)" using k by (simp add: pend_ok_def)
  obtain S1 where q: "requeue PUT_RT_PENDING c S = Inr S1" "requeued m c S S1"
    "rt_pend S1 = add_mset c (rt_pend S)" "aper_members m S1 = aper_members m S" "rt_run S1 = rt_run S"
    using requeue_pending [OF i ok] .
  have "periodic_done now False c S = Inr S1"
    using False q(1) by (simp add: periodic_done_def rt_thread_check_deadlines_def Let_def)
  moreover have same: "same_but_qtype (ts S) (ts S1)" using q(2) by (simp add: requeued_def)
  moreover have "pend_after now c S1"
    using same_but_qtype_fields(4) [OF same] q(3) r False by (auto simp: ready_def pend_after_def)
  moreover have "c \<notin># rt_run S" "c \<notin># rt_pend S" using r by (simp_all add: ready_def queued_def)
  ultimately show ?thesis using q(2-5) same_but_qtype_fields(6) [OF same, of c] by (intro exI [of _ S] exI [of _ S1]) auto
qed

text \<open>Both ways, the end of a period leaves a state from which any correct pick is a correct choice.\<close>

lemma periodic_done_cases:
  assumes r: "ready m now c S" and k: "ctype (constraints (ts S c)) = PERIODIC"
  shows "\<exists>S1. periodic_done now special c S = Inr S1 \<and> sched_inv m S1 \<and>
    aper_members m S1 = aper_members m S \<and> (special \<or> tstatus (ks S1 c) = NK_THR_SUSPENDED) \<and>
    (\<forall>n S'. picked m S1 n S' \<longrightarrow> chosen m now special c S n S')"
proof (cases special)
  case True
  obtain g where g: "periodic_done now True c S = Inr (upd_rt c g S)" using periodic_done_special by blast
  have r1: "ready m now c (upd_rt c g S)" by (rule ready_upd [OF r])
  have "chosen m now True c S n S'" if "picked m (upd_rt c g S) n S'" for n S'
    by (rule chosen_special [OF r1 that]) simp_all
  moreover have "sched_inv m (upd_rt c g S)" using r1 unfolding ready_def by blast
  ultimately show ?thesis using g True by (intro exI [of _ "upd_rt c g S"]) simp
next
  case False
  obtain S0 S1 where q: "periodic_done now False c S = Inr S1" "requeued m c S0 S1" "touch c S S0"
    "aper_members m S1 = aper_members m S" "pend_after now c S1" "rt_run S \<subseteq># rt_run S1"
    "\<forall>x \<in># rt_run S1. x = c \<and> goes_on (ts S c) (ts S1 c) \<or> x \<noteq> c \<and> x \<in># rt_run S"
    "\<forall>x \<in># rt_pend S1. x = c \<and> constraints (ts S1 c) = constraints (ts S c) \<or> x \<noteq> c \<and> x \<in># rt_pend S"
    using periodic_done_normal [OF r k] by blast
  have "chosen m now False c S n S'" if "picked m S1 n S'" for n S'
    using q(6-8) k touch_queues(1,2) [OF q(3)] by (intro chosen_requeued [OF q(2,5) that q(3)]) auto
  with q False show ?thesis by (intro exI [of _ S1]) (simp add: requeued_def)
qed

lemma choose_periodic_done:
  assumes r: "ready m now c S" and a: "aper_members m S \<noteq> {#}" and k: "ctype (constraints (ts S c)) = PERIODIC"
    and d: "run_time (ts S c) \<ge> periodic_slice (constraints (ts S c))"
  shows "\<exists>n S'. resched_periodic m rnd now False special c S = Inr (n, S') \<and> chosen m now special c S n S'"
proof -
  have m: "m \<noteq> LOTTERY" using r by (simp add: ready_def)
  obtain S1 where p: "periodic_done now special c S = Inr S1" "sched_inv m S1" "aper_members m S1 \<noteq> {#}"
    and fin: "\<forall>n S'. picked m S1 n S' \<longrightarrow> chosen m now special c S n S'"
    and tail: "special \<or> tstatus (ks S1 c) = NK_THR_SUSPENDED"
    using periodic_done_cases [OF r k, of special] a by metis
  show ?thesis
  proof (cases "HAVE_RT S1")
    case True
    obtain n S' where "GET_NEXT_RT S1 = (n, S')" "picked m S1 n S'" "n \<noteq> NULL"
      using pick_rt [OF p(2) True] by blast
    with fin True p(1) d show ?thesis by (simp add: resched_periodic_def)
  next
    case False
    obtain n S' where "next_aperiodic m rnd S1 = Inr (n, S')" "picked m S1 n S'"
      using pick_aperiodic [OF p(2) False p(3) m] by blast
    with fin False p(1) d tail show ?thesis by (simp add: resched_periodic_def periodic_tail_def)
  qed
qed

lemma choose_periodic:
  assumes r: "ready m now c S" and a: "aper_members m S \<noteq> {#}" and k: "ctype (constraints (ts S c)) = PERIODIC"
    and st: "tstatus (ks S c) \<noteq> NK_THR_SUSPENDED"
  shows "\<exists>n S'. resched_periodic m rnd now False special c S = Inr (n, S') \<and> chosen m now special c S n S'"
proof (cases "run_time (ts S c) \<ge> periodic_slice (constraints (ts S c))")
  case True
  then show ?thesis using choose_periodic_done [OF r a k] by blast
next
  case nd: False
  have ok: "budget_left (ts S c)" using k nd by (simp add: budget_left_def)
  have inv: "sched_inv m S" "c \<noteq> NULL" using r by (simp_all add: ready_def)
  show ?thesis
  proof (cases "HAVE_RT S \<and> (special \<or> deadline (ts S c) > deadline (ts S (PEEK_RT S)))")
    case True
    then obtain n S' S1 where "preempt_by_rt special c S = (Some (Inr (n, S')), S1)" "chosen m now special c S n S'"
      using choose_preempt [OF r] ok by blast
    with nd show ?thesis by (simp add: resched_periodic_def)
  next
    case np: False
    note n = no_preempt [OF np]
    show ?thesis
    proof (cases special)
      case True
      with np choose_special_aperiodic [OF r _ a, of rnd] n nd show ?thesis
        by (simp add: resched_periodic_def periodic_tail_def)
    next
      case False
      have "deadline (ts S c) \<le> deadline (ts S t)" if t: "t \<in># rt_run S" for t
      proof -
        have h: "HAVE_RT S" using t by (auto simp: HAVE_RT_iff)
        obtain x where "PEEK_RT S = x" "\<forall>y \<in># rt_run S. deadline (ts S x) \<le> deadline (ts S y)"
          using pick_rt [OF inv(1) h] by blast
        with t np h False show ?thesis by fastforce
      qed
      then have "edf_choice S c" using k budget_left_ok [OF ok] by (simp add: edf_choice_def)
      moreover have "pend_after now c (suspend c S)" using ready_pend [OF r] by (simp add: pend_after_def)
      moreover have "origins c S c (suspend c S)"
        using ok r by (auto simp: origins_def goes_on_def ready_def queued_def)
      ultimately have "chosen m now False c S c (suspend c S)"
        using inv suspend_inv [OF inv(1)] by (simp add: chosen_def edf_choice_def)
      with n nd st False show ?thesis by (simp add: resched_periodic_def periodic_tail_def)
    qed
  qed
qed

section \<open>Leaving the pass\<close>

text \<open>Changes that touch neither the queues nor the keys of any thread.\<close>

definition quiet :: "cpu_view \<Rightarrow> cpu_view \<Rightarrow> bool" where
  "quiet S S' \<longleftrightarrow> same_queues S S' \<and> (\<forall>x. keys (ts S' x) = keys (ts S x))"

lemma quiet_trans: "quiet S S1 \<Longrightarrow> quiet S1 S2 \<Longrightarrow> quiet S S2"
  by (auto simp: quiet_def intro: same_queues_trans)

lemma quiet_upd_rt: "(\<And>r. keys (f r) = keys r) \<Longrightarrow> quiet S (upd_rt t f S)"
  by (simp add: quiet_def)

lemma quiet_simps [simp]: "quiet S (upd_kt t g S)" "quiet S (S\<lparr>apic := a\<rparr>)" "quiet S (S\<lparr>cr8 := w\<rparr>)"
  by (simp_all add: quiet_def)

lemma quiet_inv: "quiet S S' \<Longrightarrow> sched_inv m S \<Longrightarrow> sched_inv m S'"
  by (auto simp: quiet_def intro: sched_inv_keys)

lemma quiet_members:
  assumes "quiet S S'"
  shows "rt_run S' = rt_run S" "rt_pend S' = rt_pend S" "queued m S' = queued m S"
    "deadline (ts S' x) = deadline (ts S x)" "run_time (ts S' x) = run_time (ts S x)"
    "constraints (ts S' x) = constraints (ts S x)"
  using assms same_queues_members by (auto simp: quiet_def keys_def)

lemma quiet_edf:
  assumes "quiet S S'" "edf_choice S n"
  shows "edf_choice S' n"
proof -
  have "rt_ok (ts S' n) = rt_ok (ts S n)" using assms(1) by (intro rt_ok_keys) (simp add: quiet_def)
  with assms(2) quiet_members [OF assms(1)] show ?thesis by (simp add: edf_choice_def)
qed

text \<open>The time the thread's budget ends, in 64-bit arithmetic.\<close>

definition budget_end :: "rt_thread \<Rightarrow> nk_sched_config \<Rightarrow> u64 \<Rightarrow> u64" where
  "budget_end r k now =
     (case ctype (constraints r) of
        APERIODIC \<Rightarrow> now + aperiodic_quantum k
      | SPORADIC \<Rightarrow> now + (sporadic_size (constraints r) - run_time r)
      | PERIODIC \<Rightarrow> now + (periodic_slice (constraints r) - run_time r))"

lemma next_preempt_ok:
  "(ctype (constraints r) \<noteq> APERIODIC \<Longrightarrow> rt_ok r) \<Longrightarrow> next_preempt r k now = Inr (budget_end r k now)"
  by (auto simp: next_preempt_def rt_ok_def budget_end_def split: constraint_type.splits)

definition timer_ok :: "cpu_view \<Rightarrow> ptr \<Rightarrow> u64 \<Rightarrow> bool" where
  "timer_ok S n now \<longleftrightarrow>
     (let st = set_time (tsc (sched S))
      in st \<le> budget_end (ts S n) (cfg (sched S)) now \<and> (\<forall>t \<in># rt_pend S. st \<le> deadline (ts S t)) \<and>
         timer_set (apic S) \<and>
         (\<exists>ticks. apic_realtime_to_ticks (apic S) (st - now + slack (sched S)) = Inr ticks \<and>
            (current_ticks (apic S) \<le> 1 \<or> current_ticks (apic S) \<le> ticks)))"

lemma next_arrival_le:
  assumes "pq_inv (ts S) (pending (sched S))" "t \<in># rt_pend S"
  shows "next_arrival S \<le> deadline (ts S t)"
proof -
  let ?q = "pending (sched S)"
  have ne: "pq_size ?q \<noteq> 0" using assms(2) by (metis empty_iff pq_elems_0 set_mset_empty)
  have "deadline (ts S (pq_threads ?q 0)) \<le> deadline (ts S t)"
    using dequeue_nonempty [OF assms(1) ne] assms(2) by blast
  with ne show ?thesis
    by (simp add: next_arrival_def HAVE_RT_PENDING_def PEEK_RT_PENDING_def rt_priority_queue_empty_def)
qed

lemma set_timer_spec:
  assumes inv: "sched_inv m S" and a: "ps_per_tick (apic S) \<noteq> 0" "cycles_per_us (apic S) \<noteq> 0"
    and n: "n \<noteq> NULL" "ctype (constraints (ts S n)) \<noteq> APERIODIC \<Longrightarrow> rt_ok (ts S n)"
  obtains S' where "set_timer S n now cyc = Inr S'" "quiet S S'" "ks S' = ks S" "current (sched S') = current (sched S)"
    "timer_ok S' n now"
proof -
  let ?b = "budget_end (ts S n) (cfg (sched S)) now" and ?a = "next_arrival S"
  let ?st = "if ?a < ?b then ?a else ?b"
  let ?S2 = "upd_sched (\<lambda>s. s\<lparr>tsc := (tsc s)\<lparr>tsc_start_time := now, set_time := ?st\<rparr>\<rparr>)
      (upd_rt n (\<lambda>r. r\<lparr>start_time := now\<rparr>) S)"
  obtain ticks where t: "apic_realtime_to_ticks (apic S) (?st - now + slack (sched S)) = Inr ticks"
    using realtime_to_ticks_returns [OF a(1)] by blast
  obtain t2 where t2: "cur_time (apic S) cyc = Inr t2"
    using cycles_to_realtime_returns [OF a(2)] by (auto simp: cur_time_def)
  let ?tk = "if t2 \<ge> ?st then 1 else ticks"
  let ?S3 = "?S2\<lparr>apic := apic_update_oneshot_timer (apic S) ?tk IF_EARLIER\<rparr>"
  have "set_timer S n now cyc = Inr ?S3"
    using n t t2 by (simp add: set_timer_def next_preempt_ok [OF n(2)] Let_def)
  moreover have "quiet S ?S3"
    by (auto simp: quiet_def same_queues_def keys_def)
  moreover have "timer_ok ?S3 n now"
  proof -
    have "?st \<le> ?b" by auto
    moreover have "?st \<le> deadline (ts S x)" if "x \<in># rt_pend S" for x
      using next_arrival_le [of S x] inv that by (auto simp: sched_inv_def)
    moreover have "budget_end (ts ?S3 n) (cfg (sched ?S3)) now = ?b"
      by (simp add: budget_end_def split: constraint_type.splits)
    moreover have "apic_realtime_to_ticks (apic ?S3) (?st - now + slack (sched ?S3)) = Inr ticks"
      using t by (simp add: apic_realtime_to_ticks_def)
    ultimately show ?thesis
      by (auto simp: timer_ok_def Let_def update_if_earlier)
  qed
  ultimately show ?thesis using that [of ?S3] by simp
qed

lemma timer_ok_quiet:
  assumes "timer_ok S n now" "quiet S S'" "apic S' = apic S" "tsc (sched S') = tsc (sched S)"
    "cfg (sched S') = cfg (sched S)" "slack (sched S') = slack (sched S)"
  shows "timer_ok S' n now"
proof -
  have "budget_end (ts S' n) k now = budget_end (ts S n) k now" for k
    using quiet_members [OF assms(2)] by (simp add: budget_end_def split: constraint_type.splits)
  with assms quiet_members [OF assms(2)] show ?thesis by (simp add: timer_ok_def)
qed

lemma out_good_spec:
  assumes inv: "sched_inv m S" and a: "ps_per_tick (apic S) \<noteq> 0" "cycles_per_us (apic S) \<noteq> 0"
    and n: "n \<noteq> NULL" "edf_choice S n"
  shows "\<exists>r S'. out_good e now st c n S = Inr (r, S') \<and> quiet S S' \<and> current (sched S') = n \<and>
    r = (if n = c then NULL else n) \<and> timer_ok S' n now"
proof -
  let ?S1 = "upd_rt c (\<lambda>r. r\<lparr>resched_long_count := resched_long_count r + 1,
      status := (if st = CHANGING then ADMITTED else status r),
      exit_time := (if st = EXITING then now else exit_time r)\<rparr>) S"
  let ?S2 = "upd_sched (\<lambda>s. s\<lparr>current := n\<rparr>) ?S1"
  have q2: "quiet S ?S2" by (simp add: quiet_def same_queues_def keys_def)
  have b: "ctype (constraints (ts ?S2 n)) \<noteq> APERIODIC \<Longrightarrow> rt_ok (ts ?S2 n)"
    using quiet_edf [OF q2 n(2)] unfolding edf_choice_def by blast
  have a2: "ps_per_tick (apic ?S2) \<noteq> 0" "cycles_per_us (apic ?S2) \<noteq> 0" using a by simp_all
  obtain S3 where t: "set_timer ?S2 n now (cycles_set e) = Inr S3" "quiet ?S2 S3" "ks S3 = ks ?S2"
    "current (sched S3) = current (sched ?S2)" "timer_ok S3 n now"
    using set_timer_spec [OF quiet_inv [OF q2 inv] a2 n(1) b] .
  have q3: "quiet S S3" by (rule quiet_trans [OF q2 t(2)])
  show ?thesis
  proof (cases "n = c")
    case True
    let ?S' = "upd_sched (\<lambda>s. s\<lparr>resched_slow_noswitch := INST_SCHED_OUT (inst_diff e) (resched_slow_noswitch s)\<rparr>)
        (mark_running c S3)"
    have q: "quiet S3 ?S'" by (simp add: quiet_def same_queues_def mark_running_def)
    have "timer_ok ?S' n now"
      by (rule timer_ok_quiet [OF t(5) q]) (simp_all add: mark_running_def)
    moreover have "current (sched ?S') = n" using t(4) by (simp add: mark_running_def)
    moreover have "out_good e now st c n S = Inr (NULL, ?S')" using t(1) True by (simp add: out_good_def)
    ultimately show ?thesis using quiet_trans [OF q3 q] True by (intro exI [of _ NULL] exI [of _ ?S']) simp
  next
    case False
    let ?S4 = "upd_rt n (\<lambda>r. r\<lparr>switch_in_count := switch_in_count r + 1, cur_run_time := 0\<rparr>) (mark_running n S3)"
    let ?S' = "upd_sched (\<lambda>s. s\<lparr>resched_slow := INST_SCHED_OUT (inst_diff e) (resched_slow s)\<rparr>)
        (set_interrupt_priority n ?S4)"
    have q: "quiet S3 ?S'"
      by (auto simp: quiet_def same_queues_def mark_running_def set_interrupt_priority_def keys_def)
    have "timer_ok ?S' n now"
      by (rule timer_ok_quiet [OF t(5) q]) (simp_all add: mark_running_def set_interrupt_priority_def)
    moreover have "current (sched ?S') = n" using t(4) by (simp add: mark_running_def set_interrupt_priority_def)
    moreover have "out_good e now st c n S = Inr (n, ?S')" using t(1) False by (simp add: out_good_def Let_def)
    ultimately show ?thesis using quiet_trans [OF q3 q] False by (intro exI [of _ n] exI [of _ ?S']) simp
  qed
qed

section \<open>The whole pass\<close>

text \<open>
  The states a pass starts from: the invariant holds, no thread is on two queues, the current
  thread is on none and is not already suspended, there is room for it, the timer is calibrated,
  and the pass is not cut short.
\<close>

definition pass_ready :: "aper_model \<Rightarrow> resched_env \<Rightarrow> ptr \<Rightarrow> cpu_view \<Rightarrow> bool" where
  "pass_ready m e c S \<longleftrightarrow>
     sched_inv m S \<and> uniq (queued m S) \<and> c \<noteq> NULL \<and> c \<notin># queued m S \<and> size (queued m S) < MAX_QUEUE \<and>
     m \<noteq> LOTTERY \<and> tstatus (ks S c) \<noteq> NK_THR_SUSPENDED \<and> status (ts S c) \<noteq> CHANGING \<and>
     ps_per_tick (apic S) \<noteq> 0 \<and> cycles_per_us (apic S) \<noteq> 0 \<and> \<not> (preempt_off e \<and> \<not> force e)"

text \<open>The time the pass works with.\<close>

definition pass_now :: "resched_env \<Rightarrow> cpu_view \<Rightarrow> u64" where
  "pass_now e S = 1000 * (cycles_in e div cycles_per_us (apic S))"

lemma cur_time_now: "cycles_per_us (apic S) \<noteq> 0 \<Longrightarrow> cur_time (apic S) (cycles_in e) = Inr (pass_now e S)"
  by (simp add: cur_time_def apic_cycles_to_realtime_def udiv_def pass_now_def)

lemma charge_simps [simp]:
  "sched (charge now c S) = (sched S)\<lparr>tsc := (tsc (sched S))\<lparr>end_time := now\<rparr>\<rparr>"
  "ks (charge now c S) = ks S" "apic (charge now c S) = apic S" "cr8 (charge now c S) = cr8 S"
  "constraints (ts (charge now c S) x) = constraints (ts S x)" "status (ts (charge now c S) x) = status (ts S x)"
  "deadline (ts (charge now c S) x) = deadline (ts S x)"
  "x \<noteq> c \<Longrightarrow> ts (charge now c S) x = ts S x"
  by (simp_all add: charge_def)

lemma same_queues_charge [simp]: "same_queues S (charge now c S)"
  by (simp add: same_queues_def)

text \<open>There is a thread to run: an aperiodic thread is queued, or the current one is and stays so.\<close>

definition someone :: "aper_model \<Rightarrow> ptr \<Rightarrow> cpu_view \<Rightarrow> bool" where
  "someone m c S \<longleftrightarrow> aper_members m S \<noteq> {#} \<or>
     ctype (constraints (ts S c)) = APERIODIC \<and> \<not> CUR_IS_SPECIAL (status (ts S c))"

text \<open>A sporadic current thread leaves: it is special, has used its size, or is preempted.\<close>

definition sporadic_leaves :: "u64 \<Rightarrow> ptr \<Rightarrow> cpu_view \<Rightarrow> bool" where
  "sporadic_leaves now c S \<longleftrightarrow>
     (ctype (constraints (ts S c)) = SPORADIC \<longrightarrow>
        CUR_IS_SPECIAL (status (ts S c)) \<or>
        run_time (ts (charge now c S) c) \<ge> sporadic_size (constraints (ts S c)) \<or>
        (\<exists>t \<in># rt_run S. deadline (ts S t) < deadline (ts S c)))"

lemma choose_spec:
  assumes r: "ready m now c S" and st: "st \<noteq> CHANGING" "tstatus (ks S c) \<noteq> NK_THR_SUSPENDED"
    and a: "aper_members m S \<noteq> {#} \<or> ctype (constraints (ts S c)) = APERIODIC \<and> \<not> CUR_IS_SPECIAL st"
    and sp: "ctype (constraints (ts S c)) = SPORADIC \<Longrightarrow>
      CUR_IS_SPECIAL st \<or> run_time (ts S c) \<ge> sporadic_size (constraints (ts S c)) \<or>
      (\<exists>t \<in># rt_run S. deadline (ts S t) < deadline (ts S c))"
  shows "\<exists>n S'. choose_next m rnd now st c S = Inr (n, S') \<and> chosen m now (CUR_IS_SPECIAL st) c S n S'"
proof (cases "ctype (constraints (ts S c))")
  case APERIODIC
  have "CUR_IS_SPECIAL st \<Longrightarrow> aper_members m S \<noteq> {#}" using a by blast
  with choose_aperiodic [OF r _ APERIODIC, of "CUR_IS_SPECIAL st" rnd] APERIODIC show ?thesis
    by (simp add: choose_next_def)
next
  case SPORADIC
  with a have "aper_members m S \<noteq> {#}" by simp
  with choose_sporadic [OF r _ SPORADIC sp [OF SPORADIC]] SPORADIC st(1) show ?thesis
    by (simp add: choose_next_def)
next
  case PERIODIC
  with a have "aper_members m S \<noteq> {#}" by simp
  with choose_periodic [OF r _ PERIODIC st(2)] PERIODIC st(1) show ?thesis by (simp add: choose_next_def)
qed

text \<open>Charging the current thread and pumping the arrivals leads to the state the choice is made in.\<close>

lemma pump_ready:
  assumes "pass_ready m e c S" "S1 = charge now c S"
  shows "\<exists>S2. pump_pending now S1 = Inr S2 \<and> ready m now c S2 \<and> queued m S2 = queued m S \<and>
    aper_members m S2 = aper_members m S \<and> rt_run S \<subseteq># rt_run S2 \<and> pumped S1 S2 \<and> c \<notin># rt_pend S"
proof -
  have p: "sched_inv m S" "uniq (queued m S)" "c \<noteq> NULL" "c \<notin># queued m S" "size (queued m S) < MAX_QUEUE" "m \<noteq> LOTTERY"
    using assms(1) by (simp_all add: pass_ready_def)
  have q: "same_queues S S1" by (simp add: assms(2))
  note M = same_queues_members [OF q]
  have i: "sched_inv m S1"
    by (rule sched_inv_keys [OF p(1) q]) (metis p(4) assms(2) charge_simps(8))
  have u: "uniq (queued m S1)" and z: "size (rt_run S1 + rt_pend S1) \<le> MAX_QUEUE"
    using p(2,5) M by (simp_all add: queued_def)
  obtain S2 where s: "pump_pending now S1 = Inr S2" "sched_inv m S2" "rt_run S2 + rt_pend S2 = rt_run S1 + rt_pend S1"
    "aper_members m S2 = aper_members m S1" "rt_run S1 \<subseteq># rt_run S2"
    "\<forall>t \<in># rt_pend S2. now < deadline (ts S2 t)" "pumped S1 S2"
    using pump_spec [OF i u z, of now] by blast
  have "queued m S2 = queued m S" using s(3,4) M by (simp add: queued_def)
  moreover from this have "ready m now c S2" using s(2,6) p by (simp add: ready_def)
  moreover have "c \<notin># rt_pend S" using p(4) by (simp add: queued_def)
  ultimately show ?thesis using s M by simp
qed

lemma runnable_kept:
  assumes "pass_ready m e c S" "pumped (charge now c S) S2" "t \<in># rt_run S"
  shows "keys (ts S2 t) = keys (ts S t)"
proof -
  have "uniq (queued m S)" "c \<notin># queued m S" using assms(1) by (simp_all add: pass_ready_def)
  then have "t \<notin># rt_pend S" "t \<noteq> c" using assms(3)
    by (auto simp: queued_def uniq_def dest!: spec [of _ t] simp flip: count_greater_zero_iff)
  then show ?thesis using assms(2) same_queues_members(2) [OF same_queues_charge] by (simp add: pumped_def)
qed

text \<open>
  How a pass reaches its final state: the current thread is charged, the arrivals are pumped, a
  thread is chosen, and leaving the pass changes no queue and no key.
\<close>

definition pass_path :: "aper_model \<Rightarrow> u64 \<Rightarrow> ptr \<Rightarrow> cpu_view \<Rightarrow> ptr \<Rightarrow> cpu_view \<Rightarrow> bool" where
  "pass_path m now c S n S' \<longleftrightarrow>
     (\<exists>S2 S3. pump_pending now (charge now c S) = Inr S2 \<and>
        chosen m now (CUR_IS_SPECIAL (status (ts S c))) c S2 n S3 \<and> quiet S3 S')"

lemma pass_runs:
  assumes P: "pass_ready m e c S" and "someone m c S" "sporadic_leaves (pass_now e S) c S"
    and late: "\<not> stay_early (pass_now e S) c (charge (pass_now e S) c S)"
  shows "\<exists>r S'. sched_need_resched m e c S = Inr (r, S') \<and>
    r = (if current (sched S') = c then NULL else current (sched S')) \<and>
    pass_path m (pass_now e S) c S (current (sched S')) S' \<and> timer_ok S' (current (sched S')) (pass_now e S)"
proof -
  let ?now = "pass_now e S" and ?st = "status (ts S c)"
  let ?S1 = "charge ?now c S"
  have a: "ps_per_tick (apic S) \<noteq> 0" "cycles_per_us (apic S) \<noteq> 0" "?st \<noteq> CHANGING"
    "tstatus (ks S c) \<noteq> NK_THR_SUSPENDED" "\<not> (preempt_off e \<and> \<not> force e)"
    using P by (simp_all add: pass_ready_def)
  obtain S2 where s: "pump_pending ?now ?S1 = Inr S2" "ready m ?now c S2" "queued m S2 = queued m S"
    "aper_members m S2 = aper_members m S" "rt_run S \<subseteq># rt_run S2" "pumped ?S1 S2" "c \<notin># rt_pend S"
    using pump_ready [OF P refl, of ?now] by blast
  have k: "keys (ts S2 c) = keys (ts ?S1 c)" and ks2: "ks S2 = ks S" and ap: "apic S2 = apic S"
    using s(6,7) by (simp_all add: pumped_def)
  have c2: "constraints (ts S2 c) = constraints (ts S c)" "deadline (ts S2 c) = deadline (ts S c)"
    "run_time (ts S2 c) = run_time (ts ?S1 c)"
    using k by (simp_all add: keys_def)
  have sp: "CUR_IS_SPECIAL ?st \<or> run_time (ts S2 c) \<ge> sporadic_size (constraints (ts S2 c)) \<or>
      (\<exists>t \<in># rt_run S2. deadline (ts S2 t) < deadline (ts S2 c))"
    if "ctype (constraints (ts S2 c)) = SPORADIC"
    using assms(3) that runnable_kept [OF P s(6)] mset_subset_eqD [OF s(5)] unfolding sporadic_leaves_def c2 keys_def by (metis prod.inject)
  obtain n S3 where n: "choose_next m (rnd_word e) ?now ?st c S2 = Inr (n, S3)" "chosen m ?now (CUR_IS_SPECIAL ?st) c S2 n S3"
    using choose_spec [OF s(2) a(3) _ _ sp] a(4) ks2 assms(2) s(4) c2(1) unfolding someone_def by metis
  have ch: "sched_inv m S3" "n \<noteq> NULL" "edf_choice S3 n" "ambient S2 S3"
    using n(2) unfolding chosen_def by simp_all
  have a3: "ps_per_tick (apic S3) \<noteq> 0" "cycles_per_us (apic S3) \<noteq> 0" using a(1,2) ch(4) ap by (simp_all add: ambient_def)
  obtain r S' where o: "out_good e ?now ?st c n S3 = Inr (r, S')" "quiet S3 S'" "current (sched S') = n"
    "r = (if n = c then NULL else n)" "timer_ok S' n ?now"
    using out_good_spec [OF ch(1) a3 ch(2,3)] by blast
  have "sched_need_resched m e c S = Inr (r, S')"
    using a(5) cur_time_now [OF a(2)] late s(1) n(1) o(1) by (auto simp: sched_need_resched_def Let_def)
  with o(2-5) s(1) n(2) show ?thesis unfolding pass_path_def by blast
qed

text \<open>What follows of the final state.\<close>

lemma pass_path_inv:
  assumes P: "pass_ready m e c S" and p: "pass_path m now c S n S'"
  shows "sched_inv m S'" "n \<noteq> NULL" "edf_choice S' n" "pend_after now c S'"
    "add_mset n (queued m S') = (if CUR_IS_SPECIAL (status (ts S c)) then queued m S else add_mset c (queued m S))"
proof -
  obtain S2 S3 where q: "pump_pending now (charge now c S) = Inr S2"
    "chosen m now (CUR_IS_SPECIAL (status (ts S c))) c S2 n S3" "quiet S3 S'"
    using p by (auto simp: pass_path_def)
  have "queued m S2 = queued m S" using pump_ready [OF P refl, of now] q(1) by auto
  then show "sched_inv m S'" "n \<noteq> NULL" "edf_choice S' n" "pend_after now c S'"
    "add_mset n (queued m S') = (if CUR_IS_SPECIAL (status (ts S c)) then queued m S else add_mset c (queued m S))"
    using q(2) quiet_inv [OF q(3)] quiet_edf [OF q(3)] quiet_members [OF q(3)]
    unfolding chosen_def pend_after_def by simp_all
qed

lemma pass_spec:
  assumes P: "pass_ready m e c S" and "someone m c S" "sporadic_leaves (pass_now e S) c S"
    and late: "\<not> stay_early (pass_now e S) c (charge (pass_now e S) c S)"
  shows "\<exists>r S'. sched_need_resched m e c S = Inr (r, S') \<and> sched_inv m S' \<and>
    r = (if current (sched S') = c then NULL else current (sched S')) \<and> current (sched S') \<noteq> NULL \<and>
    add_mset (current (sched S')) (queued m S') =
      (if CUR_IS_SPECIAL (status (ts S c)) then queued m S else add_mset c (queued m S)) \<and>
    edf_choice S' (current (sched S')) \<and> pend_after (pass_now e S) c S' \<and>
    timer_ok S' (current (sched S')) (pass_now e S) \<and> pass_path m (pass_now e S) c S (current (sched S')) S'"
  using pass_runs [OF assms] pass_path_inv [OF P] by blast

text \<open>Every thread that has arrived is current or runnable, with the keys it arrived with.\<close>

lemma pass_arrivals:
  assumes P: "pass_ready m e c S" and p: "pass_path m now c S n S'" and t: "t \<in># rt_pend S" "deadline (ts S t) \<le> now"
  shows "t = n \<or> t \<in># rt_run S'"
proof -
  obtain S2 S3 where q: "pump_pending now (charge now c S) = Inr S2"
    "chosen m now (CUR_IS_SPECIAL (status (ts S c))) c S2 n S3" "quiet S3 S'"
    using p by (auto simp: pass_path_def)
  have r: "ready m now c S2" "pumped (charge now c S) S2" "c \<notin># rt_pend S"
    using pump_ready [OF P refl, of now] q(1) by auto
  have m: "t \<in># rt_pend (charge now c S)" "deadline (ts (charge now c S) t) = deadline (ts S t)"
    using t(1) same_queues_members(2) [OF same_queues_charge] by simp_all
  have "t \<notin># rt_pend S2"
  proof
    assume a: "t \<in># rt_pend S2"
    then have "deadline (ts S2 t) = deadline (ts S t)" using r(2) m by (simp add: pumped_def keys_def)
    with a r(1) t(2) show False by (auto simp: ready_def)
  qed
  then have "t \<in># rt_run S2" using r(2) m(1) by (simp add: pumped_def)
  then have "t \<in># add_mset n (rt_run S3)" using q(2) by (auto simp: chosen_def dest: mset_subset_eqD)
  then show ?thesis using quiet_members(1) [OF q(3)] by auto
qed

text \<open>
  Strict budgets: every runnable thread has budget left, every pending one will have when it
  arrives, and the slice of a current periodic thread is not zero. A pass keeps this.
\<close>

definition budgets :: "ptr \<Rightarrow> cpu_view \<Rightarrow> bool" where
  "budgets c S \<longleftrightarrow>
     (\<forall>t \<in># rt_run S. budget_left (ts S t)) \<and> (\<forall>t \<in># rt_pend S. budget_left (arrive (ts S t))) \<and>
     (ctype (constraints (ts S c)) = PERIODIC \<longrightarrow> 0 < periodic_slice (constraints (ts S c)))"

lemma budget_left_arrive:
  "budget_left (arrive r) \<longleftrightarrow>
     (case ctype (constraints r) of APERIODIC \<Rightarrow> False | SPORADIC \<Rightarrow> run_time r < sporadic_size (constraints r)
      | PERIODIC \<Rightarrow> 0 < periodic_slice (constraints r))"
  by (auto simp: budget_left_def arrive_def Let_def split: constraint_type.splits)

lemma pumped_members:
  assumes P: "pass_ready m e c S" and u: "pump_pending now (charge now c S) = Inr S2"
  shows "t \<in># rt_run S2 \<Longrightarrow> t \<in># rt_run S \<and> keys (ts S2 t) = keys (ts S t) \<or>
      t \<in># rt_pend S \<and> keys (ts S2 t) = keys (arrive (ts S t))"
    and "t \<in># rt_pend S2 \<Longrightarrow> t \<in># rt_pend S \<and> keys (ts S2 t) = keys (ts S t)"
    and "constraints (ts S2 c) = constraints (ts S c)"
proof -
  let ?S1 = "charge now c S"
  have r: "pumped ?S1 S2" "queued m S2 = queued m S" "aper_members m S2 = aper_members m S" "rt_run S \<subseteq># rt_run S2"
    using pump_ready [OF P refl, of now] u by auto
  have M: "rt_pend ?S1 = rt_pend S" using same_queues_members(2) [OF same_queues_charge] .
  have all: "rt_run S2 + rt_pend S2 = rt_run S + rt_pend S" using r(2,3) by (simp add: queued_def)
  have uq: "uniq (queued m S2)" "c \<notin># queued m S" using P r(2) by (simp_all add: pass_ready_def)
  have x: "\<not> (t \<in># rt_run S2 \<and> t \<in># rt_pend S2)"
    using uq(1) by (auto simp: queued_def uniq_def dest!: spec [of _ t] simp flip: count_greater_zero_iff)
  have nc: "t \<in># rt_run S + rt_pend S \<Longrightarrow> t \<noteq> c" using uq(2) by (auto simp: queued_def)
  show "t \<in># rt_run S \<and> keys (ts S2 t) = keys (ts S t) \<or> t \<in># rt_pend S \<and> keys (ts S2 t) = keys (arrive (ts S t))"
    if t: "t \<in># rt_run S2"
  proof -
    have m: "t \<in># rt_run S + rt_pend S" "t \<notin># rt_pend S2" using all t x by (metis union_iff)+
    then have s1: "ts ?S1 t = ts S t" using nc by simp
    show ?thesis using m r(1) M s1 by (cases "t \<in># rt_pend S") (simp_all add: pumped_def)
  qed
  show "t \<in># rt_pend S \<and> keys (ts S2 t) = keys (ts S t)" if t: "t \<in># rt_pend S2"
  proof -
    have m: "t \<in># rt_run S + rt_pend S" "t \<notin># rt_run S" using all t x mset_subset_eqD [OF r(4)] by (metis union_iff)+
    then have s1: "ts ?S1 t = ts S t" using nc by simp
    show ?thesis using m t r(1) M s1 by (simp add: pumped_def)
  qed
  show "constraints (ts S2 c) = constraints (ts S c)" using r(1) by (simp add: pumped_def)
qed

lemma pumped_budgets:
  assumes P: "pass_ready m e c S" and b: "budgets c S" and u: "pump_pending now (charge now c S) = Inr S2"
  shows "budgets c S2"
proof -
  note M = pumped_members [OF P u]
  have "budget_left (ts S2 t)" if t: "t \<in># rt_run S2" for t
    using M(1) [OF t] b budget_left_keys [of "ts S2 t"] unfolding budgets_def by blast
  moreover have "budget_left (arrive (ts S2 t))" if t: "t \<in># rt_pend S2" for t
    using M(2) [OF t] b budget_left_keys [OF keys_arrive, of "ts S2 t"] unfolding budgets_def by blast
  ultimately show ?thesis using b M(3) unfolding budgets_def by simp
qed

lemma chosen_budgets:
  assumes inv: "sched_inv m S'" and b: "budgets c S" and o: "origins c S n S'"
  shows "budgets n S'" "ctype (constraints (ts S' n)) \<noteq> APERIODIC \<Longrightarrow> budget_left (ts S' n)"
proof -
  have run: "budget_left (ts S' t)" if "t \<in># add_mset n (rt_run S')" "ctype (constraints (ts S' t)) \<noteq> APERIODIC" for t
  proof (cases "t = c")
    case True
    then have "goes_on (ts S c) (ts S' c)" using o that unfolding origins_def by metis
    then show ?thesis using b True by (auto simp: goes_on_def budgets_def budget_left_def)
  next
    case False
    then have "t \<in># rt_run S" "keys (ts S' t) = keys (ts S t)" using o that unfolding origins_def by metis+
    then show ?thesis using b budget_left_keys unfolding budgets_def by blast
  qed
  then show n: "ctype (constraints (ts S' n)) \<noteq> APERIODIC \<Longrightarrow> budget_left (ts S' n)" by simp
  have "budget_left (ts S' t)" if t: "t \<in># rt_run S'" for t
  proof -
    have "rt_ok (ts S' t)" using inv t by (simp add: sched_inv_def)
    then have "ctype (constraints (ts S' t)) \<noteq> APERIODIC" by (auto simp: rt_ok_def)
    then show ?thesis using run [of t] t by simp
  qed
  moreover have "budget_left (arrive (ts S' t))" if t: "t \<in># rt_pend S'" for t
  proof (cases "t = c")
    case True
    then have "ctype (constraints (ts S c)) = PERIODIC" "constraints (ts S' c) = constraints (ts S c)"
      using o t unfolding origins_def by metis+
    then show ?thesis using b True by (simp add: budgets_def budget_left_arrive)
  next
    case False
    then have "t \<in># rt_pend S" "keys (ts S' t) = keys (ts S t)" using o t unfolding origins_def by metis+
    then show ?thesis using b budget_left_keys [OF keys_arrive] unfolding budgets_def by blast
  qed
  moreover have "0 < periodic_slice (constraints (ts S' n))" if "ctype (constraints (ts S' n)) = PERIODIC"
    using n that by (auto simp: budget_left_def intro: order.strict_trans1 [OF word_zero_le])
  ultimately show "budgets n S'" unfolding budgets_def by blast
qed

lemma pass_budgets:
  assumes P: "pass_ready m e c S" and p: "pass_path m now c S n S'" and b: "budgets c S"
  shows "budgets n S'" "ctype (constraints (ts S' n)) \<noteq> APERIODIC \<Longrightarrow> budget_left (ts S' n)"
proof -
  obtain S2 S3 where q: "pump_pending now (charge now c S) = Inr S2"
    "chosen m now (CUR_IS_SPECIAL (status (ts S c))) c S2 n S3" "quiet S3 S'"
    using p by (auto simp: pass_path_def)
  have k: "keys (ts S' x) = keys (ts S3 x)" for x using q(3) by (simp add: quiet_def)
  have "sched_inv m S3" "origins c S2 n S3" using q(2) by (simp_all add: chosen_def)
  note B = chosen_budgets [OF this(1) pumped_budgets [OF P b q(1)] this(2)]
  have kb: "budget_left (ts S' x) = budget_left (ts S3 x)" "budget_left (arrive (ts S' x)) = budget_left (arrive (ts S3 x))" for x
    by (rule budget_left_keys [OF k]) (rule budget_left_keys [OF keys_arrive [OF k]])
  show "budgets n S'" "ctype (constraints (ts S' n)) \<noteq> APERIODIC \<Longrightarrow> budget_left (ts S' n)"
    using B unfolding budgets_def kb quiet_members [OF q(3)] by blast+
qed

end
