(* ===== verification/Resched_Props.thy ===== *)
theory Resched_Props
  imports Resched_Inv
begin

text \<open>
  What a scheduling pass guarantees, as properties of \<open>sched_need_resched\<close>: conservation of
  threads, earliest deadline first, the programmed timer, the two short exits, and the two ways
  the pass goes wrong (a sporadic thread that should keep running, and the wrap of a clamped
  dynamic priority).
\<close>

section \<open>An example machine\<close>

text \<open>
  Thread 5 is periodic and running with its slice used up and its deadline missed, thread 7 is
  periodic and runnable with an earlier deadline, thread 3 is periodic and pending and its arrival
  time has come, thread 9 is aperiodic.
\<close>

definition per_thread :: "u64 \<Rightarrow> rt_thread" where
  "per_thread d = zero_rt_thread\<lparr>constraints :=
     \<lparr>ctype = PERIODIC, interrupt_priority_class = 0, word0 = 0, word1 = 1000, word2 = 100, word3 = 0\<rparr>,
     status := ADMITTED, deadline := d\<rparr>"

definition one_ring :: "ptr \<Rightarrow> rt_queue" where
  "one_ring t = \<lparr>rq_type = APERIODIC_QUEUE, rq_size = 1, rq_head = 1, rq_tail = 0, rq_threads = (\<lambda>_. t)\<rparr>"

definition sample_cpu :: cpu_view where
  "sample_cpu = blank_view\<lparr>
     ts := (\<lambda>_. zero_rt_thread)(5 := per_thread 900, 7 := per_thread 500, 3 := per_thread 40000),
     ks := (\<lambda>_. (ks blank_view 0)\<lparr>tstatus := NK_THR_RUNNING\<rparr>),
     sched := zero_rt_scheduler\<lparr>current := 5,
       runnable := \<lparr>pq_type = RUNNABLE_QUEUE, pq_size = 1, pq_threads = (\<lambda>_. 7)\<rparr>,
       pending := \<lparr>pq_type = PENDING_QUEUE, pq_size = 1, pq_threads = (\<lambda>_. 3)\<rparr>,
       aperiodic := one_ring 9\<rparr>,
     apic := (apic blank_view)\<lparr>ps_per_tick := 1000, cycles_per_us := 1000\<rparr>\<rparr>"

definition sample_env :: resched_env where
  "sample_env = \<lparr>cycles_in = 50000, cycles_set = 50001, inst_diff = 10, rnd_word = 0, preempt_off = False, force = False\<rparr>"

lemma sample_rq: "rq_list (one_ring t) = [t]" "rq_inv (one_ring t)"
  by (simp_all add: rq_list_def ring_def one_ring_def rq_inv_def MAX_QUEUE_def)

lemma sample_members:
  "rt_run sample_cpu = {#7#}" "rt_pend sample_cpu = {#3#}" "aper_members ROUND_ROBIN sample_cpu = {#9#}"
  "queued ROUND_ROBIN sample_cpu = {#7, 3, 9#}"
  by (simp_all add: queued_def aper_members_def ring_members_def sample_cpu_def pq_elems_def elems_def sample_rq
      zero_rt_scheduler_def)

lemma sample_inv: "sched_inv ROUND_ROBIN sample_cpu"
  unfolding sched_inv_def sample_members
  by (simp add: sample_cpu_def pq_inv_def is_heap_def pq_elems_def elems_def aper_inv_def ring_inv_def sample_rq
      MAX_QUEUE_def zero_rt_scheduler_def rt_ok_def pend_ok_def per_thread_def periodic_slice_def
      zero_rt_thread_def aperiodic_constraints_def)

lemma sample_ready: "pass_ready ROUND_ROBIN sample_env 5 sample_cpu"
  unfolding pass_ready_def sample_members
  using sample_inv
  by (simp add: uniq_def MAX_QUEUE_def) (simp add: sample_cpu_def sample_env_def per_thread_def)

lemma sample_now: "pass_now sample_env sample_cpu = 50000"
  by (simp add: pass_now_def sample_env_def sample_cpu_def)

lemma sample_someone: "someone ROUND_ROBIN 5 sample_cpu"
  by (simp add: someone_def sample_members)

lemma sample_sporadic: "sporadic_leaves now 5 sample_cpu"
  by (simp add: sporadic_leaves_def sample_cpu_def per_thread_def)

lemma sample_late: "\<not> stay_early 50000 5 (charge 50000 5 sample_cpu)"
  by (simp add: stay_early_def sample_cpu_def zero_rt_scheduler_def)

lemmas sample_pass = sample_ready sample_someone sample_sporadic sample_late [folded sample_now]

section \<open>Properties\<close>

text \<open>
  C6. A scheduling pass loses and duplicates no thread. From a state in which the scheduler's
  invariant holds, every thread is on at most one queue, the current thread is on none, there is
  room and someone to run, the pass returns; the invariant holds again; it returns NULL exactly
  when the current thread stays; and the thread now current together with the queued threads is
  exactly the old current thread together with the threads queued before, without the old current
  thread when it is going to sleep or exiting.
\<close>
theorem pass_conserves_threads:
  assumes "pass_ready m e c S" "someone m c S" "sporadic_leaves (pass_now e S) c S"
    "\<not> stay_early (pass_now e S) c (charge (pass_now e S) c S)"
  shows "\<exists>r S'. sched_need_resched m e c S = Inr (r, S') \<and> sched_inv m S' \<and> current (sched S') \<noteq> NULL \<and>
    r = (if current (sched S') = c then NULL else current (sched S')) \<and>
    add_mset (current (sched S')) (queued m S') =
      (if CUR_IS_SPECIAL (status (ts S c)) then queued m S else add_mset c (queued m S))"
  using pass_spec [OF assms] by blast

theorem pass_conserves_threads_witness:
  "\<exists>r S'. sched_need_resched ROUND_ROBIN sample_env 5 sample_cpu = Inr (r, S') \<and>
    add_mset (current (sched S')) (queued ROUND_ROBIN S') = {#5, 7, 3, 9#}"
proof -
  have "\<not> CUR_IS_SPECIAL (status (ts sample_cpu 5))"
    by (simp add: CUR_IS_SPECIAL_def sample_cpu_def per_thread_def)
  with pass_conserves_threads [OF sample_pass] show ?thesis by (auto simp: sample_members)
qed

text \<open>
  C2. The pass dispatches by earliest deadline first. If any real-time thread is runnable
  afterwards, the current thread is a real-time thread whose deadline is no later than that of any
  runnable one, and it has not overrun its slice or size. Every thread that was pending and whose
  arrival time has come is now current or runnable. What is still pending arrives later than the
  time of the pass, with one exception: the thread that was current and has just used up its slice
  may be pending with an arrival time equal to the time of the pass. If moreover all runnable
  threads had budget strictly left, all pending ones will have when they arrive, and the slice of a
  periodic current thread is not zero, then all of this holds again and a chosen real-time thread
  has budget strictly left.
\<close>
theorem pass_dispatches_edf:
  assumes "pass_ready m e c S" "someone m c S" "sporadic_leaves (pass_now e S) c S"
    "\<not> stay_early (pass_now e S) c (charge (pass_now e S) c S)"
    "sched_need_resched m e c S = Inr (r, S')" "n = current (sched S')"
  shows "(\<forall>t \<in># rt_run S'. ctype (constraints (ts S' n)) \<noteq> APERIODIC \<and> deadline (ts S' n) \<le> deadline (ts S' t)) \<and>
    (ctype (constraints (ts S' n)) \<noteq> APERIODIC \<longrightarrow> rt_ok (ts S' n)) \<and>
    (\<forall>t \<in># rt_pend S. deadline (ts S t) \<le> pass_now e S \<longrightarrow> t = n \<or> t \<in># rt_run S') \<and>
    (\<forall>t \<in># rt_pend S'. pass_now e S < deadline (ts S' t) \<or> t = c \<and> deadline (ts S' t) = pass_now e S) \<and>
    (budgets c S \<longrightarrow> budgets n S' \<and> (ctype (constraints (ts S' n)) \<noteq> APERIODIC \<longrightarrow> budget_left (ts S' n)))"
proof -
  have "edf_choice S' n" "pend_after (pass_now e S) c S'" and p: "pass_path m (pass_now e S) c S n S'"
    using pass_spec [OF assms(1-4)] assms(5,6) by auto
  then show ?thesis
    using pass_arrivals [OF assms(1) p] pass_budgets [OF assms(1) p] unfolding edf_choice_def pend_after_def by blast
qed

theorem pass_dispatches_edf_witness:
  "\<exists>r S'. sched_need_resched ROUND_ROBIN sample_env 5 sample_cpu = Inr (r, S') \<and>
    (\<forall>t \<in># rt_run S'. deadline (ts S' (current (sched S'))) \<le> deadline (ts S' t)) \<and>
    (3 = current (sched S') \<or> 3 \<in># rt_run S') \<and> budgets (current (sched S')) S'"
proof -
  obtain r S' where p: "sched_need_resched ROUND_ROBIN sample_env 5 sample_cpu = Inr (r, S')"
    using pass_spec [OF sample_pass] by blast
  have b: "budgets 5 sample_cpu" unfolding budgets_def sample_members
    by (simp add: sample_cpu_def per_thread_def budget_left_def arrive_def Let_def periodic_slice_def zero_rt_thread_def)
  have "3 \<in># rt_pend sample_cpu" "deadline (ts sample_cpu 3) \<le> pass_now sample_env sample_cpu"
    unfolding sample_members sample_now by (simp_all add: sample_cpu_def per_thread_def)
  with pass_dispatches_edf [OF sample_pass p refl] p b show ?thesis by blast
qed

text \<open>
  C21. The pass programs the timer for the next event: the set time is no later than the end of the
  current thread's budget (slice, size or quantum) and no later than the arrival of any pending
  thread, and the one-shot timer is running with at most the ticks for that interval plus the
  configured slack, or a single tick.
\<close>
theorem pass_programs_timer:
  assumes "pass_ready m e c S" "someone m c S" "sporadic_leaves (pass_now e S) c S"
    "\<not> stay_early (pass_now e S) c (charge (pass_now e S) c S)"
    "sched_need_resched m e c S = Inr (r, S')" "n = current (sched S')" "st = set_time (tsc (sched S'))"
  shows "st \<le> budget_end (ts S' n) (cfg (sched S')) (pass_now e S) \<and> (\<forall>t \<in># rt_pend S'. st \<le> deadline (ts S' t)) \<and>
    timer_set (apic S') \<and>
    (\<exists>ticks. apic_realtime_to_ticks (apic S') (st - pass_now e S + slack (sched S')) = Inr ticks \<and>
       (current_ticks (apic S') \<le> 1 \<or> current_ticks (apic S') \<le> ticks))"
  using pass_spec [OF assms(1-4)] assms(5-7) by (auto simp: timer_ok_def Let_def)

theorem pass_programs_timer_witness:
  "\<exists>r S'. sched_need_resched ROUND_ROBIN sample_env 5 sample_cpu = Inr (r, S') \<and> timer_set (apic S') \<and>
    set_time (tsc (sched S')) \<le> budget_end (ts S' (current (sched S'))) (cfg (sched S')) 50000"
proof -
  obtain r S' where p: "sched_need_resched ROUND_ROBIN sample_env 5 sample_cpu = Inr (r, S')"
    using pass_spec [OF sample_pass] by blast
  from pass_programs_timer [OF sample_pass p refl refl] p show ?thesis unfolding sample_now by blast
qed

text \<open>
  The pass leaves early when there is nothing to do: if the timer has not run out, the call
  comes from neither a timer nor a kick interrupt, and the current thread is not idle, yielding or
  special, it returns NULL, and all queues, all other threads and the timer are as before; only
  the current thread's run times and counters have advanced.
\<close>
lemma pass_early_exit:
  assumes "\<not> (preempt_off e \<and> \<not> force e)" "cycles_per_us (apic S) \<noteq> 0"
    "stay_early (pass_now e S) c (charge (pass_now e S) c S)"
  shows "\<exists>S'. sched_need_resched m e c S = Inr (NULL, S') \<and> same_queues S S' \<and> apic S' = apic S \<and>
    ks S' = ks S \<and> current (sched S') = current (sched S) \<and> (\<forall>x. x \<noteq> c \<longrightarrow> ts S' x = ts S x) \<and>
    run_time (ts S' c) = run_time (ts S c) + (pass_now e S - start_time (ts S c))"
  using assms cur_time_now [OF assms(2), of e]
  by (auto simp: sched_need_resched_def out_good_early_def Let_def same_queues_def charge_def)

lemma pass_early_exit_witness:
  "\<exists>S'. sched_need_resched ROUND_ROBIN sample_env 5
      (sample_cpu\<lparr>sched := (sched sample_cpu)\<lparr>tsc := (tsc (sched sample_cpu))\<lparr>set_time := 60000\<rparr>\<rparr>\<rparr>) = Inr (NULL, S')"
proof -
  let ?S = "sample_cpu\<lparr>sched := (sched sample_cpu)\<lparr>tsc := (tsc (sched sample_cpu))\<lparr>set_time := 60000\<rparr>\<rparr>\<rparr>"
  have n: "pass_now sample_env ?S = 50000" by (simp add: pass_now_def sample_env_def sample_cpu_def)
  have "stay_early 50000 5 (charge 50000 5 ?S)"
    by (simp add: stay_early_def CUR_IS_SPECIAL_def) (simp add: sample_cpu_def per_thread_def blank_view_def)
  moreover have "\<not> (preempt_off sample_env \<and> \<not> force sample_env)" "cycles_per_us (apic ?S) \<noteq> 0"
    by (simp_all add: sample_env_def sample_cpu_def)
  ultimately show ?thesis using pass_early_exit [of sample_env ?S 5 ROUND_ROBIN] unfolding n by blast
qed

text \<open>
  With preemption disabled an unforced pass does nothing but keep the interrupt alive: it
  returns NULL and leaves the threads, the queues and the priority register alone; if it was called
  from a timer or kick interrupt, the timer is set to fire again within the delay of 10
  microseconds, converted to ticks, and the interrupt flags are cleared.
\<close>
lemma pass_preemption_off:
  assumes "preempt_off e" "\<not> force e" "ps_per_tick (apic S) \<noteq> 0"
  shows "\<exists>S' ticks. sched_need_resched m e c S = Inr (NULL, S') \<and> ts S' = ts S \<and> ks S' = ks S \<and>
    sched S' = sched S \<and> cr8 S' = cr8 S \<and> apic_realtime_to_ticks (apic S) 10000 = Inr ticks \<and>
    (if in_timer_interrupt (apic S) \<or> in_kick_interrupt (apic S)
     then timer_set (apic S') \<and> \<not> in_timer_interrupt (apic S') \<and> \<not> in_kick_interrupt (apic S') \<and>
       (current_ticks (apic S') \<le> 1 \<or> current_ticks (apic S') \<le> ticks)
     else apic S' = apic S)"
proof -
  obtain ticks where "apic_realtime_to_ticks (apic S) 10000 = Inr ticks"
    using realtime_to_ticks_returns [OF assms(3)] by blast
  then show ?thesis
    using assms(1,2)
    by (auto simp: sched_need_resched_def preempt_disabled_exit_def DELAY_FOR_PREEMPT_NS_def update_if_earlier)
qed

lemma pass_preemption_off_witness:
  "\<exists>S'. sched_need_resched ROUND_ROBIN (sample_env\<lparr>preempt_off := True\<rparr>) 5 sample_cpu = Inr (NULL, S') \<and>
    sched S' = sched sample_cpu"
  using pass_preemption_off [of "sample_env\<lparr>preempt_off := True\<rparr>" sample_cpu ROUND_ROBIN 5]
  by (auto simp: sample_env_def sample_cpu_def)

text \<open>
  A sporadic thread that should simply keep running crashes the pass: if the current thread is
  sporadic, neither special nor finished, and no other real-time thread exists on the CPU, a pass
  that does not leave early stores through the thread pointer before assigning it.
\<close>
lemma sporadic_stay_faults:
  assumes "\<not> (preempt_off e \<and> \<not> force e)" "cycles_per_us (apic S) \<noteq> 0"
    "pq_size (runnable (sched S)) = 0" "pq_size (pending (sched S)) = 0"
    "ctype (constraints (ts S c)) = SPORADIC" "\<not> CUR_IS_SPECIAL (status (ts S c))"
    "run_time (ts S c) + (pass_now e S - start_time (ts S c)) < sporadic_size (constraints (ts S c))"
    "\<not> stay_early (pass_now e S) c (charge (pass_now e S) c S)"
  shows "sched_need_resched m e c S = Inl BadPointer"
proof -
  let ?S1 = "charge (pass_now e S) c S"
  have n: "\<not> HAVE_RT ?S1" "\<not> HAVE_RT_PENDING ?S1"
    using assms(3,4) by (simp_all add: HAVE_RT_def HAVE_RT_PENDING_def rt_priority_queue_empty_def)
  have "pump_pending (pass_now e S) ?S1 = Inr ?S1" using n by (subst pump_pending.simps) simp
  moreover have "\<not> sporadic_size (constraints (ts S c)) \<le> run_time (ts ?S1 c)"
    using assms(7) by (simp add: charge_def not_le)
  then have "choose_next m (rnd_word e) (pass_now e S) (status (ts S c)) c ?S1 = Inl BadPointer"
    using n assms(5,6) no_preempt [of ?S1 False c]
    by (auto simp: choose_next_def resched_sporadic_def sporadic_tail_def)
  ultimately show ?thesis
    using assms(1,8) cur_time_now [OF assms(2), of e] by (auto simp: sched_need_resched_def Let_def)
qed

definition spor_thread :: rt_thread where
  "spor_thread = zero_rt_thread\<lparr>constraints :=
     \<lparr>ctype = SPORADIC, interrupt_priority_class = 0, word0 = 0, word1 = 90000, word2 = 900000, word3 = 5\<rparr>,
     status := ADMITTED, deadline := 900000\<rparr>"

lemma sporadic_stay_faults_witness:
  "sched_need_resched ROUND_ROBIN sample_env 5
     (sample_cpu\<lparr>ts := (\<lambda>_. spor_thread), sched := zero_rt_scheduler\<lparr>aperiodic := one_ring 9\<rparr>\<rparr>) = Inl BadPointer"
proof -
  let ?S = "sample_cpu\<lparr>ts := (\<lambda>_. spor_thread), sched := zero_rt_scheduler\<lparr>aperiodic := one_ring 9\<rparr>\<rparr>"
  have n: "pass_now sample_env ?S = 50000" by (simp add: pass_now_def sample_env_def sample_cpu_def)
  have "\<not> stay_early 50000 5 (charge 50000 5 ?S)" by (simp add: stay_early_def zero_rt_scheduler_def)
  moreover have "\<not> (preempt_off sample_env \<and> \<not> force sample_env)" "cycles_per_us (apic ?S) \<noteq> 0"
    by (simp_all add: sample_env_def sample_cpu_def)
  moreover have "run_time (ts ?S 5) + (50000 - start_time (ts ?S 5)) < sporadic_size (constraints (ts ?S 5))"
    "ctype (constraints (ts ?S 5)) = SPORADIC" "\<not> CUR_IS_SPECIAL (status (ts ?S 5))"
    by (simp_all add: spor_thread_def zero_rt_thread_def sporadic_size_def CUR_IS_SPECIAL_def)
  moreover have "pq_size (runnable (sched ?S)) = 0" "pq_size (pending (sched ?S)) = 0"
    by (simp_all add: zero_rt_scheduler_def)
  ultimately show ?thesis using sporadic_stay_faults [of sample_env ?S 5 ROUND_ROBIN] unfolding n by blast
qed

text \<open>
  The clamp on dynamic priorities does not prevent the wrap it is there to prevent: a clamped
  priority of the maximum less 2048 gets an offset of up to 4095 from the low bits of the time, so
  with an offset of 2049 or more it wraps around to a value below 2047, the best priority there is,
  for a thread that ought to come just before the idle thread.
\<close>
lemma dynamic_priority_wraps:
  assumes "prio > -1 - 2048" "2049 \<le> now AND 0xfff"
  shows "dynamic_priority prio run now < 2047"
proof -
  have c: "prio + run < prio \<or> prio + run > -1 - 2048"
  proof (cases "prio + run < prio")
    case False
    then have "prio \<le> prio + run" by simp
    with assms(1) have "-1 - 2048 < prio + run" by (rule order.strict_trans2)
    then show ?thesis ..
  qed simp
  have o: "now AND 0xfff \<le> 0xfff" by (rule word_and_le1)
  have "dynamic_priority prio run now = (-1 - 2048) + (now AND 0xfff)"
    unfolding dynamic_priority_def Let_def if_P [OF c] ..
  also have "\<dots> = (now AND 0xfff) - 2049" by simp
  finally have "unat (dynamic_priority prio run now) = unat (now AND 0xfff) - 2049"
    using unat_sub [OF assms(2)] by simp
  moreover have "unat (now AND 0xfff) \<le> 4095" using o by (simp add: word_le_nat_alt)
  ultimately have "unat (dynamic_priority prio run now) < unat (2047 :: u64)" by simp
  then show ?thesis by (simp only: word_less_nat_alt)
qed

lemma dynamic_priority_wraps_witness:
  "dynamic_priority (-1) 0 4095 < 2047"
  by (rule dynamic_priority_wraps) simp_all

end
