(* ===== verification/Rt_List.thy ===== *)
theory Rt_List
  imports Sched_Types
begin

text \<open>
  The doubly linked list of all threads (\<open>rt_list_*\<close> and \<open>rt_node_*\<close> of
  \<^verbatim>\<open>src/nautilus/scheduler.c\<close>) over a heap of nodes. Memory comes from the caller: \<open>a\<close> is the
  address the allocator returned for the node, NULL when it failed. The abstraction of a list is
  the sequence of its node addresses, linked in both directions.
\<close>

section \<open>Nodes and lists\<close>

record rt_node =
  nthread :: ptr
  nnext :: ptr
  nprev :: ptr

record rt_list =
  lhead :: ptr
  ltail :: ptr

text \<open>The list structure is itself allocated: \<open>None\<close> stands for a NULL \<open>rt_list *\<close>.\<close>

record list_state =
  tlist :: "rt_list option"
  nodes :: "rt_node heap"

section \<open>The operations\<close>

definition rt_list_init :: "bool \<Rightarrow> rt_list option" where
  "rt_list_init alloc_ok = (if alloc_ok then Some \<lparr>lhead = NULL, ltail = NULL\<rparr> else None)"

definition rt_node_init :: "ptr \<Rightarrow> ptr \<Rightarrow> rt_node heap \<Rightarrow> ptr \<times> rt_node heap" where
  "rt_node_init a t h =
     (if a \<noteq> NULL then (a, h(a \<mapsto> \<lparr>nthread = t, nnext = NULL, nprev = NULL\<rparr>)) else (NULL, h))"

definition rt_node_deinit :: "ptr \<Rightarrow> rt_node heap \<Rightarrow> rt_node heap" where
  "rt_node_deinit n h = h(n := None)"

definition rt_list_empty :: "rt_list \<Rightarrow> bool" where
  "rt_list_empty l \<longleftrightarrow> lhead l = NULL"

definition rt_list_enqueue ::
  "ptr \<Rightarrow> ptr \<Rightarrow> list_state \<Rightarrow> (ptr \<Rightarrow> rt_thread) \<Rightarrow> (int \<times> list_state \<times> (ptr \<Rightarrow> rt_thread)) result" where
  "rt_list_enqueue a t L th =
     (case tlist L of
        None \<Rightarrow> Inr (-1, L, th)
      | Some l \<Rightarrow>
          if lhead l = NULL
          then let (n, h) = rt_node_init a t (nodes L)
               in if n = NULL then Inr (-1, L\<lparr>tlist := Some (l\<lparr>lhead := n\<rparr>)\<rparr>, th)
                  else Inr (0, \<lparr>tlist = Some \<lparr>lhead = n, ltail = n\<rparr>, nodes = h\<rparr>,
                            th(t := (th t)\<lparr>list_node := n\<rparr>))
          else let n = ltail l; (m, h) = rt_node_init a t (nodes L); l' = l\<lparr>ltail := m\<rparr>
               in if m = NULL then Inr (-1, \<lparr>tlist = Some l', nodes = h\<rparr>, th)
                  else bindr (load h m) (\<lambda>nm.
                       let h1 = h(m \<mapsto> nm\<lparr>nprev := n\<rparr>)
                       in bindr (load h1 n) (\<lambda>nn.
                          Inr (0, \<lparr>tlist = Some l', nodes = h1(n \<mapsto> nn\<lparr>nnext := m\<rparr>)\<rparr>,
                               th(t := (th t)\<lparr>list_node := m\<rparr>)))))"

definition rt_list_dequeue ::
  "list_state \<Rightarrow> (ptr \<Rightarrow> rt_thread) \<Rightarrow> (ptr \<times> list_state \<times> (ptr \<Rightarrow> rt_thread)) result" where
  "rt_list_dequeue L th =
     (case tlist L of
        None \<Rightarrow> Inr (NULL, L, th)
      | Some l \<Rightarrow>
          if lhead l = NULL then Inr (NULL, L, th)
          else bindr (load (nodes L) (lhead l)) (\<lambda>n.
               bindr (load (nodes L) (nnext n)) (\<lambda>m.
               Inr (nthread n,
                    \<lparr>tlist = Some (l\<lparr>lhead := nnext n\<rparr>),
                     nodes = rt_node_deinit (lhead l) ((nodes L)(nnext n \<mapsto> m\<lparr>nprev := NULL\<rparr>))\<rparr>,
                    th(nthread n := (th (nthread n))\<lparr>list_node := NULL\<rparr>)))))"

text \<open>Removal of a node relinks its neighbours, or the list's ends where it has none.\<close>

definition unlink_next :: "rt_node \<Rightarrow> rt_list \<Rightarrow> rt_node heap \<Rightarrow> (rt_list \<times> rt_node heap) result" where
  "unlink_next n l h =
     (if nnext n \<noteq> NULL
      then bindr (load h (nnext n)) (\<lambda>m. Inr (l, h(nnext n \<mapsto> m\<lparr>nprev := nprev n\<rparr>)))
      else Inr (l\<lparr>ltail := nprev n\<rparr>, h))"

definition unlink_prev :: "rt_node \<Rightarrow> rt_list \<Rightarrow> rt_node heap \<Rightarrow> (rt_list \<times> rt_node heap) result" where
  "unlink_prev n l h =
     (if nprev n \<noteq> NULL
      then bindr (load h (nprev n)) (\<lambda>m. Inr (l, h(nprev n \<mapsto> m\<lparr>nnext := nnext n\<rparr>)))
      else Inr (l\<lparr>lhead := nnext n\<rparr>, h))"

definition rt_list_remove :: "ptr \<Rightarrow> list_state \<Rightarrow> (ptr \<times> list_state) result" where
  "rt_list_remove p L =
     bindr (load (nodes L) p) (\<lambda>n.
       case tlist L of
         None \<Rightarrow> Inl NullDeref
       | Some l \<Rightarrow>
           bindr (unlink_next n l (nodes L)) (\<lambda>(l1, h1).
           bindr (unlink_prev n l1 h1) (\<lambda>(l2, h2).
           Inr (nthread n, \<lparr>tlist = Some l2, nodes = rt_node_deinit p h2\<rparr>))))"

text \<open>
  The loops that walk the list: they return when the chain from \<open>n\<close> ends, so \<open>None\<close> stands
  for a walk around a cycle.
\<close>

partial_function (option) map_loop ::
  "(ptr \<Rightarrow> 's \<Rightarrow> 's) \<Rightarrow> rt_node heap \<Rightarrow> ptr \<Rightarrow> 's \<Rightarrow> 's result option" where
  "map_loop func h n priv =
     (if n = NULL then Some (Inr priv)
      else case load h n of
             Inl e \<Rightarrow> Some (Inl e)
           | Inr nd \<Rightarrow> map_loop func h (nnext nd) (func (nthread nd) priv))"

definition rt_list_map :: "(ptr \<Rightarrow> 's \<Rightarrow> 's) \<Rightarrow> list_state \<Rightarrow> 's \<Rightarrow> 's result option" where
  "rt_list_map func L priv =
     (case tlist L of None \<Rightarrow> Some (Inl NullDeref) | Some l \<Rightarrow> map_loop func (nodes L) (lhead l) priv)"

partial_function (option) search_loop :: "ptr \<Rightarrow> rt_node heap \<Rightarrow> ptr \<Rightarrow> ptr result option" where
  "search_loop t h n =
     (if n = NULL then Some (Inr NULL)
      else case load h n of
             Inl e \<Rightarrow> Some (Inl e)
           | Inr nd \<Rightarrow> if nthread nd = t then Some (Inr n) else search_loop t h (nnext nd))"

definition rt_list_remove_search :: "ptr \<Rightarrow> list_state \<Rightarrow> (ptr \<times> list_state) result option" where
  "rt_list_remove_search t L =
     (case tlist L of
        None \<Rightarrow> Some (Inl NullDeref)
      | Some l \<Rightarrow>
          (case search_loop t (nodes L) (lhead l) of
             None \<Rightarrow> None
           | Some (Inl e) \<Rightarrow> Some (Inl e)
           | Some (Inr n) \<Rightarrow> if n = NULL then Some (Inr (NULL, L)) else Some (rt_list_remove n L)))"

partial_function (option) deinit_loop :: "rt_node heap \<Rightarrow> ptr \<Rightarrow> rt_node heap result option" where
  "deinit_loop h cur =
     (if cur = NULL then Some (Inr h)
      else case load h cur of
             Inl e \<Rightarrow> Some (Inl e)
           | Inr nd \<Rightarrow> deinit_loop (rt_node_deinit cur h) (nnext nd))"

definition rt_list_deinit :: "list_state \<Rightarrow> list_state result option" where
  "rt_list_deinit L =
     (case tlist L of
        None \<Rightarrow> Some (Inl NullDeref)
      | Some l \<Rightarrow>
          (case deinit_loop (nodes L) (lhead l) of
             None \<Rightarrow> None
           | Some (Inl e) \<Rightarrow> Some (Inl e)
           | Some (Inr h) \<Rightarrow> Some (Inr \<lparr>tlist = None, nodes = h\<rparr>)))"

section \<open>Linked segments\<close>

definition firstp :: "ptr list \<Rightarrow> ptr \<Rightarrow> ptr" where
  "firstp xs q = (case xs of [] \<Rightarrow> q | x # _ \<Rightarrow> x)"

definition lastp :: "ptr \<Rightarrow> ptr list \<Rightarrow> ptr" where
  "lastp p xs = (if xs = [] then p else last xs)"

lemma firstp_simps [simp]:
  "firstp [] q = q" "firstp (x # xs) q = x" "firstp (xs @ y # ys) q = firstp xs y"
  by (simp_all add: firstp_def split: list.splits)

lemma lastp_simps [simp]: "lastp p [] = p" "lastp p (x # xs) = lastp x xs" "lastp p (xs @ [y]) = y"
  by (simp_all add: lastp_def)

primrec seg :: "rt_node heap \<Rightarrow> ptr \<Rightarrow> ptr list \<Rightarrow> ptr \<Rightarrow> bool" where
  "seg h p [] q \<longleftrightarrow> True"
| "seg h p (x # xs) q \<longleftrightarrow>
     x \<noteq> NULL \<and>
     (case h x of None \<Rightarrow> False | Some n \<Rightarrow> nprev n = p \<and> nnext n = firstp xs q) \<and> seg h x xs q"

lemma seg_append: "seg h p (xs @ ys) q \<longleftrightarrow> seg h p xs (firstp ys q) \<and> seg h (lastp p xs) ys q"
proof (induction xs arbitrary: p)
  case (Cons x xs)
  then show ?case by (cases xs; cases ys) (auto simp: split: option.splits)
qed simp

lemma seg_cong: "(\<And>x. x \<in> set xs \<Longrightarrow> h x = h' x) \<Longrightarrow> seg h p xs q = seg h' p xs q"
  by (induction xs arbitrary: p) (auto split: option.splits)

lemma seg_live: "seg h p xs q \<Longrightarrow> x \<in> set xs \<Longrightarrow> x \<noteq> NULL \<and> h x \<noteq> None"
  by (induction xs arbitrary: p) (auto split: option.splits)

text \<open>Changing the forward end and the backward end of a segment.\<close>

lemma seg_relink_end:
  assumes "seg h p xs q" "distinct xs" "xs \<noteq> []" "h (last xs) = Some n"
  shows "seg (h(last xs \<mapsto> n\<lparr>nnext := q'\<rparr>)) p xs q'"
proof -
  obtain ys y where xs: "xs = ys @ [y]" using assms(3) by (metis append_butlast_last_id)
  with assms have "seg h p ys y" "seg h (lastp p ys) [y] q" "y \<notin> set ys"
    by (auto simp: seg_append)
  moreover have "seg (h(y \<mapsto> n\<lparr>nnext := q'\<rparr>)) p ys y = seg h p ys y"
    using \<open>y \<notin> set ys\<close> by (intro seg_cong) auto
  ultimately show ?thesis using assms(4) by (simp add: xs seg_append)
qed

lemma seg_relink_start:
  assumes "seg h p (x # xs) q" "distinct (x # xs)" "h x = Some n"
  shows "seg (h(x \<mapsto> n\<lparr>nprev := p'\<rparr>)) p' (x # xs) q"
proof -
  have "seg (h(x \<mapsto> n\<lparr>nprev := p'\<rparr>)) x xs q = seg h x xs q"
    using assms(2) by (intro seg_cong) auto
  with assms show ?thesis by simp
qed

section \<open>Well-formed lists\<close>

definition list_wf :: "list_state \<Rightarrow> ptr list \<Rightarrow> bool" where
  "list_wf L xs \<longleftrightarrow>
     distinct xs \<and> seg (nodes L) NULL xs NULL \<and>
     tlist L = Some \<lparr>lhead = firstp xs NULL, ltail = lastp NULL xs\<rparr>"

definition threads_of :: "list_state \<Rightarrow> ptr list \<Rightarrow> ptr list" where
  "threads_of L xs = map (\<lambda>x. nthread (the (nodes L x))) xs"

lemma list_wf_init: "rt_list_init True = Some l \<Longrightarrow> list_wf \<lparr>tlist = Some l, nodes = h\<rparr> []"
  by (auto simp: list_wf_def rt_list_init_def)

lemma lastp_in: "xs \<noteq> [] \<Longrightarrow> lastp p xs \<in> set xs"
  by (simp add: lastp_def)

lemma enqueue_wf:
  assumes wf: "list_wf L xs" and a: "a \<noteq> NULL" "a \<notin> set xs"
  shows "\<exists>L'. rt_list_enqueue a t L th = Inr (0, L', th(t := (th t)\<lparr>list_node := a\<rparr>)) \<and>
    list_wf L' (xs @ [a]) \<and> threads_of L' (xs @ [a]) = threads_of L xs @ [t]"
proof (cases "xs = []")
  case True
  with wf a show ?thesis
    by (auto simp: rt_list_enqueue_def list_wf_def threads_of_def rt_node_init_def)
next
  case False
  let ?nd = "\<lparr>nthread = t, nnext = NULL, nprev = last xs\<rparr>"
  have s: "seg (nodes L) NULL xs NULL" "distinct xs" "tlist L = Some \<lparr>lhead = firstp xs NULL, ltail = last xs\<rparr>"
    using wf False by (simp_all add: list_wf_def lastp_def)
  have last: "last xs \<in> set xs" "last xs \<noteq> a" using False a by auto
  then obtain n where n: "nodes L (last xs) = Some n" "last xs \<noteq> NULL"
    using seg_live [OF s(1)] by blast
  have hd: "firstp xs NULL \<noteq> NULL" using False s(1) by (cases xs) auto
  let ?h = "(nodes L)(a \<mapsto> ?nd)" and ?h' = "(nodes L)(a \<mapsto> ?nd, last xs \<mapsto> n\<lparr>nnext := a\<rparr>)"
  have "seg ?h NULL xs NULL" using s(1) a by (subst seg_cong [of xs _ "nodes L"]) auto
  then have "seg ?h' NULL xs a"
    using seg_relink_end [of ?h NULL xs NULL n a] s(2) False n last by simp
  then have "seg ?h' NULL (xs @ [a]) NULL" using a last False by (simp add: seg_append lastp_def)
  moreover have "map (\<lambda>x. nthread (the (?h' x))) xs = map (\<lambda>x. nthread (the (nodes L x))) xs"
    using a n by auto
  moreover have "rt_list_enqueue a t L th =
      Inr (0, \<lparr>tlist = Some \<lparr>lhead = firstp xs NULL, ltail = a\<rparr>, nodes = ?h'\<rparr>,
        th(t := (th t)\<lparr>list_node := a\<rparr>))"
    using s(3) hd n a last by (simp add: rt_list_enqueue_def rt_node_init_def Let_def)
  moreover have "firstp (xs @ [a]) NULL = firstp xs NULL" using False by (cases xs) auto
  ultimately show ?thesis
    using s(2) a last by (simp add: list_wf_def threads_of_def del: firstp_simps)
qed

text \<open>Both neighbours of the removed node are relinked to each other.\<close>

lemma unlink_next_spec:
  assumes "seg h p bs NULL" "distinct bs" "nnext n = firstp bs NULL" "nprev n = p'"
  shows "\<exists>h'. unlink_next n l h = Inr (if bs = [] then l\<lparr>ltail := p'\<rparr> else l, h') \<and>
    seg h' p' bs NULL \<and> (\<forall>x. x \<notin> set bs \<longrightarrow> h' x = h x) \<and>
    (\<forall>x \<in> set bs. nthread (the (h' x)) = nthread (the (h x)))"
proof (cases bs)
  case Nil
  with assms show ?thesis by (simp add: unlink_next_def)
next
  case (Cons b cs)
  with assms(1) obtain m where m: "h b = Some m" "b \<noteq> NULL" by (auto split: option.splits)
  with Cons assms(3,4) have "unlink_next n l h = Inr (l, h(b \<mapsto> m\<lparr>nprev := p'\<rparr>))"
    by (simp add: unlink_next_def)
  with Cons m seg_relink_start [of h p b cs NULL m p'] assms(1,2) show ?thesis by auto
qed

lemma unlink_prev_spec:
  assumes "seg h NULL as q" "distinct as" "nprev n = lastp NULL as" "nnext n = q'"
  shows "\<exists>h'. unlink_prev n l h = Inr (if as = [] then l\<lparr>lhead := q'\<rparr> else l, h') \<and>
    seg h' NULL as q' \<and> (\<forall>x. x \<notin> set as \<longrightarrow> h' x = h x) \<and>
    (\<forall>x \<in> set as. nthread (the (h' x)) = nthread (the (h x)))"
proof (cases "as = []")
  case True
  with assms show ?thesis by (simp add: unlink_prev_def)
next
  case False
  then have p: "nprev n = last as" "last as \<in> set as" using assms(3) by (simp_all add: lastp_def)
  with assms(1) obtain m where m: "h (last as) = Some m" "last as \<noteq> NULL"
    using seg_live by blast
  with p assms(4) have "unlink_prev n l h = Inr (l, h(last as \<mapsto> m\<lparr>nnext := q'\<rparr>))"
    by (simp add: unlink_prev_def)
  with False m p seg_relink_end [OF assms(1,2) False m(1)] show ?thesis by auto
qed

lemma remove_wf:
  assumes wf: "list_wf L (as @ p # bs)"
  shows "\<exists>L'. rt_list_remove p L = Inr (nthread (the (nodes L p)), L') \<and>
    list_wf L' (as @ bs) \<and> threads_of L' (as @ bs) = threads_of L (as @ bs) \<and> nodes L' p = None"
proof -
  let ?h = "nodes L"
  have d: "distinct as" "distinct bs" "p \<notin> set as" "p \<notin> set bs" "set as \<inter> set bs = {}"
    using wf by (auto simp: list_wf_def)
  have s: "seg ?h NULL as p" "seg ?h p bs NULL" "p \<noteq> NULL"
    and l: "tlist L = Some \<lparr>lhead = firstp as p, ltail = lastp p bs\<rparr>"
    using wf by (auto simp: list_wf_def seg_append lastp_def)
  obtain n where n: "?h p = Some n" "nprev n = lastp NULL as" "nnext n = firstp bs NULL"
    using wf by (auto simp: list_wf_def seg_append split: option.splits)
  let ?l = "\<lparr>lhead = firstp as p, ltail = lastp p bs\<rparr>"
  obtain h1 where h1: "unlink_next n ?l ?h = Inr (if bs = [] then ?l\<lparr>ltail := lastp NULL as\<rparr> else ?l, h1)"
    "seg h1 (lastp NULL as) bs NULL" "\<forall>x. x \<notin> set bs \<longrightarrow> h1 x = ?h x"
    "\<forall>x \<in> set bs. nthread (the (h1 x)) = nthread (the (?h x))"
    using unlink_next_spec [OF s(2) d(2) n(3,2)] by blast
  let ?l1 = "if bs = [] then ?l\<lparr>ltail := lastp NULL as\<rparr> else ?l"
  have "seg h1 NULL as p" using s(1) h1(3) d(5) by (subst seg_cong [of as _ ?h]) auto
  then obtain h2 where h2: "unlink_prev n ?l1 h1 = Inr (if as = [] then ?l1\<lparr>lhead := firstp bs NULL\<rparr> else ?l1, h2)"
    "seg h2 NULL as (firstp bs NULL)" "\<forall>x. x \<notin> set as \<longrightarrow> h2 x = h1 x"
    "\<forall>x \<in> set as. nthread (the (h2 x)) = nthread (the (h1 x))"
    using unlink_prev_spec [OF _ d(1) n(2,3)] by blast
  let ?h3 = "h2(p := None)"
  have "seg ?h3 NULL as (firstp bs NULL)" using h2(2) d(3) by (subst seg_cong [of as _ h2]) auto
  moreover have "seg ?h3 (lastp NULL as) bs NULL"
    using h1(2) h2(3) d by (subst seg_cong [of bs _ h1]) auto
  ultimately have seg: "seg ?h3 NULL (as @ bs) NULL" by (simp add: seg_append)
  have th: "nthread (the (?h3 x)) = nthread (the (?h x))" if "x \<in> set (as @ bs)" for x
    using that d h1(3,4) h2(3,4) by (cases "x \<in> set as") auto
  let ?l2 = "\<lparr>lhead = firstp (as @ bs) NULL, ltail = lastp NULL (as @ bs)\<rparr>"
  have "(if as = [] then ?l1\<lparr>lhead := firstp bs NULL\<rparr> else ?l1) = ?l2"
    by (cases as; cases bs rule: rev_cases) (auto simp: lastp_def)
  with h1(1) h2(1) n s(3) l have
    "rt_list_remove p L = Inr (nthread n, \<lparr>tlist = Some ?l2, nodes = ?h3\<rparr>)"
    by (simp add: rt_list_remove_def rt_node_deinit_def)
  with seg th d n show ?thesis by (auto simp: list_wf_def threads_of_def)
qed

section \<open>The walks\<close>

lemma map_loop_spec:
  "seg h p xs NULL \<Longrightarrow>
    map_loop func h (firstp xs NULL) s = Some (Inr (fold func (map (\<lambda>x. nthread (the (h x))) xs) s))"
proof (induction xs arbitrary: p s)
  case Nil
  then show ?case by (simp add: map_loop.simps)
next
  case (Cons x xs)
  then obtain n where "h x = Some n" "x \<noteq> NULL" "nnext n = firstp xs NULL" "seg h x xs NULL"
    by (auto split: option.splits)
  with Cons.IH [of x] show ?case by (simp add: map_loop.simps [of func h x])
qed

lemma list_map_spec: "list_wf L xs \<Longrightarrow> rt_list_map func L s = Some (Inr (fold func (threads_of L xs) s))"
  by (auto simp: rt_list_map_def list_wf_def threads_of_def intro: map_loop_spec)

lemma search_loop_spec:
  "seg h p xs NULL \<Longrightarrow>
    search_loop t h (firstp xs NULL) =
      Some (Inr (case find (\<lambda>x. nthread (the (h x)) = t) xs of None \<Rightarrow> NULL | Some x \<Rightarrow> x))"
proof (induction xs arbitrary: p)
  case Nil
  then show ?case by (simp add: search_loop.simps)
next
  case (Cons x xs)
  then obtain n where "h x = Some n" "x \<noteq> NULL" "nnext n = firstp xs NULL" "seg h x xs NULL"
    by (auto split: option.splits)
  with Cons.IH [of x] show ?case by (simp add: search_loop.simps [of t h x])
qed

lemma deinit_loop_spec:
  "\<lbrakk>seg h p xs NULL; distinct xs\<rbrakk> \<Longrightarrow>
    deinit_loop h (firstp xs NULL) = Some (Inr (\<lambda>x. if x \<in> set xs then None else h x))"
proof (induction xs arbitrary: p h)
  case Nil
  then show ?case by (simp add: deinit_loop.simps)
next
  case (Cons x xs)
  then obtain n where n: "h x = Some n" "x \<noteq> NULL" "nnext n = firstp xs NULL" "seg h x xs NULL"
    by (auto split: option.splits)
  have s: "seg (h(x := None)) x xs NULL" using n(4) Cons.prems(2) by (subst seg_cong [of xs _ h]) auto
  have "deinit_loop (h(x := None)) (firstp xs NULL) = Some (Inr (\<lambda>y. if y \<in> set xs then None else (h(x := None)) y))"
    by (rule Cons.IH [OF s]) (use Cons.prems(2) in simp)
  moreover have "(\<lambda>y. if y \<in> set xs then None else (h(x := None)) y) = (\<lambda>y. if y \<in> set (x # xs) then None else h y)"
    by auto
  ultimately show ?case
    using n by (simp add: deinit_loop.simps [of h x] rt_node_deinit_def)
qed

section \<open>Properties\<close>

definition sample_list :: list_state where
  "sample_list = \<lparr>tlist = Some \<lparr>lhead = 100, ltail = 300\<rparr>,
     nodes = [100 \<mapsto> \<lparr>nthread = 1, nnext = 200, nprev = 0\<rparr>,
              200 \<mapsto> \<lparr>nthread = 2, nnext = 300, nprev = 100\<rparr>,
              300 \<mapsto> \<lparr>nthread = 3, nnext = 0, nprev = 200\<rparr>]\<rparr>"

lemma sample_list_wf: "list_wf sample_list [100, 200, 300]" "threads_of sample_list [100, 200, 300] = [1, 2, 3]"
  by (simp_all add: list_wf_def sample_list_def threads_of_def)

text \<open>
  Registering a thread and later removing its node undoes the registration: the enqueue
  appends the thread at the tail and stores the node in the thread, and removing that node, from
  whatever position it then has, returns the thread and gives back a well-formed list of the same
  nodes and threads, with the node freed.
\<close>
lemma list_enqueue_remove:
  assumes "list_wf L xs" "a \<noteq> NULL" "a \<notin> set xs"
  shows "\<exists>L1 th1 L2. rt_list_enqueue a t L th = Inr (0, L1, th1) \<and> list_node (th1 t) = a \<and>
    list_wf L1 (xs @ [a]) \<and> threads_of L1 (xs @ [a]) = threads_of L xs @ [t] \<and>
    rt_list_remove (list_node (th1 t)) L1 = Inr (t, L2) \<and>
    list_wf L2 xs \<and> threads_of L2 xs = threads_of L xs \<and> nodes L2 a = None"
proof -
  obtain L1 where L1: "rt_list_enqueue a t L th = Inr (0, L1, th(t := (th t)\<lparr>list_node := a\<rparr>))"
    "list_wf L1 (xs @ [a])" "threads_of L1 (xs @ [a]) = threads_of L xs @ [t]"
    using enqueue_wf [OF assms] by blast
  moreover have "nthread (the (nodes L1 a)) = t" "threads_of L1 xs = threads_of L xs"
    using L1(3) by (simp_all add: threads_of_def)
  moreover obtain L2 where "rt_list_remove a L1 = Inr (nthread (the (nodes L1 a)), L2)"
    "list_wf L2 xs" "threads_of L2 xs = threads_of L1 xs" "nodes L2 a = None"
    using remove_wf [of L1 xs a "[]"] L1(2) by auto
  ultimately show ?thesis by auto
qed

lemma list_enqueue_remove_witness:
  "\<exists>L1 th1 L2. rt_list_enqueue 400 4 sample_list (\<lambda>_. zero_rt_thread) = Inr (0, L1, th1) \<and>
    threads_of L1 [100, 200, 300, 400] = [1, 2, 3, 4] \<and>
    rt_list_remove (list_node (th1 4)) L1 = Inr (4, L2) \<and> list_wf L2 [100, 200, 300]"
  using list_enqueue_remove [OF sample_list_wf(1), of 400 4 "\<lambda>_. zero_rt_thread"]
  by (auto simp: sample_list_wf(2))

text \<open>
  C34. Removal by search works from every position of the list: if the list holds the thread, the
  search ends, the first node of the thread is unlinked, its neighbours are joined and the other
  threads keep their order; if the list does not hold the thread, the search ends with NULL and
  the list as it was.
\<close>
theorem list_remove_search_takes_first:
  assumes "list_wf L xs"
  shows "if t \<in> set (threads_of L xs)
    then \<exists>L' ys. rt_list_remove_search t L = Some (Inr (t, L')) \<and> list_wf L' ys \<and>
      threads_of L' ys = remove1 t (threads_of L xs)
    else rt_list_remove_search t L = Some (Inr (NULL, L))"
proof -
  let ?g = "\<lambda>x. nthread (the (nodes L x))"
  have loop: "search_loop t (nodes L) (firstp xs NULL) =
      Some (Inr (case find (\<lambda>x. ?g x = t) xs of None \<Rightarrow> NULL | Some x \<Rightarrow> x))"
    using assms by (auto simp: list_wf_def intro: search_loop_spec)
  have l: "tlist L = Some \<lparr>lhead = firstp xs NULL, ltail = lastp NULL xs\<rparr>"
    using assms by (simp add: list_wf_def)
  show ?thesis
  proof (cases "find (\<lambda>x. ?g x = t) xs")
    case None
    then have "t \<notin> set (threads_of L xs)" by (auto simp: find_None_iff threads_of_def)
    with None loop l show ?thesis by (simp add: rt_list_remove_search_def)
  next
    case (Some p)
    then obtain i where i: "i < length xs" "xs ! i = p" "?g p = t" "\<forall>j < i. ?g (xs ! j) \<noteq> t"
      by (auto simp: find_Some_iff)
    let ?as = "take i xs" and ?bs = "drop (Suc i) xs"
    have xs: "xs = ?as @ p # ?bs" using i id_take_nth_drop by blast
    have "p \<in> set xs" using i(1,2) nth_mem by blast
    with assms have p: "p \<noteq> NULL" using seg_live by (auto simp: list_wf_def)
    have "?g x \<noteq> t" if "x \<in> set ?as" for x
      using that i(1,4) unfolding in_set_conv_nth by auto
    then have out: "t \<notin> ?g ` set ?as" by blast
    obtain L' where "rt_list_remove p L = Inr (t, L')" "list_wf L' (?as @ ?bs)"
      "threads_of L' (?as @ ?bs) = threads_of L (?as @ ?bs)"
      using remove_wf [of L ?as p ?bs] assms xs i(3) by auto
    moreover have "remove1 t (threads_of L xs) = threads_of L (?as @ ?bs)"
      using out i(3) by (subst xs) (simp add: threads_of_def remove1_append)
    moreover have "t \<in> set (threads_of L xs)" using i by (auto simp: threads_of_def)
    moreover have "rt_list_remove_search t L = Some (rt_list_remove p L)"
      using Some loop l p by (simp add: rt_list_remove_search_def)
    ultimately show ?thesis by auto
  qed
qed

theorem list_remove_search_takes_first_witness:
  "\<exists>L' ys. rt_list_remove_search 2 sample_list = Some (Inr (2, L')) \<and> list_wf L' ys \<and> threads_of L' ys = [1, 3]"
  using list_remove_search_takes_first [OF sample_list_wf(1), of 2] by (simp add: sample_list_wf(2))

text \<open>
  The two ways the list's ends go wrong. Dequeuing from a list of one thread follows the NULL
  link of its only node and faults. And when the allocation of a node fails on a nonempty list,
  the tail pointer is left NULL, so that the next enqueue faults although its allocation
  succeeds.
\<close>
lemma list_end_faults:
  assumes "list_wf L [x]" "list_wf M ys" "ys \<noteq> []" "a \<noteq> NULL"
  shows "rt_list_dequeue L th = Inl NullDeref \<and>
    (\<exists>M'. rt_list_enqueue NULL t M th = Inr (-1, M', th) \<and> rt_list_enqueue a u M' th = Inl NullDeref)"
proof -
  obtain n where "nodes L x = Some n" "nnext n = NULL" "x \<noteq> NULL" "tlist L = Some \<lparr>lhead = x, ltail = x\<rparr>"
    using assms(1) by (auto simp: list_wf_def split: option.splits)
  then have "rt_list_dequeue L th = Inl NullDeref" by (simp add: rt_list_dequeue_def)
  moreover have "firstp ys NULL \<noteq> NULL" using assms(2,3) by (cases ys) (auto simp: list_wf_def)
  ultimately show ?thesis
    using assms(2,4) by (simp add: list_wf_def rt_list_enqueue_def rt_node_init_def)
qed

lemma list_end_faults_witness:
  "rt_list_dequeue \<lparr>tlist = Some \<lparr>lhead = 100, ltail = 100\<rparr>,
      nodes = [100 \<mapsto> \<lparr>nthread = 1, nnext = 0, nprev = 0\<rparr>]\<rparr> (\<lambda>_. zero_rt_thread) = Inl NullDeref \<and>
   (\<exists>M'. rt_list_enqueue NULL 4 sample_list (\<lambda>_. zero_rt_thread) = Inr (-1, M', \<lambda>_. zero_rt_thread) \<and>
     rt_list_enqueue 400 5 M' (\<lambda>_. zero_rt_thread) = Inl NullDeref)"
  by (rule list_end_faults [of _ 100 _ "[100, 200, 300]"]) (simp_all add: sample_list_wf, simp add: list_wf_def)

end
