(* ===== verification/Admission.thy ===== *)
theory Admission
  imports Complex_Main Prio_Queue
begin

text \<open>
  Admission control (\<open>rt_thread_admit\<close> and its helpers in \<^verbatim>\<open>src/nautilus/scheduler.c\<close>): the
  utilisation of the queued real-time threads, the rate-monotonic limit, and the decision. All
  arithmetic is that of 64-bit words, divisions can trap. The lemmas relate the decision to exact
  rational utilisations when nothing overflows.
\<close>

section \<open>Resetting a thread\<close>

definition reset_state :: "rt_thread \<Rightarrow> rt_thread" where
  "reset_state t = t\<lparr>start_time := 0, cur_run_time := 0, run_time := 0, deadline := 0, exit_time := 0\<rparr>"

definition reset_stats :: "rt_thread \<Rightarrow> rt_thread" where
  "reset_stats t =
     t\<lparr>arrival_count := (if ctype (constraints t) = APERIODIC then 1 else 0),
       resched_count := 0, resched_long_count := 0, switch_in_count := 0,
       miss_count := 0, miss_time_sum := 0, miss_time_sum2 := 0\<rparr>"

section \<open>Utilisation of the queued threads\<close>

definition rms_levels :: "u64 list" where
  "rms_levels = [1000000, 828427, 779763, 756828, 743491, 734772, 728626, 724061,
                 720537, 717734, 715451, 713557, 711958, 710592, 709411, 708380]"

definition get_periodic_util_rms_limit :: "u64 \<Rightarrow> u64 result" where
  "get_periodic_util_rms_limit cnt =
     (if cnt > 16 then Inr 693147
      else if cnt = 0 then Inl OutOfBounds
      else Inr (rms_levels ! unat (cnt - 1)))"

definition pq_list :: "rt_priority_queue \<Rightarrow> ptr list" where
  "pq_list q = map (pq_threads q) [0..<pq_size q]"

text \<open>The two loops of each utilisation function; the accumulator is \<open>(*util, *count)\<close>.\<close>

fun periodic_util_loop :: "(ptr \<Rightarrow> rt_thread) \<Rightarrow> ptr list \<Rightarrow> u64 \<times> u64 \<Rightarrow> (u64 \<times> u64) result" where
  "periodic_util_loop th [] acc = Inr acc"
| "periodic_util_loop th (t # q) (util, cnt) =
     (let c = constraints (th t)
      in if ctype c = PERIODIC
         then bindr (udiv (periodic_slice c * UTIL_ONE) (periodic_period c)) (\<lambda>u.
              periodic_util_loop th q (util + u, cnt + 1))
         else periodic_util_loop th q (util, cnt))"

definition get_periodic_util :: "(ptr \<Rightarrow> rt_thread) \<Rightarrow> rt_scheduler \<Rightarrow> (u64 \<times> u64) result" where
  "get_periodic_util th s =
     bindr (periodic_util_loop th (pq_list (runnable s)) (0, 0)) (\<lambda>acc.
     periodic_util_loop th (pq_list (pending s)) acc)"

fun sporadic_runnable_loop ::
  "(ptr \<Rightarrow> rt_thread) \<Rightarrow> u64 \<Rightarrow> ptr list \<Rightarrow> u64 \<times> u64 \<Rightarrow> (u64 \<times> u64) result" where
  "sporadic_runnable_loop th now [] acc = Inr acc"
| "sporadic_runnable_loop th now (t # q) (util, cnt) =
     (let c = constraints (th t)
      in if ctype c = SPORADIC
         then bindr (udiv ((sporadic_size c - run_time (th t)) * UTIL_ONE) (sporadic_deadline c - now)) (\<lambda>u.
              sporadic_runnable_loop th now q (util + u, cnt + 1))
         else sporadic_runnable_loop th now q (util, cnt))"

fun sporadic_pending_loop ::
  "(ptr \<Rightarrow> rt_thread) \<Rightarrow> u64 \<Rightarrow> ptr list \<Rightarrow> u64 \<times> u64 \<Rightarrow> (u64 \<times> u64) result" where
  "sporadic_pending_loop th now [] acc = Inr acc"
| "sporadic_pending_loop th now (t # q) (util, cnt) =
     (let c = constraints (th t)
      in if ctype c = SPORADIC
         then bindr (udiv (sporadic_size c * UTIL_ONE) (sporadic_deadline c - now - sporadic_phase c)) (\<lambda>u.
              sporadic_pending_loop th now q (util + u, cnt + 1))
         else sporadic_pending_loop th now q (util, cnt))"

definition get_sporadic_util :: "(ptr \<Rightarrow> rt_thread) \<Rightarrow> rt_scheduler \<Rightarrow> u64 \<Rightarrow> (u64 \<times> u64) result" where
  "get_sporadic_util th s now =
     bindr (sporadic_runnable_loop th now (pq_list (runnable s)) (0, 0)) (\<lambda>acc.
     sporadic_pending_loop th now (pq_list (pending s)) acc)"

section \<open>The decision\<close>

definition admit_periodic ::
  "(ptr \<Rightarrow> rt_thread) \<Rightarrow> rt_scheduler \<Rightarrow> rt_thread \<Rightarrow> u64 \<Rightarrow> u64 \<Rightarrow> (int \<times> rt_thread) result" where
  "admit_periodic th s t per_res now =
     (let c = constraints t
      in bindr (udiv (periodic_slice c * UTIL_ONE) (periodic_period c)) (\<lambda>this_util.
         bindr (get_periodic_util th s) (\<lambda>(cur_util, cur_count).
         bindr (get_periodic_util_rms_limit (cur_count + 1)) (\<lambda>rms_limit.
         let our_limit = (if rms_limit < per_res then rms_limit else per_res)
         in if cur_util + this_util < our_limit
            then Inr (0, (reset_stats (reset_state t))\<lparr>deadline :=
                    (if periodic_start c < now then now + periodic_phase c
                     else periodic_start c + periodic_phase c)\<rparr>)
            else Inr (-1, t)))))"

definition admit_sporadic ::
  "(ptr \<Rightarrow> rt_thread) \<Rightarrow> rt_scheduler \<Rightarrow> rt_thread \<Rightarrow> u64 \<Rightarrow> u64 \<Rightarrow> (int \<times> rt_thread) result" where
  "admit_sporadic th s t spor_res now =
     (let c = constraints t
      in if now + sporadic_phase c + sporadic_size c \<ge> sporadic_deadline c then Inr (-1, t)
         else bindr (udiv (sporadic_size c * UTIL_ONE) (sporadic_deadline c - (now + periodic_phase c))) (\<lambda>this_util.
              bindr (get_sporadic_util th s now) (\<lambda>(cur_util, cur_count).
              if cur_util + this_util < spor_res
              then Inr (0, (reset_stats (reset_state t))\<lparr>deadline := now + sporadic_phase c\<rparr>)
              else Inr (-1, t))))"

definition rt_thread_admit ::
  "(ptr \<Rightarrow> rt_thread) \<Rightarrow> rt_scheduler \<Rightarrow> rt_thread \<Rightarrow> u64 \<Rightarrow> (int \<times> rt_thread) result" where
  "rt_thread_admit th s t now =
     (let aper_res = aperiodic_reservation (cfg s);
          spor_res = sporadic_reservation (cfg s);
          per_res = util_limit (cfg s) - aper_res - spor_res
      in if interrupt_priority_class (constraints t) > 0xe then Inr (-1, t)
         else case ctype (constraints t) of
                APERIODIC \<Rightarrow>
                  Inr (0, (reset_stats (reset_state t))\<lparr>deadline := aperiodic_priority (constraints t)\<rparr>)
              | PERIODIC \<Rightarrow> admit_periodic th s t per_res now
              | SPORADIC \<Rightarrow> admit_sporadic th s t spor_res now)"

section \<open>Period statistics\<close>

fun per_sum_loop :: "(ptr \<Rightarrow> rt_thread) \<Rightarrow> ptr list \<Rightarrow> u64 \<times> u64 \<Rightarrow> u64 \<times> u64" where
  "per_sum_loop th [] acc = acc"
| "per_sum_loop th (t # q) (sum_period, num_periodic) =
     (if ctype (constraints (th t)) = PERIODIC
      then per_sum_loop th q (sum_period + periodic_period (constraints (th t)), num_periodic + 1)
      else per_sum_loop th q (sum_period, num_periodic))"

text \<open>\<open>quantum\<close> is the configured quantum of the CPU the code runs on.\<close>

definition get_avg_per ::
  "(ptr \<Rightarrow> rt_thread) \<Rightarrow> rt_priority_queue \<Rightarrow> rt_priority_queue \<Rightarrow> rt_thread \<Rightarrow> u64 \<Rightarrow> u64 result" where
  "get_avg_per th run pend new_thread quantum =
     (let (s, n) = per_sum_loop th (pq_list pend) (per_sum_loop th (pq_list run) (0, 0));
          (s', n') = (if ctype (constraints new_thread) = PERIODIC
                      then (s + periodic_period (constraints new_thread), n + 1) else (s, n))
      in udiv (s' + quantum) (n' + 1))"

fun per_min_loop :: "(ptr \<Rightarrow> rt_thread) \<Rightarrow> ptr list \<Rightarrow> u64 \<Rightarrow> u64" where
  "per_min_loop th [] mn = mn"
| "per_min_loop th (t # q) mn =
     (if ctype (constraints (th t)) = PERIODIC
      then per_min_loop th q (if periodic_period (constraints (th t)) < mn
                              then periodic_period (constraints (th t)) else mn)
      else per_min_loop th q mn)"

definition get_min_per :: "(ptr \<Rightarrow> rt_thread) \<Rightarrow> rt_priority_queue \<Rightarrow> rt_priority_queue \<Rightarrow> u64" where
  "get_min_per th run pend = per_min_loop th (pq_list pend) (per_min_loop th (pq_list run) 0xFFFFFFFFFFFFFFFF)"

section \<open>Exact utilisations\<close>

text \<open>The periodic threads among the queued ones, and their utilisations as the code rounds them.\<close>

definition periodics :: "(ptr \<Rightarrow> rt_thread) \<Rightarrow> ptr list \<Rightarrow> nk_sched_constraints list" where
  "periodics th q = filter (\<lambda>c. ctype c = PERIODIC) (map (\<lambda>t. constraints (th t)) q)"

definition util_floor :: "nk_sched_constraints \<Rightarrow> nat" where
  "util_floor c = unat (periodic_slice c) * 1000000 div unat (periodic_period c)"

definition util_sum :: "nk_sched_constraints list \<Rightarrow> nat" where
  "util_sum cs = sum_list (map util_floor cs)"

text \<open>Parameters whose scaled slice fits a word and whose period is not zero.\<close>

definition sane_periodic :: "nk_sched_constraints \<Rightarrow> bool" where
  "sane_periodic c \<longleftrightarrow> periodic_period c \<noteq> 0 \<and> unat (periodic_slice c) * 1000000 < 2 ^ 64"

lemma udiv_util:
  assumes "sane_periodic c"
  shows "\<exists>u. udiv (periodic_slice c * UTIL_ONE) (periodic_period c) = Inr u \<and> unat u = util_floor c"
proof -
  have "unat (periodic_slice c * UTIL_ONE) = unat (periodic_slice c) * 1000000"
    using assms by (simp add: sane_periodic_def UTIL_ONE_def unat_word_ariths)
  then show ?thesis
    using assms by (simp add: udiv_def sane_periodic_def util_floor_def unat_div)
qed

lemma util_sum_simps [simp]:
  "util_sum [] = 0" "util_sum (c # cs) = util_floor c + util_sum cs"
  "util_sum (cs @ ds) = util_sum cs + util_sum ds"
  by (simp_all add: util_sum_def)

lemma periodics_simps [simp]:
  "periodics th [] = []"
  "periodics th (t # q) = (if ctype (constraints (th t)) = PERIODIC then [constraints (th t)] else []) @ periodics th q"
  "periodics th (q @ r) = periodics th q @ periodics th r"
  by (simp_all add: periodics_def)

lemma periodic_util_loop_spec:
  assumes "\<forall>c \<in> set (periodics th q). sane_periodic c"
    "unat util + util_sum (periodics th q) < 2 ^ 64" "unat cnt + length (periodics th q) < 2 ^ 64"
  shows "\<exists>u n. periodic_util_loop th q (util, cnt) = Inr (u, n) \<and>
    unat u = unat util + util_sum (periodics th q) \<and> unat n = unat cnt + length (periodics th q)"
  using assms
proof (induction q arbitrary: util cnt)
  case (Cons t q)
  let ?c = "constraints (th t)"
  show ?case
  proof (cases "ctype ?c = PERIODIC")
    case True
    then obtain v where v: "udiv (periodic_slice ?c * UTIL_ONE) (periodic_period ?c) = Inr v" "unat v = util_floor ?c"
      using udiv_util [of ?c] Cons.prems(1) by auto
    have w: "unat (util + v) = unat util + util_floor ?c" "unat (cnt + 1) = unat cnt + 1"
      using Cons.prems(2,3) v(2) True by (simp_all add: unat_word_ariths)
    show ?thesis
      using Cons.IH [of "util + v" "cnt + 1"] Cons.prems True v w by (auto simp: add.assoc)
  next
    case False
    then show ?thesis using Cons.IH [of util cnt] Cons.prems by auto
  qed
qed simp

definition queued_periodics :: "(ptr \<Rightarrow> rt_thread) \<Rightarrow> rt_scheduler \<Rightarrow> nk_sched_constraints list" where
  "queued_periodics th s = periodics th (pq_list (runnable s) @ pq_list (pending s))"

lemma get_periodic_util_spec:
  assumes "\<forall>c \<in> set (queued_periodics th s). sane_periodic c" "util_sum (queued_periodics th s) < 2 ^ 64"
    "length (queued_periodics th s) < 2 ^ 64"
  shows "\<exists>u n. get_periodic_util th s = Inr (u, n) \<and>
    unat u = util_sum (queued_periodics th s) \<and> unat n = length (queued_periodics th s)"
proof -
  let ?r = "periodics th (pq_list (runnable s))" and ?p = "periodics th (pq_list (pending s))"
  have q: "queued_periodics th s = ?r @ ?p" by (simp add: queued_periodics_def)
  obtain u n where un: "periodic_util_loop th (pq_list (runnable s)) (0, 0) = Inr (u, n)"
    "unat u = util_sum ?r" "unat n = length ?r"
    using periodic_util_loop_spec [of th "pq_list (runnable s)" 0 0] assms q by auto
  obtain u' n' where "periodic_util_loop th (pq_list (pending s)) (u, n) = Inr (u', n')"
    "unat u' = unat u + util_sum ?p" "unat n' = unat n + length ?p"
    using periodic_util_loop_spec [of th "pq_list (pending s)" u n] assms q un by auto
  with un q show ?thesis by (simp add: get_periodic_util_def)
qed

section \<open>The rate-monotonic table\<close>

text \<open>
  \<open>tight n L\<close>: in units of a millionth, \<open>L\<close> is the integer part of the Liu-Layland bound
  \<open>n (2 ^ (1/n) - 1)\<close>, stated without roots.
\<close>

definition tight :: "nat \<Rightarrow> nat \<Rightarrow> bool" where
  "tight n L \<longleftrightarrow> (n * 1000000 + L) ^ n \<le> 2 * (n * 1000000) ^ n \<and> 2 * (n * 1000000) ^ n < (n * 1000000 + L + 1) ^ n"

lemma unat_levels: "map unat rms_levels = [1000000, 828427, 779763, 756828, 743491, 734772, 728626, 724061,
                 720537, 717734, 715451, 713557, 711958, 710592, 709411, 708380]"
  unfolding rms_levels_def by (simp only: list.map unat_numeral) simp

lemma upt17: "[1..<17] = [1,2,3,4,5,6,7,8,9,10,11,12,13,14,15,16]"
  by (simp add: upt_conv_Cons)

lemma tight_facts:
  "tight 1 1000000"
  "tight 2 828427"
  "tight 3 779763"
  "tight 4 756828"
  "tight 5 743491"
  "tight 6 734772"
  "tight 7 728626"
  "tight 8 724061"
  "tight 9 720537"
  "tight 10 717734"
  "tight 11 715451"
  "tight 12 713557"
  "tight 13 711958"
  "tight 14 710592"
  "tight 15 709411"
  "tight 16 708380"
  by (simp_all add: tight_def)

lemma tight_levels: "list_all2 tight [1..<17] (map unat rms_levels)"
  unfolding unat_levels upt17 by (simp only: list_all2_Cons list_all2_Nil tight_facts simp_thms)

lemma tight_real:
  assumes "tight n L" "0 < n"
  shows "real L \<le> 1000000 * (real n * (2 powr (1 / real n) - 1)) \<and> 1000000 * (real n * (2 powr (1 / real n) - 1)) < real L + 1"
proof -
  have r: "((x :: real) ^ n) powr (1 / real n) = x" if "0 < x" for x
    using that assms(2) by (simp add: powr_powr flip: powr_realpow)
  let ?N = "real n * 1000000"
  have N: "0 < ?N" using assms(2) by simp
  have "real (n * 1000000 + k) = ?N * (1 + real k / ?N)" for k
    using N by (simp add: field_simps)
  then have p: "real ((n * 1000000 + k) ^ n) = (?N * (1 + real k / ?N)) ^ n" "real (2 * (n * 1000000) ^ n) = 2 * ?N ^ n" for k
    by (simp_all only: of_nat_power of_nat_mult of_nat_numeral)
  have "(?N * (1 + real L / ?N)) ^ n \<le> 2 * ?N ^ n"
    using assms(1) unfolding tight_def p [symmetric] by (simp only: of_nat_le_iff)
  then have "(1 + real L / ?N) ^ n \<le> 2" using N by (simp only: power_mult_distrib) (simp add: field_simps)
  then have "((1 + real L / ?N) ^ n) powr (1 / real n) \<le> 2 powr (1 / real n)"
    using N by (intro powr_mono2) auto
  then have lo: "1 + real L / ?N \<le> 2 powr (1 / real n)" using r [of "1 + real L / ?N"] N by (simp add: add_pos_nonneg)
  have "2 * ?N ^ n < (?N * (1 + real (L + 1) / ?N)) ^ n"
    using assms(1) unfolding tight_def p [symmetric] add.assoc by (simp only: of_nat_less_iff)
  then have "2 < (1 + real (L + 1) / ?N) ^ n" using N by (simp only: power_mult_distrib) (simp add: field_simps)
  then have "2 powr (1 / real n) < ((1 + real (L + 1) / ?N) ^ n) powr (1 / real n)"
    using N assms(2) by (intro powr_less_mono2) auto
  then have hi: "2 powr (1 / real n) < 1 + real (L + 1) / ?N" using r [of "1 + real (L + 1) / ?N"] N by (simp add: add_pos_nonneg)
  show ?thesis using lo hi N by (simp add: field_simps)
qed

lemma exp_limit: "exp (693147 / 1000000) \<le> (2 :: real)"
proof -
  let ?x = "693147 / 1000000 :: real"
  obtain t where t: "\<bar>t\<bar> \<le> \<bar>?x\<bar>" "exp ?x = (\<Sum>m < 12. ?x ^ m / fact m) + exp t / fact 12 * ?x ^ 12"
    using Maclaurin_exp_le [of ?x 12] by blast
  have "exp t \<le> exp 1" using t(1) by simp
  also have "\<dots> \<le> 3" by (rule exp_le)
  finally have "exp t / fact 12 * ?x ^ 12 \<le> 3 / fact 12 * ?x ^ 12"
    by (intro mult_right_mono divide_right_mono) auto
  moreover have "(\<Sum>m < 12. ?x ^ m / fact m) + 3 / fact 12 * ?x ^ 12 \<le> 2"
    by (simp add: lessThan_nat_numeral lessThan_Suc fact_numeral power_divide)
  ultimately show ?thesis using t(2) by linarith
qed

lemma limit_below_bound:
  assumes "0 < n"
  shows "693147 \<le> 1000000 * (real n * (2 powr (1 / real n) - 1))"
proof -
  let ?x = "693147 / 1000000 :: real"
  have "(1 + ?x / real n) ^ n \<le> exp ?x"
    using assms by (intro exp_ge_one_plus_x_over_n_power_n) auto
  with exp_limit have "(1 + ?x / real n) ^ n \<le> 2" by linarith
  then have "((1 + ?x / real n) ^ n) powr (1 / real n) \<le> 2 powr (1 / real n)"
    by (intro powr_mono2) auto
  moreover have "((1 + ?x / real n) ^ n) powr (1 / real n) = 1 + ?x / real n"
    using assms by (simp add: powr_powr add_pos_nonneg flip: powr_realpow)
  ultimately have "?x / real n \<le> 2 powr (1 / real n) - 1" by linarith
  then show ?thesis using assms by (simp add: field_simps)
qed

lemma rms_level_tight:
  assumes "n \<noteq> 0" "n \<le> 16"
  shows "get_periodic_util_rms_limit n = Inr (rms_levels ! unat (n - 1)) \<and>
    tight (unat n) (unat (rms_levels ! unat (n - 1)))"
proof -
  have n: "unat (n - 1) = unat n - 1" "0 < unat n" "unat n \<le> 16"
    using assms by (auto simp: unat_minus_one unat_gt_0 word_le_nat_alt)
  have len: "length rms_levels = 16" by (simp add: rms_levels_def)
  from n have "tight ([1..<17] ! (unat n - 1)) (map unat rms_levels ! (unat n - 1))"
    by (intro list_all2_nthD [OF tight_levels]) simp
  then have "tight (unat n) (unat (rms_levels ! (unat n - 1)))"
    using n len by (simp del: upt_Suc)
  with n assms(1) leD [OF assms(2)] show ?thesis by (simp add: get_periodic_util_rms_limit_def)
qed

lemma rms_limit_le:
  assumes "n \<noteq> 0"
  shows "\<exists>L. get_periodic_util_rms_limit n = Inr L \<and> unat L \<le> 1000000"
proof (cases "n \<le> 16")
  case True
  have "\<forall>x \<in> set (map unat rms_levels). x \<le> 1000000" unfolding unat_levels by simp
  moreover have "unat (n - 1) < length rms_levels"
    using assms True by (simp add: rms_levels_def unat_minus_one word_le_nat_alt unat_gt_0)
  ultimately show ?thesis using rms_level_tight [OF assms True] by simp
next
  case False
  then show ?thesis by (simp add: get_periodic_util_rms_limit_def not_le)
qed

section \<open>The decision in exact arithmetic\<close>

definition per_res :: "nk_sched_config \<Rightarrow> u64" where
  "per_res c = util_limit c - aperiodic_reservation c - sporadic_reservation c"

definition admitted :: "rt_thread \<Rightarrow> u64 \<Rightarrow> rt_thread" where
  "admitted t d = (reset_stats (reset_state t))\<lparr>deadline := d\<rparr>"

lemma div_real:
  assumes "0 < p"
  shows "real s / real p * 1000000 < real (s * 1000000 div p) + 1"
proof -
  have "s * 1000000 < (s * 1000000 div p + 1) * p"
    using assms by (metis add.commute dividend_less_div_times mult.commute mult_Suc plus_1_eq_Suc)
  then have "real (s * 1000000) < real ((s * 1000000 div p + 1) * p)"
    by (simp only: of_nat_less_iff)
  then show ?thesis using assms by (simp add: field_simps)
qed

lemma util_real: "sane_periodic c \<Longrightarrow>
    real (unat (periodic_slice c)) / real (unat (periodic_period c)) * 1000000 < real (util_floor c) + 1"
  unfolding util_floor_def by (rule div_real) (simp add: sane_periodic_def unat_gt_0)

definition utilisation :: "nk_sched_constraints list \<Rightarrow> real" where
  "utilisation cs = sum_list (map (\<lambda>c. real (unat (periodic_slice c)) / real (unat (periodic_period c))) cs)"

lemma utilisation_bound:
  "\<forall>c \<in> set cs. sane_periodic c \<Longrightarrow> utilisation cs * 1000000 \<le> real (util_sum cs) + real (length cs)"
proof (induction cs)
  case (Cons c cs)
  then have "utilisation cs * 1000000 \<le> real (util_sum cs) + real (length cs)" by simp
  with Cons.prems util_real [of c] show ?case unfolding utilisation_def by (simp add: distrib_right)
qed (simp add: utilisation_def)

lemma admit_periodic_exact:
  assumes "sane_periodic (constraints t)" "\<forall>c \<in> set (queued_periodics th s). sane_periodic c"
    "util_sum (constraints t # queued_periodics th s) < 2 ^ 64" "length (queued_periodics th s) < 2 ^ 63"
  shows "\<exists>L. get_periodic_util_rms_limit (of_nat (length (queued_periodics th s) + 1)) = Inr L \<and>
    admit_periodic th s t r now =
      Inr (if util_sum (constraints t # queued_periodics th s) < min (unat L) (unat r)
           then (0, admitted t ((if periodic_start (constraints t) < now then now else periodic_start (constraints t))
                                + periodic_phase (constraints t)))
           else (-1, t))"
proof -
  let ?c = "constraints t" and ?q = "queued_periodics th s"
  obtain v where v: "udiv (periodic_slice ?c * UTIL_ONE) (periodic_period ?c) = Inr v" "unat v = util_floor ?c"
    using udiv_util [OF assms(1)] by blast
  obtain u n where u: "get_periodic_util th s = Inr (u, n)" "unat u = util_sum ?q" "unat n = length ?q"
    using get_periodic_util_spec [OF assms(2)] assms(3,4) by auto
  have n1: "unat (n + 1) = length ?q + 1"
    using u(3) assms(4) by (simp add: unat_word_ariths)
  have "of_nat (unat (n + 1)) = n + 1" by simp
  then have n2: "n + 1 = of_nat (length ?q + 1)" unfolding n1 by (rule sym)
  from n1 have "n + 1 \<noteq> 0" by (metis add_is_0 one_neq_zero unat_0)
  then obtain L where L: "get_periodic_util_rms_limit (n + 1) = Inr L" using rms_limit_le by blast
  have "unat (u + v) = util_sum (?c # ?q)"
    using u(2) v(2) assms(3) by (simp add: unat_word_ariths)
  then have "(u + v < (if L < r then L else r)) = (util_sum (?c # ?q) < min (unat L) (unat r))"
    by (simp add: word_less_nat_alt min_def not_less)
  with u(1) v(1) L show ?thesis
    unfolding n2 by (intro exI [of _ L])
      (simp add: admit_periodic_def n2 admitted_def Let_def if_distribR del: util_sum_simps of_nat_Suc of_nat_add)
qed

lemma admit_periodic_cases:
  assumes "admit_periodic th s t r now = Inr (rc, t')"
  shows "(rc = 0 \<and> t' = admitted t ((if periodic_start (constraints t) < now then now
      else periodic_start (constraints t)) + periodic_phase (constraints t))) \<or> (rc = -1 \<and> t' = t)"
  using assms unfolding admit_periodic_def Let_def admitted_def
  by (auto simp only: bindr_eq_Inr prod.case_eq_if if_distribR split: if_splits)

lemma admit_sporadic_cases:
  assumes "admit_sporadic th s t r now = Inr (rc, t')"
  shows "(rc = 0 \<and> t' = admitted t (now + sporadic_phase (constraints t)) \<and>
      now + sporadic_phase (constraints t) + sporadic_size (constraints t) < sporadic_deadline (constraints t))
    \<or> (rc = -1 \<and> t' = t)"
  using assms unfolding admit_sporadic_def Let_def admitted_def
  by (auto simp: bindr_eq_Inr prod.case_eq_if not_le split: if_splits)

lemma admitted_fields [simp]:
  "constraints (admitted t d) = constraints t" "status (admitted t d) = status t"
  "run_time (admitted t d) = 0" "miss_count (admitted t d) = 0" "deadline (admitted t d) = d"
  by (simp_all add: admitted_def reset_state_def reset_stats_def)

section \<open>Properties\<close>

definition periodic_constraints :: "u64 \<Rightarrow> u64 \<Rightarrow> u64 \<Rightarrow> nk_sched_constraints" where
  "periodic_constraints a b c =
     \<lparr>ctype = PERIODIC, interrupt_priority_class = 0, word0 = a, word1 = b, word2 = c, word3 = 0\<rparr>"

text \<open>One queued periodic thread at 10 percent, and the reservations of the default configuration.\<close>

definition sample_threads :: "ptr \<Rightarrow> rt_thread" where
  "sample_threads = (\<lambda>_. zero_rt_thread\<lparr>constraints := periodic_constraints 0 1000000 100000\<rparr>)"

definition sample_sched :: rt_scheduler where
  "sample_sched = zero_rt_scheduler\<lparr>
     cfg := \<lparr>util_limit = 990000, sporadic_reservation = 100000, aperiodic_reservation = 100000,
             aperiodic_quantum = 100000000, aperiodic_default_priority = 100000000\<rparr>,
     runnable := \<lparr>pq_type = RUNNABLE_QUEUE, pq_size = 1, pq_threads = (\<lambda>_. 7)\<rparr>\<rparr>"

definition sample_new :: rt_thread where
  "sample_new = zero_rt_thread\<lparr>constraints := periodic_constraints 5000 1000000 200000, run_time := 77\<rparr>"

lemma sample_queued: "queued_periodics sample_threads sample_sched = [periodic_constraints 0 1000000 100000]"
  by (simp add: queued_periodics_def pq_list_def sample_sched_def sample_threads_def zero_rt_scheduler_def
      periodic_constraints_def)

lemma sample_sane: "sane_periodic (periodic_constraints f 1000000 100000)" "sane_periodic (periodic_constraints f 1000000 200000)"
  by (simp_all add: sane_periodic_def periodic_constraints_def constraint_words)

lemma sample_util: "util_floor (periodic_constraints f 1000000 100000) = 100000"
  "util_floor (periodic_constraints f 1000000 200000) = 200000"
  by (simp_all add: util_floor_def periodic_constraints_def constraint_words)

lemma sample_per_res: "per_res (cfg sample_sched) = 790000"
  by (simp add: per_res_def sample_sched_def)

lemma sample_new_constraints [simp]:
  "constraints sample_new = periodic_constraints 5000 1000000 200000"
  "ctype (periodic_constraints a b c) = PERIODIC"
  "interrupt_priority_class (periodic_constraints a b c) = 0"
  by (simp_all add: sample_new_def periodic_constraints_def)

lemma sample_admitted: "rt_thread_admit sample_threads sample_sched sample_new 50 = Inr (0, admitted sample_new 5050)"
proof -
  have "rt_thread_admit sample_threads sample_sched sample_new 50 =
      admit_periodic sample_threads sample_sched sample_new 790000 50"
    using sample_per_res by (simp add: rt_thread_admit_def Let_def per_res_def)
  moreover have "get_periodic_util_rms_limit 2 = Inr 828427"
    by (simp add: get_periodic_util_rms_limit_def rms_levels_def)
  moreover have "periodic_start (constraints sample_new) = 0" "periodic_phase (constraints sample_new) = 5000"
    by (simp_all add: constraint_words periodic_constraints_def)
  ultimately show ?thesis
    using admit_periodic_exact [of sample_new sample_threads sample_sched 790000 50]
    by (simp add: sample_queued sample_sane sample_util)
qed

text \<open>
  C10. The decision on a periodic thread is exact: if the parameters of the new thread and of the
  queued periodic threads are sane (no zero period, scaled slices and their sum within 64 bits),
  the request returns, and it is admitted exactly when the sum of the rounded utilisations,
  including the new one, is below both the rate-monotonic limit for that many threads and what
  the reservations leave. An admitted thread has its state and statistics reset and its first
  arrival set from the agreed start time, or from now if that has passed; a rejected thread is
  unchanged.
\<close>
theorem periodic_admission_exact:
  assumes "ctype (constraints t) = PERIODIC" "interrupt_priority_class (constraints t) \<le> 0xe"
    "sane_periodic (constraints t)" "\<forall>c \<in> set (queued_periodics th s). sane_periodic c"
    "util_sum (constraints t # queued_periodics th s) < 2 ^ 64" "length (queued_periodics th s) < 2 ^ 63"
  shows "\<exists>L. get_periodic_util_rms_limit (of_nat (length (queued_periodics th s) + 1)) = Inr L \<and>
    rt_thread_admit th s t now =
      Inr (if util_sum (constraints t # queued_periodics th s) < min (unat L) (unat (per_res (cfg s)))
           then (0, admitted t ((if periodic_start (constraints t) < now then now else periodic_start (constraints t))
                                + periodic_phase (constraints t)))
           else (-1, t))"
proof -
  have "rt_thread_admit th s t now = admit_periodic th s t (per_res (cfg s)) now"
    using assms(1) leD [OF assms(2)] by (simp add: rt_thread_admit_def per_res_def Let_def)
  with admit_periodic_exact [OF assms(3-6)] show ?thesis by simp
qed

theorem periodic_admission_exact_witness:
  "rt_thread_admit sample_threads sample_sched sample_new 50 = Inr (0, admitted sample_new 5050)"
proof -
  have "get_periodic_util_rms_limit 2 = Inr 828427"
    by (simp add: get_periodic_util_rms_limit_def rms_levels_def)
  moreover have "periodic_start (constraints sample_new) = 0" "periodic_phase (constraints sample_new) = 5000"
    by (simp_all add: constraint_words periodic_constraints_def)
  ultimately show ?thesis
    using periodic_admission_exact [of sample_new sample_threads sample_sched 50]
    by (simp add: sample_queued sample_sane sample_util sample_per_res)
qed

text \<open>
  C11. Admission bounds the load: if a periodic thread is admitted next to sane queued ones, the
  exact sum of slice over period of all of them, the new one included, is at most what the
  reservations leave plus one millionth per thread, the rounding error of the code's integer
  divisions.
\<close>
theorem admitted_load_bounded:
  assumes "ctype (constraints t) = PERIODIC" "sane_periodic (constraints t)"
    "\<forall>c \<in> set (queued_periodics th s). sane_periodic c"
    "util_sum (constraints t # queued_periodics th s) < 2 ^ 64" "length (queued_periodics th s) < 2 ^ 63"
    "rt_thread_admit th s t now = Inr (0, t')"
  shows "utilisation (constraints t # queued_periodics th s) \<le>
    (real (unat (per_res (cfg s))) + real (length (queued_periodics th s) + 1)) / 1000000"
proof -
  let ?cs = "constraints t # queued_periodics th s"
  have "rt_thread_admit th s t now = admit_periodic th s t (per_res (cfg s)) now"
    using assms(1,6) by (auto simp: rt_thread_admit_def per_res_def Let_def split: if_splits)
  then have "util_sum ?cs < unat (per_res (cfg s))"
    using admit_periodic_exact [OF assms(2-5), of "per_res (cfg s)" now] assms(6)
    by (auto split: if_splits simp del: util_sum_simps)
  then have "real (util_sum ?cs) \<le> real (unat (per_res (cfg s)))" by (simp only: of_nat_le_iff less_imp_le)
  moreover have "utilisation ?cs * 1000000 \<le> real (util_sum ?cs) + real (length ?cs)"
    using assms(2,3) by (intro utilisation_bound) simp
  moreover have "length ?cs = length (queued_periodics th s) + 1" by simp
  ultimately have "utilisation ?cs * 1000000 \<le>
      real (unat (per_res (cfg s))) + real (length (queued_periodics th s) + 1)" by linarith
  then show ?thesis by (simp only: pos_le_divide_eq zero_less_numeral)
qed

theorem admitted_load_bounded_witness:
  "utilisation [periodic_constraints 5000 1000000 200000, periodic_constraints 0 1000000 100000] \<le> 790002 / 1000000"
  using admitted_load_bounded [OF _ _ _ _ _ sample_admitted]
  by (simp add: sample_queued sample_sane sample_util sample_per_res)

text \<open>
  C33. The rate-monotonic limit is the Liu-Layland bound: for every count from one on, the limit
  the code returns, in millionths, is at most \<open>n (2 ^ (1/n) - 1)\<close>, and for up to sixteen threads
  it is exactly the integer part of that bound.
\<close>
theorem rms_limit_is_liu_layland:
  assumes "n \<noteq> 0"
  shows "\<exists>L. get_periodic_util_rms_limit n = Inr L \<and>
    real (unat L) \<le> 1000000 * (real (unat n) * (2 powr (1 / real (unat n)) - 1)) \<and>
    (n \<le> 16 \<longrightarrow> 1000000 * (real (unat n) * (2 powr (1 / real (unat n)) - 1)) < real (unat L) + 1)"
proof (cases "n \<le> 16")
  case True
  then show ?thesis
    using rms_level_tight [OF assms True] tight_real assms by (metis unat_gt_0)
next
  case False
  then have "get_periodic_util_rms_limit n = Inr 693147" by (simp add: get_periodic_util_rms_limit_def not_le)
  moreover have "real (unat (693147 :: u64)) = 693147" by simp
  ultimately show ?thesis
    using limit_below_bound [of "unat n"] assms False by (metis unat_gt_0)
qed

theorem rms_limit_is_liu_layland_witness:
  "\<exists>L. get_periodic_util_rms_limit 2 = Inr L \<and> real (unat L) \<le> 1000000 * (2 * (2 powr (1 / 2) - 1))"
  using rms_limit_is_liu_layland [of 2] by auto

text \<open>
  A periodic request with a zero period stops the kernel: the division in the admission test
  raises the divide error before any check.
\<close>
lemma zero_period_traps:
  assumes "ctype (constraints t) = PERIODIC" "interrupt_priority_class (constraints t) \<le> 0xe"
    "periodic_period (constraints t) = 0"
  shows "rt_thread_admit th s t now = Inl DivideError"
  using assms(1,3) leD [OF assms(2)] by (simp add: rt_thread_admit_def admit_periodic_def udiv_def Let_def)

lemma zero_period_traps_witness:
  "rt_thread_admit sample_threads sample_sched (sample_new\<lparr>constraints := periodic_constraints 0 0 5\<rparr>) 50 = Inl DivideError"
  by (rule zero_period_traps) (simp_all add: periodic_constraints_def constraint_words)

text \<open>
  The scaled slice overflows: a thread that asks for its whole period of 18446744073710
  nanoseconds, a little over five hours, is admitted on a CPU without periodic threads, whatever
  the reservations, because slice times one million wraps to 448384 and the computed utilisation
  is zero.
\<close>
lemma admission_overflow:
  assumes "queued_periodics th s = []" "per_res (cfg s) \<noteq> 0"
    "constraints t = periodic_constraints 0 18446744073710 18446744073710"
  shows "\<exists>t'. rt_thread_admit th s t now = Inr (0, t')"
proof -
  have u: "udiv (periodic_slice (constraints t) * UTIL_ONE) (periodic_period (constraints t)) = Inr 0"
    by (simp add: assms(3) periodic_constraints_def constraint_words UTIL_ONE_def udiv_def)
  have "get_periodic_util th s = Inr (0, 0)"
    using get_periodic_util_spec [of th s] by (auto simp: assms(1) unat_eq_zero)
  moreover have "get_periodic_util_rms_limit 1 = Inr 1000000"
    by (simp add: get_periodic_util_rms_limit_def rms_levels_def)
  moreover have "0 < (if 1000000 < per_res (cfg s) then 1000000 else per_res (cfg s))"
    using assms(2) by (simp add: word_neq_0_conv)
  moreover have "rt_thread_admit th s t now = admit_periodic th s t (per_res (cfg s)) now"
    by (simp add: rt_thread_admit_def per_res_def Let_def assms(3))
  ultimately show ?thesis using u by (simp add: admit_periodic_def Let_def)
qed

lemma admission_overflow_witness:
  "\<exists>t'. rt_thread_admit sample_threads (sample_sched\<lparr>runnable := runnable zero_rt_scheduler\<rparr>)
     (sample_new\<lparr>constraints := periodic_constraints 0 18446744073710 18446744073710\<rparr>) 50 = Inr (0, t')"
  by (rule admission_overflow)
    (simp_all add: queued_periodics_def pq_list_def zero_rt_scheduler_def sample_sched_def per_res_def)

text \<open>
  What admission does to the thread, for every kind of request: a refused thread is unchanged;
  an accepted one keeps its constraints and status, asks for at most interrupt class 14, has its
  run times and statistics cleared, and its deadline field holds the priority of an aperiodic
  thread or the first arrival of a real-time one. An accepted sporadic request can still meet its
  deadline when nothing wraps.
\<close>
lemma admission_effect:
  assumes "rt_thread_admit th s t now = Inr (rc, t')"
  shows "if rc = 0
    then (\<exists>d. t' = admitted t d \<and>
        (case ctype (constraints t) of
           APERIODIC \<Rightarrow> d = aperiodic_priority (constraints t)
         | SPORADIC \<Rightarrow> d = now + sporadic_phase (constraints t) \<and>
             d + sporadic_size (constraints t) < sporadic_deadline (constraints t)
         | PERIODIC \<Rightarrow> d = (if periodic_start (constraints t) < now then now else periodic_start (constraints t))
             + periodic_phase (constraints t))) \<and>
      constraints t' = constraints t \<and> status t' = status t \<and> run_time t' = 0 \<and> miss_count t' = 0 \<and>
      interrupt_priority_class (constraints t) \<le> 14
    else rc = -1 \<and> t' = t"
proof (cases "interrupt_priority_class (constraints t) \<le> 14")
  case True
  note cls = leD [OF True]
  show ?thesis
  proof (cases "ctype (constraints t)")
    case APERIODIC
    with assms True cls show ?thesis
      by (auto simp: rt_thread_admit_def Let_def simp flip: admitted_def)
  next
    case SPORADIC
    with assms cls have "admit_sporadic th s t (sporadic_reservation (cfg s)) now = Inr (rc, t')"
      by (simp add: rt_thread_admit_def Let_def)
    from admit_sporadic_cases [OF this] SPORADIC True show ?thesis by auto
  next
    case PERIODIC
    with assms cls have "admit_periodic th s t (per_res (cfg s)) now = Inr (rc, t')"
      by (simp add: rt_thread_admit_def Let_def per_res_def)
    from admit_periodic_cases [OF this] PERIODIC True show ?thesis by auto
  qed
next
  case False
  with assms show ?thesis by (simp add: rt_thread_admit_def Let_def not_le)
qed

lemma admission_effect_witness:
  "\<exists>d. admitted sample_new 5050 = admitted sample_new d \<and>
    d = (if periodic_start (constraints sample_new) < 50 then 50 else periodic_start (constraints sample_new))
        + periodic_phase (constraints sample_new)"
  using admission_effect [OF sample_admitted] by auto

end
