(* ===== verification/Sched_Ops.thy ===== *)
theory Sched_Ops
  imports Resched_Inv Admission
begin

text \<open>
  The scheduler operations that work on the whole machine: making a thread runnable on a CPU,
  the special switches (yield, sleep, exit, change of constraints), moving a thread to another
  CPU and stealing threads from another CPU (\<open>src/nautilus/scheduler.c\<close>). A machine holds every
  thread and what each CPU owns. An operation on one scheduler runs under that scheduler's lock
  and is one step; what other CPUs and threads do while an operation sleeps or is switched away
  from is an argument of the definition. The move of a thread takes it off one queue and puts it
  on the other under two locks in turn; nothing is interleaved between the two. The lock that a
  caller may hand to yield, sleep and exit for release during the switch is not part of the state.
\<close>

section \<open>The machine\<close>

record cpu_local =
  sched_state :: "rt_scheduler option"
  lapic :: apic_dev
  tpr :: u64
  cur_thread :: ptr
  preempt_level :: "16 word"
  irqs_on :: bool

record machine =
  m_ts :: "ptr \<Rightarrow> rt_thread"
  m_ks :: "ptr \<Rightarrow> nk_thread"
  cpus :: "nat \<Rightarrow> cpu_local"
  num_cpus :: nat

definition view :: "machine \<Rightarrow> nat \<Rightarrow> rt_scheduler \<Rightarrow> cpu_view" where
  "view M i s = \<lparr>ts = m_ts M, ks = m_ks M, sched = s, apic = lapic (cpus M i), cr8 = tpr (cpus M i)\<rparr>"

definition upd_cpu :: "nat \<Rightarrow> (cpu_local \<Rightarrow> cpu_local) \<Rightarrow> machine \<Rightarrow> machine" where
  "upd_cpu i f M = M\<lparr>cpus := (cpus M)(i := f (cpus M i))\<rparr>"

definition store_view :: "nat \<Rightarrow> cpu_view \<Rightarrow> machine \<Rightarrow> machine" where
  "store_view i S M =
     upd_cpu i (\<lambda>k. k\<lparr>sched_state := Some (sched S), lapic := apic S, tpr := cr8 S\<rparr>) (M\<lparr>m_ts := ts S, m_ks := ks S\<rparr>)"

definition upd_m_rt :: "ptr \<Rightarrow> (rt_thread \<Rightarrow> rt_thread) \<Rightarrow> machine \<Rightarrow> machine" where
  "upd_m_rt t f M = M\<lparr>m_ts := (m_ts M)(t := f (m_ts M t))\<rparr>"

definition upd_m_kt :: "ptr \<Rightarrow> (nk_thread \<Rightarrow> nk_thread) \<Rightarrow> machine \<Rightarrow> machine" where
  "upd_m_kt t f M = M\<lparr>m_ks := (m_ks M)(t := f (m_ks M t))\<rparr>"

text \<open>
  \<open>sys->cpus[i]->sched_state\<close>, dereferenced. The entries at and beyond \<open>num_cpus\<close> are null.
\<close>

definition sched_of :: "machine \<Rightarrow> int \<Rightarrow> rt_scheduler result" where
  "sched_of M i =
     (if i < 0 then Inl OutOfBounds
      else if i \<ge> int (num_cpus M) then Inl NullDeref
      else case sched_state (cpus M (nat i)) of None \<Rightarrow> Inl NullDeref | Some s \<Rightarrow> Inr s)"

lemma machine_simps [simp]:
  "sched (view M i s) = s" "ts (view M i s) = m_ts M" "ks (view M i s) = m_ks M"
  "m_ts (upd_cpu i f M) = m_ts M" "m_ks (upd_cpu i f M) = m_ks M" "num_cpus (upd_cpu i f M) = num_cpus M"
  "cpus (upd_cpu i f M) = (cpus M)(i := f (cpus M i))"
  "m_ts (store_view i S M) = ts S" "m_ks (store_view i S M) = ks S" "num_cpus (store_view i S M) = num_cpus M"
  "cpus (store_view i S M) = (cpus M)(i := (cpus M i)\<lparr>sched_state := Some (sched S), lapic := apic S, tpr := cr8 S\<rparr>)"
  "m_ts (upd_m_rt t g M) = (m_ts M)(t := g (m_ts M t))" "m_ks (upd_m_rt t g M) = m_ks M"
  "num_cpus (upd_m_rt t g M) = num_cpus M" "cpus (upd_m_rt t g M) = cpus M"
  "m_ts (upd_m_kt t h M) = m_ts M" "m_ks (upd_m_kt t h M) = (m_ks M)(t := h (m_ks M t))"
  "num_cpus (upd_m_kt t h M) = num_cpus M" "cpus (upd_m_kt t h M) = cpus M"
  by (simp_all add: view_def upd_cpu_def store_view_def upd_m_rt_def upd_m_kt_def)

section \<open>Making a thread runnable\<close>

definition CPU_ANY :: int where
  "CPU_ANY = -1"

definition put_runnable :: "aper_model \<Rightarrow> ptr \<Rightarrow> cpu_view \<Rightarrow> int \<times> cpu_view" where
  "put_runnable m t S =
     (let (rc, S1) = (if ctype (constraints (ts S t)) = APERIODIC then PUT_APERIODIC m S t else PUT_RT_PENDING S t)
      in if rc \<noteq> 0 then (-1, S1)
         else (0, upd_rt t (\<lambda>r. r\<lparr>status := ADMITTED\<rparr>) (upd_kt t (\<lambda>k. k\<lparr>tstatus := NK_THR_SUSPENDED\<rparr>) S1)))"

definition make_runnable_at ::
  "aper_model \<Rightarrow> bool \<Rightarrow> u64 result \<Rightarrow> ptr \<Rightarrow> cpu_view \<Rightarrow> (int \<times> cpu_view) result" where
  "make_runnable_at m admit now t S =
     bindr (if admit then bindr now (rt_thread_admit (ts S) (sched S) (ts S t)) else Inr (0, ts S t)) (\<lambda>(rc, r).
       let S1 = upd_rt t (\<lambda>_. r) S in if rc \<noteq> 0 then Inr (-1, S1) else Inr (put_runnable m t S1))"

definition target_cpu :: "nat \<Rightarrow> int \<Rightarrow> machine \<Rightarrow> nat" where
  "target_cpu me cpu M = (if cpu \<le> CPU_ANY \<or> cpu \<ge> int (num_cpus M) then me else nat cpu)"

text \<open>\<open>me\<close> is the calling CPU and \<open>cycles\<close> its cycle counter when the admission reads the time.\<close>

definition sched_make_runnable ::
  "aper_model \<Rightarrow> nat \<Rightarrow> u64 \<Rightarrow> ptr \<Rightarrow> int \<Rightarrow> bool \<Rightarrow> machine \<Rightarrow> (int \<times> machine) result" where
  "sched_make_runnable m me cycles t cpu admit M =
     (let i = target_cpu me cpu M
      in case sched_state (cpus M i) of
           None \<Rightarrow> Inr (-1, M)
         | Some s \<Rightarrow>
             bindr (make_runnable_at m admit (cur_time (lapic (cpus M me)) cycles) t (view M i s)) (\<lambda>(rc, S).
               Inr (rc, store_view i S M)))"

definition nk_sched_make_runnable ::
  "aper_model \<Rightarrow> nat \<Rightarrow> u64 \<Rightarrow> ptr \<Rightarrow> int \<Rightarrow> bool \<Rightarrow> machine \<Rightarrow> (int \<times> machine) result" where
  "nk_sched_make_runnable m me cycles t cpu admit M = sched_make_runnable m me cycles t cpu admit M"

section \<open>Special switches\<close>

definition resched_on :: "aper_model \<Rightarrow> resched_env \<Rightarrow> nat \<Rightarrow> machine \<Rightarrow> (ptr \<times> machine) result" where
  "resched_on m e me M =
     (case sched_state (cpus M me) of
        None \<Rightarrow> Inl NullDeref
      | Some s \<Rightarrow> bindr (sched_need_resched m e (cur_thread (cpus M me)) (view M me s)) (\<lambda>(n, S).
          Inr (n, store_view me S M)))"

text \<open>
  A pass is forced with the thread's status set to what it wants. If the pass picks another
  thread, the machine switches to it, and \<open>resume\<close> is what happens until the thread is switched
  back in, with the CPU it then runs on. Then the thread's old status and its interrupt flag come
  back; the preemption level comes back only if there was no switch, since a switch resets it.
\<close>

definition handle_special_switch ::
  "aper_model \<Rightarrow> resched_env \<Rightarrow> (ptr \<Rightarrow> machine \<Rightarrow> nat \<times> machine) \<Rightarrow> rt_status \<Rightarrow> bool \<Rightarrow> bool \<Rightarrow> nat \<Rightarrow>
    machine \<Rightarrow> (nat \<times> machine) result" where
  "handle_special_switch m e resume what have_lock flags me M =
     (let c = cur_thread (cpus M me);
          off = preempt_level (cpus M me) = 0;
          flags' = (if have_lock then flags else irqs_on (cpus M me));
          last_status = status (m_ts M c);
          M1 = upd_cpu me (\<lambda>k. k\<lparr>preempt_level := (if off then preempt_level k + 1 else preempt_level k),
                 irqs_on := (if have_lock then irqs_on k else False)\<rparr>) M
      in assert_that (what = SLEEPING \<or> what = YIELDING \<or> what = EXITING \<or> what = CHANGING)
           (bindr (resched_on m (e\<lparr>preempt_off := True, force := True\<rparr>) me (upd_m_rt c (\<lambda>r. r\<lparr>status := what\<rparr>) M1)) (\<lambda>(n, M2).
            let (i, M3) = (if n = NULL then (me, M2) else resume n (upd_cpu me (\<lambda>k. k\<lparr>preempt_level := 0\<rparr>) M2))
            in Inr (i, upd_cpu i (\<lambda>k. k\<lparr>irqs_on := (irqs_on k \<or> flags'),
                   preempt_level := (if n = NULL \<and> off then preempt_level k - 1 else preempt_level k)\<rparr>)
                 (upd_m_rt c (\<lambda>r. r\<lparr>status := last_status\<rparr>) M3)))))"

definition nk_sched_yield where
  "nk_sched_yield m e resume me M = handle_special_switch m e resume YIELDING False False me M"

definition nk_sched_sleep where
  "nk_sched_sleep m e resume me M = handle_special_switch m e resume SLEEPING False False me M"

definition nk_sched_exit :: "aper_model \<Rightarrow> resched_env \<Rightarrow> (ptr \<Rightarrow> machine \<Rightarrow> nat \<times> machine) \<Rightarrow> nat \<Rightarrow> machine \<Rightarrow> machine result" where
  "nk_sched_exit m e resume me M =
     bindr (handle_special_switch m e resume EXITING False False me M)
       (\<lambda>_. Inl (Panic ''Returned to finished thread!''))"

section \<open>Changing constraints\<close>

text \<open>
  What one step of the change meets: the cycle counter when the admission reads the time, the
  pass, and what happens while the thread is switched out.
\<close>

record change_env =
  admit_cycles :: u64
  pass_env :: resched_env
  resumption :: "ptr \<Rightarrow> machine \<Rightarrow> nat \<times> machine"

definition local_lock :: "nat \<Rightarrow> machine \<Rightarrow> bool \<times> machine" where
  "local_lock me M = (irqs_on (cpus M me), upd_cpu me (\<lambda>k. k\<lparr>irqs_on := False\<rparr>) M)"

definition make_current_runnable ::
  "aper_model \<Rightarrow> nat \<Rightarrow> u64 \<Rightarrow> ptr \<Rightarrow> machine \<Rightarrow> (int \<times> machine) result" where
  "make_current_runnable m me cycles t M = sched_make_runnable m me cycles t (current_cpu (m_ks M t)) True M"

definition set_constraints :: "ptr \<Rightarrow> nk_sched_constraints \<Rightarrow> machine \<Rightarrow> machine" where
  "set_constraints t c M = upd_m_rt t (\<lambda>r. r\<lparr>constraints := c\<rparr>) M"

text \<open>A real-time thread that asks for other real-time constraints becomes aperiodic first.\<close>

definition change_via_aperiodic ::
  "aper_model \<Rightarrow> change_env \<Rightarrow> u64 \<Rightarrow> bool \<Rightarrow> nat \<Rightarrow> ptr \<Rightarrow> machine \<Rightarrow> (bool \<times> nat \<times> machine) result" where
  "change_via_aperiodic m v prio flags me t M =
     bindr (make_current_runnable m me (admit_cycles v) t (set_constraints t (aperiodic_constraints prio) M)) (\<lambda>(rc, M1).
     if rc \<noteq> 0 then Inl (Panic ''Unable to change thread's constraints to aperiodic!'')
     else bindr (handle_special_switch m (pass_env v) (resumption v) CHANGING True flags me M1) (\<lambda>(i, M2).
          let (flags', M3) = local_lock i M2 in Inr (flags', i, M3)))"

definition change_final ::
  "aper_model \<Rightarrow> change_env \<Rightarrow> u64 \<Rightarrow> nk_sched_constraints \<Rightarrow> bool \<Rightarrow> nat \<Rightarrow> ptr \<Rightarrow> machine \<Rightarrow> (int \<times> nat \<times> machine) result" where
  "change_final m v recover_cycles new flags me t M =
     (let old = constraints (m_ts M t)
      in bindr (make_current_runnable m me (admit_cycles v) t (set_constraints t new M)) (\<lambda>(rc, M1).
         if rc \<noteq> 0
         then bindr (make_current_runnable m me recover_cycles t (set_constraints t old M1)) (\<lambda>(rc2, M2).
              if rc2 \<noteq> 0 then Inl (Panic ''Failed to recover to aperiodic when changing constraints'')
              else bindr (handle_special_switch m (pass_env v) (resumption v) CHANGING True flags me M2) (\<lambda>(i, M3). Inr (-1, i, M3)))
         else bindr (handle_special_switch m (pass_env v) (resumption v) CHANGING True flags me M1) (\<lambda>(i, M2). Inr (0, i, M2))))"

definition nk_sched_thread_change_constraints ::
  "aper_model \<Rightarrow> change_env \<Rightarrow> change_env \<Rightarrow> u64 \<Rightarrow> nk_sched_constraints \<Rightarrow> nat \<Rightarrow> machine \<Rightarrow> (int \<times> nat \<times> machine) result" where
  "nk_sched_thread_change_constraints m v1 v2 recover_cycles new me M =
     (case sched_state (cpus M me) of
        None \<Rightarrow> Inl NullDeref
      | Some s \<Rightarrow>
          let t = cur_thread (cpus M me); (flags, M1) = local_lock me M
          in if ctype (constraints (m_ts M t)) \<noteq> APERIODIC \<and> ctype new \<noteq> APERIODIC
             then bindr (change_via_aperiodic m v1 (aperiodic_default_priority (cfg s)) flags me t M1) (\<lambda>(flags', i, M2).
                  change_final m v2 recover_cycles new flags' i t M2)
             else change_final m v2 recover_cycles new flags me t M1)"

section \<open>Moving a thread\<close>

definition set_current_cpu :: "ptr \<Rightarrow> int \<Rightarrow> machine \<Rightarrow> machine" where
  "set_current_cpu t cpu M = upd_m_kt t (\<lambda>k. k\<lparr>current_cpu := cpu\<rparr>) M"

datatype grab_outcome = Raced | NotMovable machine | Grabbed machine

text \<open>Under the lock of the old CPU's scheduler: take the thread off its aperiodic queue.\<close>

definition grab :: "aper_model \<Rightarrow> ptr \<Rightarrow> int \<Rightarrow> int \<Rightarrow> machine \<Rightarrow> grab_outcome result" where
  "grab m t old new M =
     bindr (sched_of M old) (\<lambda>s.
       if current_cpu (m_ks M t) \<noteq> old then Inr Raced
       else if tstatus (m_ks M t) \<noteq> NK_THR_SUSPENDED \<or> status (m_ts M t) \<noteq> ADMITTED then Inr (NotMovable M)
       else let (r, S) = REMOVE_APERIODIC m (view M (nat old) s) t; M1 = store_view (nat old) S M
            in if r = NULL then Inr (NotMovable M1) else Inr (Grabbed (set_current_cpu t new M1)))"

definition finish_move :: "aper_model \<Rightarrow> nat \<Rightarrow> ptr \<Rightarrow> int \<Rightarrow> machine \<Rightarrow> (int \<times> machine) result" where
  "finish_move m me t old M =
     bindr (sched_make_runnable m me 0 t (current_cpu (m_ks M t)) False M) (\<lambda>(rc, M1).
     if rc \<noteq> 0
     then let M2 = set_current_cpu t old M1
          in bindr (sched_make_runnable m me 0 t (current_cpu (m_ks M2 t)) False M2) (\<lambda>(rc2, M3).
             if rc2 \<noteq> 0 then Inl (Panic ''Failed to make migrated task runnable on destination or source'')
             else Inr (-1, M3))
     else Inr (0, M1))"

text \<open>
  The blocking form sleeps and tries again; \<open>naps\<close> are what happens to the machine during the
  successive sleeps, and \<open>None\<close> means that the thread is still waiting after them.
\<close>

fun move_loop :: "aper_model \<Rightarrow> nat \<Rightarrow> ptr \<Rightarrow> int \<Rightarrow> int \<Rightarrow> bool \<Rightarrow> (machine \<Rightarrow> machine) list \<Rightarrow> machine \<Rightarrow>
    (int \<times> machine) result option" where
  "move_loop m me t old new block naps M =
     (case grab m t old new M of
        Inl f \<Rightarrow> Some (Inl f)
      | Inr Raced \<Rightarrow> Some (Inr (-1, M))
      | Inr (Grabbed M1) \<Rightarrow> Some (finish_move m me t old M1)
      | Inr (NotMovable M1) \<Rightarrow>
          if \<not> block then Some (Inr (-1, M1))
          else case naps of [] \<Rightarrow> None | nap # ns \<Rightarrow> move_loop m me t old new block ns (nap M1))"

definition nk_sched_thread_move ::
  "aper_model \<Rightarrow> nat \<Rightarrow> ptr \<Rightarrow> int \<Rightarrow> bool \<Rightarrow> (machine \<Rightarrow> machine) list \<Rightarrow> machine \<Rightarrow> (int \<times> machine) result option" where
  "nk_sched_thread_move m me t new block naps M =
     (let old = current_cpu (m_ks M t)
      in if old < 0 then Some (Inl OutOfBounds)
         else if old \<ge> int (num_cpus M) then Some (Inl NullDeref)
         else if bound_cpu (m_ks M t) \<ge> 0 \<or> new < 0 \<or> new \<ge> int (num_cpus M) \<or> t = cur_thread (cpus M me)
         then Some (Inr (-1, M))
         else if old = new then Some (Inr (0, M))
         else if ctype (constraints (m_ts M t)) \<noteq> APERIODIC then Some (Inr (-1, M))
         else move_loop m me t old new block naps M)"

declare move_loop.simps [simp del]

section \<open>Stealing threads\<close>

text \<open>
  Two random CPUs, neither of them the thief, and of the two the one with more threads. The words
  that \<open>get_random\<close> returns are an argument, and \<open>None\<close> means that the loop is still drawing.
\<close>

fun select_victim :: "aper_model \<Rightarrow> nat \<Rightarrow> u64 list \<Rightarrow> machine \<Rightarrow> int result option" where
  "select_victim m new (r1 # r2 # rs) M =
     (if num_cpus M = 0 then Some (Inl DivideError)
      else let a = unat r1 mod num_cpus M; b = unat r2 mod num_cpus M
           in if a = new \<or> b = new then select_victim m new rs M
              else Some (bindr (sched_of M (int a)) (\<lambda>sa. bindr (sched_of M (int b)) (\<lambda>sb.
                     Inr (if SIZE_APERIODIC m (view M a sa) > SIZE_APERIODIC m (view M b sb) then int a else int b)))))"
| "select_victim m new _ M = None"

definition nk_sched_get_runtime :: "ptr \<Rightarrow> machine \<Rightarrow> u64" where
  "nk_sched_get_runtime t M = run_time (m_ts M t)"

definition stealable :: "cpu_view \<Rightarrow> ptr \<Rightarrow> bool" where
  "stealable S t \<longleftrightarrow> t \<noteq> NULL \<and> \<not> is_idle (ks S t) \<and> \<not> is_intr (ts S t) \<and> bound_cpu (ks S t) < 0"

text \<open>The first \<open>maxcount\<close> threads that may be stolen; \<open>prosp\<close> has room for just that many.\<close>

function prospects :: "aper_model \<Rightarrow> cpu_view \<Rightarrow> nat \<Rightarrow> nat \<Rightarrow> ptr list \<Rightarrow> ptr list result" where
  "prospects m S maxcount cur prosp =
     (if cur < SIZE_APERIODIC m S
      then let t = PEEK_APERIODIC m S cur
           in if stealable S t
              then if length prosp \<ge> maxcount then Inl OutOfBounds
                   else if length prosp + 1 \<ge> maxcount then Inr (prosp @ [t])
                   else prospects m S maxcount (cur + 1) (prosp @ [t])
              else prospects m S maxcount (cur + 1) prosp
      else Inr prosp)"
  by pat_completeness auto
termination by (relation "measure (\<lambda>(m, S, maxcount, cur, prosp). SIZE_APERIODIC m S - cur)") auto

declare prospects.simps [simp del]

fun steal :: "aper_model \<Rightarrow> nat \<Rightarrow> ptr list \<Rightarrow> u64 \<Rightarrow> machine \<Rightarrow> (u64 \<times> machine) result option" where
  "steal m me [] n M = Some (Inr (n, M))"
| "steal m me (t # us) n M =
     (case nk_sched_thread_move m me t (int me) False [] M of
        None \<Rightarrow> None
      | Some (Inl f) \<Rightarrow> Some (Inl f)
      | Some (Inr (rc, M1)) \<Rightarrow> steal m me us (if rc \<noteq> 0 then n else n + 1) M1)"

definition add_thefts :: "nat \<Rightarrow> u64 \<Rightarrow> machine \<Rightarrow> machine" where
  "add_thefts me n M =
     upd_cpu me (\<lambda>k. k\<lparr>sched_state := map_option (\<lambda>s. s\<lparr>num_thefts := num_thefts s + n\<rparr>) (sched_state k)\<rparr>) M"

text \<open>
  The read of \<open>cpus[old_cpu]\<close> in the initialisation of \<open>os\<close>, which for a random victim has the
  index -1, is overwritten before it is used and not performed here.
\<close>

definition mug_from ::
  "aper_model \<Rightarrow> nat \<Rightarrow> int \<Rightarrow> u64 \<Rightarrow> machine \<Rightarrow> (int \<times> u64 \<times> machine) result option" where
  "mug_from m me old maxcount M =
     (if old = int me then Some (Inr (-1, 0, M))
      else case (sched_of M old, sched_of M (int me)) of
             (Inl f, _) \<Rightarrow> Some (Inl f)
           | (_, Inl f) \<Rightarrow> Some (Inl f)
           | (Inr os, Inr ns) \<Rightarrow>
               let So = view M (nat old) os; Sn = view M me ns
               in if SIZE_APERIODIC m So \<le> SIZE_APERIODIC m Sn then Some (Inr (0, 0, M))
                  else case prospects m So (unat maxcount) 0 [] of
                         Inl f \<Rightarrow> Some (Inl f)
                       | Inr prosp \<Rightarrow>
                           (case steal m me prosp 0 M of
                              None \<Rightarrow> None
                            | Some (Inl f) \<Rightarrow> Some (Inl f)
                            | Some (Inr (n, M1)) \<Rightarrow> Some (Inr (0, n, add_thefts me n M1))))"

definition nk_sched_cpu_mug ::
  "aper_model \<Rightarrow> nat \<Rightarrow> u64 list \<Rightarrow> int \<Rightarrow> u64 \<Rightarrow> machine \<Rightarrow> (int \<times> u64 \<times> machine) result option" where
  "nk_sched_cpu_mug m me rnds old maxcount M =
     (if old = -1
      then case select_victim m me rnds M of
             None \<Rightarrow> None
           | Some (Inl f) \<Rightarrow> Some (Inl f)
           | Some (Inr v) \<Rightarrow> mug_from m me v maxcount M
      else mug_from m me old maxcount M)"

end
