(* ===== verification/Migration.thy ===== *)
theory Migration
  imports Sched_Ops
begin

text \<open>
  Moving and stealing threads: whatever the outcome, no thread is lost or duplicated across the
  CPUs, only threads that may move do, and a theft takes the first eligible threads of the
  victim's queue. The invariant \<open>placed\<close> says that the aperiodic queues of all CPUs are
  well-formed and that a queued thread's \<open>current_cpu\<close> names the CPU it is queued on.
\<close>

section \<open>Queues of the machine\<close>

definition aper_on :: "aper_model \<Rightarrow> machine \<Rightarrow> nat \<Rightarrow> ptr multiset" where
  "aper_on m M i = (case sched_state (cpus M i) of None \<Rightarrow> {#} | Some s \<Rightarrow> aper_members m (view M i s))"

definition placed :: "aper_model \<Rightarrow> machine \<Rightarrow> bool" where
  "placed m M \<longleftrightarrow>
     (\<forall>i < num_cpus M. (\<exists>s. sched_state (cpus M i) = Some s \<and> aper_inv m (view M i s)) \<and>
        (\<forall>t \<in># aper_on m M i. count (aper_on m M i) t = 1 \<and> current_cpu (m_ks M t) = int i \<and>
           ctype (constraints (m_ts M t)) = APERIODIC \<and> (\<forall>j. cur_thread (cpus M j) \<noteq> t)))"

text \<open>The threads of the aperiodic queue in the order in which \<open>PEEK_APERIODIC\<close> shows them.\<close>

definition aper_list :: "aper_model \<Rightarrow> cpu_view \<Rightarrow> ptr list" where
  "aper_list m S =
     (if m = ROUND_ROBIN \<or> m = LOTTERY then rq_list (aperiodic (sched S))
      else map (pq_threads (aperiodic_pq (sched S))) [0..<pq_size (aperiodic_pq (sched S))])"

lemma mset_aper_list: "mset (aper_list m S) = aper_members m S"
  by (simp add: aper_list_def aper_members_def ring_members_def heap_members_def pq_elems_def elems_def)

lemma length_aper_list: "length (aper_list m S) = SIZE_APERIODIC m S"
  by (simp add: aper_list_def SIZE_APERIODIC_def)

lemma PEEK_aper_list: "k < SIZE_APERIODIC m S \<Longrightarrow> PEEK_APERIODIC m S k = aper_list m S ! k"
  by (auto simp: PEEK_APERIODIC_def SIZE_APERIODIC_def aper_list_def rq_peek_spec rt_priority_queue_peek_def)

lemma aper_members_sched: "sched S' = sched S \<Longrightarrow> aper_members m S' = aper_members m S"
  by (simp add: aper_members_def ring_members_def heap_members_def)

lemma aper_inv_view:
  assumes "aper_inv m S" "sched S' = sched S" "\<And>x. keys (ts S' x) = keys (ts S x)"
  shows "aper_inv m S'"
  using aper_inv_keys [of S S' m] assms by (simp add: same_queues_def)

lemma aper_on_view: "sched_state (cpus M i) = Some s \<Longrightarrow> aper_on m M i = aper_members m (view M i s)"
  by (simp add: aper_on_def)

lemma placedD:
  assumes "placed m M" "i < num_cpus M"
  obtains s where "sched_state (cpus M i) = Some s" "aper_inv m (view M i s)"
    "aper_on m M i = aper_members m (view M i s)" "sched_of M (int i) = Inr s"
  using assms by (auto simp: placed_def aper_on_def sched_of_def)

section \<open>One move\<close>

text \<open>
  How a step of a move changes the machine: the thread's \<open>current_cpu\<close> may change, one CPU's
  aperiodic queue gains or loses the thread, and everything else that the moves look at stays.
\<close>

definition requeued_on :: "aper_model \<Rightarrow> nat \<Rightarrow> ptr multiset \<Rightarrow> machine \<Rightarrow> machine \<Rightarrow> bool" where
  "requeued_on m i A M M' \<longleftrightarrow>
     same_but_qtype (m_ts M) (m_ts M') \<and> num_cpus M' = num_cpus M \<and>
     (\<forall>j. cur_thread (cpus M' j) = cur_thread (cpus M j)) \<and>
     (\<forall>j. j \<noteq> i \<longrightarrow> cpus M' j = cpus M j) \<and>
     (\<exists>s. sched_state (cpus M' i) = Some s \<and> aper_inv m (view M' i s)) \<and> aper_on m M' i = A"

lemma requeued_on_store:
  assumes "aper_frame (view M i s) S" "aper_inv m S"
  shows "requeued_on m i (aper_members m S) M (store_view i S M)"
proof -
  have "aper_inv m (view (store_view i S M) i (sched S))"
    by (rule aper_inv_view [OF assms(2)]) simp_all
  moreover have "aper_members m (view (store_view i S M) i (sched S)) = aper_members m S"
    by (rule aper_members_sched) simp
  ultimately show ?thesis
    using assms(1) by (simp add: requeued_on_def aper_frame_def aper_on_def)
qed

lemma aper_on_other:
  assumes "requeued_on m i A M M'" "j \<noteq> i"
  shows "aper_on m M' j = aper_on m M j"
proof -
  have "cpus M' j = cpus M j" using assms by (simp add: requeued_on_def)
  then show ?thesis
    by (auto simp: aper_on_def split: option.splits intro: aper_members_sched)
qed

lemma placed_step:
  assumes "placed m M" "requeued_on m i A M M'"
    "\<And>j t. \<lbrakk>j < num_cpus M; t \<in># (if j = i then A else aper_on m M j)\<rbrakk> \<Longrightarrow>
      current_cpu (m_ks M' t) = int j \<and> count (if j = i then A else aper_on m M j) t = 1 \<and>
      ctype (constraints (m_ts M t)) = APERIODIC \<and> (\<forall>j. cur_thread (cpus M j) \<noteq> t)"
  shows "placed m M'"
  unfolding placed_def
proof (intro allI impI conjI)
  fix j assume j: "j < num_cpus M'"
  have r: "same_but_qtype (m_ts M) (m_ts M')" "num_cpus M' = num_cpus M"
    "\<forall>k. cur_thread (cpus M' k) = cur_thread (cpus M k)" "\<forall>k. k \<noteq> i \<longrightarrow> cpus M' k = cpus M k"
    "\<exists>s. sched_state (cpus M' i) = Some s \<and> aper_inv m (view M' i s)" "aper_on m M' i = A"
    using assms(2) by (simp_all add: requeued_on_def)
  have a: "aper_on m M' j = (if j = i then A else aper_on m M j)"
    using aper_on_other [OF assms(2)] r(6) by auto
  note F = same_but_qtype_fields [OF r(1)]
  show "\<exists>s. sched_state (cpus M' j) = Some s \<and> aper_inv m (view M' j s)"
  proof (cases "j = i")
    case False
    obtain s where s: "sched_state (cpus M j) = Some s" "aper_inv m (view M j s)"
      using placedD [OF assms(1), of j] j r(2) by metis
    have "aper_inv m (view M' j s)" by (rule aper_inv_view [OF s(2)]) (simp_all add: F)
    with s(1) r(4) False show ?thesis by simp
  qed (use r(5) in simp)
  show "\<forall>t \<in># aper_on m M' j. count (aper_on m M' j) t = 1 \<and> current_cpu (m_ks M' t) = int j \<and>
           ctype (constraints (m_ts M' t)) = APERIODIC \<and> (\<forall>j. cur_thread (cpus M' j) \<noteq> t)"
    unfolding a using assms(3) [of j] j r(2,3) F(6) by simp
qed

lemma requeued_on_kt: "requeued_on m i A M (upd_m_kt t f M') = requeued_on m i A M M'"
proof -
  have "aper_inv m (view (upd_m_kt t f M') i s) = aper_inv m (view M' i s)" for s
    using aper_inv_view [of m "view (upd_m_kt t f M') i s" "view M' i s"]
      aper_inv_view [of m "view M' i s" "view (upd_m_kt t f M') i s"] by auto
  moreover have "aper_on m (upd_m_kt t f M') i = aper_on m M' i"
    by (auto simp: aper_on_def split: option.splits intro: aper_members_sched)
  ultimately show ?thesis by (simp add: requeued_on_def)
qed

lemma store_view_same [simp]:
  assumes "sched_state (cpus M i) = Some s"
  shows "store_view i (view M i s) M = M"
proof -
  have "(cpus M i)\<lparr>sched_state := Some s\<rparr> = cpus M i" using assms by simp
  then have "(cpus M)(i := (cpus M i)\<lparr>sched_state := Some s\<rparr>) = cpus M" by (simp only: fun_upd_triv)
  then show ?thesis by (simp add: store_view_def view_def upd_cpu_def)
qed

definition movable :: "machine \<Rightarrow> ptr \<Rightarrow> bool" where
  "movable M t \<longleftrightarrow> tstatus (m_ks M t) = NK_THR_SUSPENDED \<and> status (m_ts M t) = ADMITTED"

lemma grab_spec:
  assumes "placed m M" "i < num_cpus M" "t \<in># aper_on m M i" "movable M t"
  obtains M1 where "grab m t (int i) new M = Inr (Grabbed M1)"
    "m_ks M1 = (m_ks M)(t := (m_ks M t)\<lparr>current_cpu := new\<rparr>)"
    "requeued_on m i (aper_on m M i - {#t#}) M M1" "t \<noteq> NULL"
proof -
  obtain s where s: "sched_state (cpus M i) = Some s" "aper_inv m (view M i s)"
    "aper_on m M i = aper_members m (view M i s)" "sched_of M (int i) = Inr s"
    using placedD [OF assms(1,2)] .
  have t: "count (aper_members m (view M i s)) t = 1" "current_cpu (m_ks M t) = int i"
    using assms(1-3) s(3) by (auto simp: placed_def)
  obtain r S where r: "REMOVE_APERIODIC m (view M i s) t = (r, S)" by fastforce
  note R = aper.remove_present [OF s(2) t(1) r]
  have n: "t \<noteq> NULL" using aper.members_live [OF s(2)] assms(3) s(3) by metis
  have mem: "aper_members m S = aper_on m M i - {#t#}" using R s(3) by simp
  have k: "ks S = m_ks M" using R by (simp add: aper_frame_def)
  let ?M1 = "set_current_cpu t new (store_view i S M)"
  have "grab m t (int i) new M = Inr (Grabbed ?M1)"
    using s(4) t(2) assms(4) r R n by (simp add: grab_def movable_def)
  moreover have "requeued_on m i (aper_on m M i - {#t#}) M ?M1"
    using requeued_on_store [of M i s S m] R unfolding set_current_cpu_def requeued_on_kt mem by simp
  moreover have "m_ks ?M1 = (m_ks M)(t := (m_ks M t)\<lparr>current_cpu := new\<rparr>)"
    using k by (simp add: set_current_cpu_def)
  ultimately show ?thesis using that n by blast
qed

lemma grab_unmovable:
  assumes "placed m M" "i < num_cpus M" "current_cpu (m_ks M t) = int i" "\<not> movable M t"
  shows "grab m t (int i) new M = Inr (NotMovable M)"
proof -
  obtain s where s: "sched_state (cpus M i) = Some s" "aper_inv m (view M i s)"
    "aper_on m M i = aper_members m (view M i s)" "sched_of M (int i) = Inr s"
    using placedD [OF assms(1,2)] .
  with assms(3,4) show ?thesis by (auto simp: grab_def movable_def)
qed

text \<open>Making a thread runnable on a CPU that has room, and on one that is full.\<close>

lemma runnable_on:
  assumes s: "sched_state (cpus M j) = Some s" "aper_inv m (view M j s)" "j < num_cpus M"
    and t: "t \<noteq> NULL" "ctype (constraints (m_ts M t)) = APERIODIC" "movable M t"
    and room: "size (aper_on m M j) < MAX_QUEUE"
  obtains M1 where "sched_make_runnable m me cyc t (int j) False M = Inr (0, M1)" "m_ks M1 = m_ks M"
    "requeued_on m j (add_mset t (aper_on m M j)) M M1"
proof -
  let ?V = "view M j s"
  obtain rc S where p: "PUT_APERIODIC m ?V t = (rc, S)" by fastforce
  have z: "size (aper_members m ?V) < MAX_QUEUE" using room s(1) by (simp add: aper_on_def)
  note P = aper.put_room [OF s(2) t(1) z p]
  let ?S1 = "upd_rt t (\<lambda>r. r\<lparr>status := ADMITTED\<rparr>) (upd_kt t (\<lambda>k. k\<lparr>tstatus := NK_THR_SUSPENDED\<rparr>) S)"
  have f: "same_but_qtype (m_ts M) (ts S)" "ks S = m_ks M" using P by (simp_all add: aper_frame_def)
  have "status (ts S t) = ADMITTED" using same_but_qtype_fields(2) [OF f(1)] t(3) by (simp add: movable_def)
  then have ts1: "ts ?S1 = ts S" by (simp add: fun_upd_idem)
  have ks1: "ks ?S1 = m_ks M" using f(2) t(3) by (simp add: movable_def fun_upd_idem)
  have frame: "aper_frame ?V ?S1"
    using P ts1 ks1 f by (simp add: aper_frame_def)
  have inv: "aper_inv m ?S1" using P by (auto intro: aper_inv_view [of m S] simp: ts1 simp del: upd_simps(1))
  have mem: "aper_members m ?S1 = add_mset t (aper_on m M j)"
    using P aper_on_view [OF s(1)] aper_members_sched [of ?S1 S m] by simp
  have u: "upd_rt t (\<lambda>_. m_ts M t) ?V = ?V" using upd_rt_id [of t ?V] by simp
  have "make_runnable_at m False now t ?V = Inr (put_runnable m t ?V)" for now
    by (simp add: make_runnable_at_def u)
  moreover have "put_runnable m t ?V = (0, ?S1)"
    using P p t(2) by (simp add: put_runnable_def)
  ultimately have r: "sched_make_runnable m me cyc t (int j) False M = Inr (0, store_view j ?S1 M)"
    using s(1,3) by (simp add: sched_make_runnable_def target_cpu_def CPU_ANY_def)
  have q: "requeued_on m j (add_mset t (aper_on m M j)) M (store_view j ?S1 M)"
    using requeued_on_store [OF frame inv] mem by simp
  have k: "m_ks (store_view j ?S1 M) = m_ks M" using ks1 by (simp del: upd_simps)
  show ?thesis by (rule that [OF r k q])
qed

lemma runnable_full:
  assumes s: "sched_state (cpus M j) = Some s" "aper_inv m (view M j s)" "j < num_cpus M"
    and t: "ctype (constraints (m_ts M t)) = APERIODIC" and full: "size (aper_on m M j) = MAX_QUEUE"
  shows "sched_make_runnable m me cyc t (int j) False M = Inr (-1, M)"
proof -
  let ?V = "view M j s"
  have "PUT_APERIODIC m ?V t = (-1, ?V)"
    using aper.put_full [OF s(2)] full aper_on_view [OF s(1)] by simp
  moreover have u: "upd_rt t (\<lambda>_. m_ts M t) ?V = ?V" using upd_rt_id [of t ?V] by simp
  ultimately have "make_runnable_at m False now t ?V = Inr (-1, ?V)" for now
    using t by (simp add: make_runnable_at_def put_runnable_def u)
  with s show ?thesis by (simp add: sched_make_runnable_def target_cpu_def CPU_ANY_def)
qed

lemma requeued_on_frame:
  assumes "requeued_on m i A M M'"
  shows "same_but_qtype (m_ts M) (m_ts M')" "num_cpus M' = num_cpus M"
    "cur_thread (cpus M' k) = cur_thread (cpus M k)"
    "aper_on m M' k = (if k = i then A else aper_on m M k)" "constraints (m_ts M' x) = constraints (m_ts M x)"
    "status (m_ts M' x) = status (m_ts M x)"
proof -
  show f: "same_but_qtype (m_ts M) (m_ts M')" "num_cpus M' = num_cpus M"
    "cur_thread (cpus M' k) = cur_thread (cpus M k)"
    using assms by (simp_all add: requeued_on_def)
  show "aper_on m M' k = (if k = i then A else aper_on m M k)"
    using aper_on_other [OF assms] assms by (auto simp: requeued_on_def)
  show "constraints (m_ts M' x) = constraints (m_ts M x)" "status (m_ts M' x) = status (m_ts M x)"
    using same_but_qtype_fields [OF f(1)] by simp_all
qed

lemma placed_elim:
  assumes "placed m M" "k < num_cpus M" "x \<in># aper_on m M k"
  shows "count (aper_on m M k) x = 1" "current_cpu (m_ks M x) = int k"
    "ctype (constraints (m_ts M x)) = APERIODIC" "cur_thread (cpus M j) \<noteq> x"
  using assms by (auto simp: placed_def)

lemma taken_out:
  assumes "placed m M" "i < num_cpus M" "t \<in># aper_on m M i" "requeued_on m i (aper_on m M i - {#t#}) M M1"
    "m_ks M1 = (m_ks M)(t := (m_ks M t)\<lparr>current_cpu := new\<rparr>)"
  shows "placed m M1 \<and> (\<forall>k < num_cpus M1. t \<notin># aper_on m M1 k)"
proof -
  have c: "count (aper_on m M i) t = 1" "current_cpu (m_ks M t) = int i"
    using placed_elim [OF assms(1-3)] by simp_all
  have away: "t \<notin># (if k = i then aper_on m M i - {#t#} else aper_on m M k)" if "k < num_cpus M" for k
    using c placed_elim(2) [OF assms(1) that, of t] by (auto simp: in_diff_count)
  have "placed m M1"
  proof (rule placed_step [OF assms(1,4)])
    fix k x assume k: "k < num_cpus M" and x: "x \<in># (if k = i then aper_on m M i - {#t#} else aper_on m M k)"
    have "x \<noteq> t" using away [OF k] x by auto
    moreover from x have "x \<in># aper_on m M k" by (auto split: if_splits dest: in_diffD)
    ultimately show "current_cpu (m_ks M1 x) = int k \<and>
        count (if k = i then aper_on m M i - {#t#} else aper_on m M k) x = 1 \<and>
        ctype (constraints (m_ts M x)) = APERIODIC \<and> (\<forall>j. cur_thread (cpus M j) \<noteq> x)"
      using placed_elim [OF assms(1) k, of x] assms(5) by auto
  qed
  moreover have "t \<notin># aper_on m M1 k" if "k < num_cpus M1" for k
    using away [of k] that requeued_on_frame(2,4) [OF assms(4)] by simp
  ultimately show ?thesis by blast
qed

lemma put_in:
  assumes "placed m M" "j < num_cpus M" "requeued_on m j (add_mset t (aper_on m M j)) M M1" "m_ks M1 = m_ks M"
    "\<forall>k < num_cpus M. t \<notin># aper_on m M k" "current_cpu (m_ks M t) = int j"
    "ctype (constraints (m_ts M t)) = APERIODIC" "\<forall>k. cur_thread (cpus M k) \<noteq> t"
  shows "placed m M1"
proof (rule placed_step [OF assms(1,3)])
  fix k x assume k: "k < num_cpus M" and x: "x \<in># (if k = j then add_mset t (aper_on m M j) else aper_on m M k)"
  show "current_cpu (m_ks M1 x) = int k \<and>
      count (if k = j then add_mset t (aper_on m M j) else aper_on m M k) x = 1 \<and>
      ctype (constraints (m_ts M x)) = APERIODIC \<and> (\<forall>j. cur_thread (cpus M j) \<noteq> x)"
  proof (cases "x = t")
    case True
    with x assms(5) k have "k = j" by (auto split: if_splits)
    with True assms(2,4-8) show ?thesis by (simp add: not_in_iff)
  next
    case False
    with x have "x \<in># aper_on m M k" by (auto split: if_splits)
    with False show ?thesis using placed_elim [OF assms(1) k, of x] assms(4) by auto
  qed
qed

text \<open>The outcome of a move of thread \<open>t\<close> from CPU \<open>i\<close> to CPU \<open>j\<close>.\<close>

definition moved :: "aper_model \<Rightarrow> ptr \<Rightarrow> nat \<Rightarrow> nat \<Rightarrow> machine \<Rightarrow> machine \<Rightarrow> bool" where
  "moved m t i j M M' \<longleftrightarrow> placed m M' \<and>
     m_ks M' = (m_ks M)(t := (m_ks M t)\<lparr>current_cpu := int j\<rparr>) \<and> same_but_qtype (m_ts M) (m_ts M') \<and>
     num_cpus M' = num_cpus M \<and> (\<forall>k. cur_thread (cpus M' k) = cur_thread (cpus M k)) \<and>
     (\<forall>k. aper_on m M' k = (if k = j then add_mset t (aper_on m M j - {#t#})
                            else if k = i then aper_on m M i - {#t#} else aper_on m M k))"

lemma finish_at:
  assumes M: "placed m M" "i < num_cpus M" "t \<in># aper_on m M i" "movable M t"
    and M1: "requeued_on m i (aper_on m M i - {#t#}) M M1" "t \<noteq> NULL"
      "m_ks M1 = (m_ks M)(t := (m_ks M t)\<lparr>current_cpu := new\<rparr>)" "new = int j" "j < num_cpus M"
    and room: "size (aper_on m M j - {#t#}) < MAX_QUEUE"
  obtains M2 where "sched_make_runnable m me cyc t (int j) False M1 = Inr (0, M2)" "moved m t i j M M2"
proof -
  note F = requeued_on_frame [OF M1(1)]
  have p1: "placed m M1" and out: "\<forall>k < num_cpus M1. t \<notin># aper_on m M1 k"
    using taken_out [OF M(1-3) M1(1,3)] by blast+
  have j1: "j < num_cpus M1" using M1(5) F(2) by simp
  obtain s where s: "sched_state (cpus M1 j) = Some s" "aper_inv m (view M1 j s)"
    "aper_on m M1 j = aper_members m (view M1 j s)" "sched_of M1 (int j) = Inr s"
    using placedD [OF p1 j1] .
  have on1: "aper_on m M1 k = aper_on m M k - {#t#}" if "k < num_cpus M" for k
  proof (cases "k = i")
    case False
    then have "t \<notin># aper_on m M k" using placed_elim(2) [OF M(1) that, of t] placed_elim(2) [OF M(1-3)] by auto
    with False show ?thesis using F(4) [of k] by (simp add: diff_single_trivial)
  qed (simp add: F(4))
  have mv: "movable M1 t" using M(4) M1(3) F(6) by (simp add: movable_def)
  have ap: "ctype (constraints (m_ts M1 t)) = APERIODIC" using placed_elim(3) [OF M(1-3)] F(5) by simp
  obtain M2 where r: "sched_make_runnable m me cyc t (int j) False M1 = Inr (0, M2)" "m_ks M2 = m_ks M1"
    "requeued_on m j (add_mset t (aper_on m M1 j)) M1 M2"
    using runnable_on [OF s(1,2) j1 M1(2) ap mv] room on1 [OF M1(5)] by metis
  note G = requeued_on_frame [OF r(3)]
  have cur: "\<forall>k. cur_thread (cpus M1 k) \<noteq> t" using placed_elim(4) [OF M(1-3)] F(3) by simp
  have "placed m M2" using put_in [OF p1 j1 r(3,2) out _ ap cur] M1(3,4) by simp
  moreover have "aper_on m M2 k = (if k = j then add_mset t (aper_on m M j - {#t#})
      else if k = i then aper_on m M i - {#t#} else aper_on m M k)" for k
    using G(4) [of k] F(4) [of k] on1 [OF M1(5)] by simp
  ultimately have "moved m t i j M M2"
    using r(2) M1(3,4) F(1-3) G(1-3) same_but_qtype_trans by (auto simp: moved_def)
  with r(1) show ?thesis by (rule that)
qed

lemma move_outcome:
  assumes M: "placed m M" "i < num_cpus M" "t \<in># aper_on m M i" and j: "j < num_cpus M" "j \<noteq> i"
  shows "\<exists>M'. nk_sched_thread_move m me t (int j) False naps M =
      Some (Inr (if bound_cpu (m_ks M t) < 0 \<and> movable M t \<and> size (aper_on m M j) < MAX_QUEUE then 0 else -1, M')) \<and>
    (if bound_cpu (m_ks M t) < 0 \<and> movable M t
     then moved m t i (if size (aper_on m M j) < MAX_QUEUE then j else i) M M' else M' = M)"
proof -
  note P = placed_elim [OF M]
  have e: "nk_sched_thread_move m me t (int j) False naps M =
      (if bound_cpu (m_ks M t) \<ge> 0 then Some (Inr (-1, M)) else move_loop m me t (int i) (int j) False naps M)"
    using P j M(2) P(4) [of me] by (auto simp: nk_sched_thread_move_def Let_def)
  show ?thesis
  proof (cases "bound_cpu (m_ks M t) < 0")
    case b: True
    show ?thesis
    proof (cases "movable M t")
      case mv: True
      obtain M1 where g: "grab m t (int i) (int j) M = Inr (Grabbed M1)"
        "m_ks M1 = (m_ks M)(t := (m_ks M t)\<lparr>current_cpu := int j\<rparr>)"
        "requeued_on m i (aper_on m M i - {#t#}) M M1" "t \<noteq> NULL"
        using grab_spec [OF M mv] .
      have l: "move_loop m me t (int i) (int j) False naps M = Some (finish_move m me t (int i) M1)"
        using g(1) by (simp add: move_loop.simps)
      have tj: "aper_on m M j - {#t#} = aper_on m M j"
        using placed_elim(2) [OF M(1) j(1), of t] P(2) j(2) by (auto intro: diff_single_trivial)
      show ?thesis
      proof (cases "size (aper_on m M j) < MAX_QUEUE")
        case room: True
        obtain M2 where "sched_make_runnable m me 0 t (int j) False M1 = Inr (0, M2)" "moved m t i j M M2"
          using finish_at [OF M mv g(3,4,2) refl j(1)] room tj by metis
        with e l b mv room g(2) show ?thesis by (simp add: finish_move_def)
      next
        case full: False
        note F = requeued_on_frame [OF g(3)]
        have p1: "placed m M1" using taken_out [OF M g(3,2)] by blast
        have j1: "j < num_cpus M1" using j(1) F(2) by simp
        obtain s where s: "sched_state (cpus M1 j) = Some s" "aper_inv m (view M1 j s)"
          "aper_on m M1 j = aper_members m (view M1 j s)" "sched_of M1 (int j) = Inr s"
          using placedD [OF p1 j1] .
        have "size (aper_on m M1 j) = MAX_QUEUE"
          using full F(4) [of j] j(2) s(3) aper.members_live [OF s(2)] by (simp add: not_less)
        then have r1: "sched_make_runnable m me 0 t (int j) False M1 = Inr (-1, M1)"
          using runnable_full [OF s(1,2) j1] P(3) F(5) by simp
        let ?M2 = "set_current_cpu t (int i) M1"
        have q2: "requeued_on m i (aper_on m M i - {#t#}) M ?M2"
          using g(3) by (simp add: set_current_cpu_def requeued_on_kt)
        have k2: "m_ks ?M2 = (m_ks M)(t := (m_ks M t)\<lparr>current_cpu := int i\<rparr>)"
          using g(2) by (simp add: set_current_cpu_def)
        obtain s0 where s0: "sched_state (cpus M i) = Some s0" "aper_inv m (view M i s0)"
          "aper_on m M i = aper_members m (view M i s0)" "sched_of M (int i) = Inr s0"
          using placedD [OF M(1,2)] .
        have "size (aper_on m M i - {#t#}) < size (aper_on m M i)" using M(3) by (rule size_Diff1_less)
        also have "\<dots> \<le> MAX_QUEUE" using aper.members_live [OF s0(2)] s0(3) by simp
        finally have "size (aper_on m M i - {#t#}) < MAX_QUEUE" .
        then obtain M3 where "sched_make_runnable m me 0 t (int i) False ?M2 = Inr (0, M3)" "moved m t i i M M3"
          using finish_at [OF M mv q2 g(4) k2 refl M(2)] by metis
        with e l b mv full r1 g(2) k2 show ?thesis by (simp add: finish_move_def Let_def)
      qed
    next
      case False
      with grab_unmovable [OF M(1,2) P(2)] e b show ?thesis by (simp add: move_loop.simps)
    qed
  qed (use e in simp)
qed

section \<open>Theft\<close>

lemma prospects_spec:
  assumes "length prosp < maxcount" "cur \<le> SIZE_APERIODIC m S"
  shows "prospects m S maxcount cur prosp =
    Inr (prosp @ take (maxcount - length prosp) (filter (stealable S) (drop cur (aper_list m S))))"
  using assms
proof (induction "SIZE_APERIODIC m S - cur" arbitrary: cur prosp)
  case 0
  then have "cur = SIZE_APERIODIC m S" by simp
  then show ?case using length_aper_list [of m S] by (subst prospects.simps) simp
next
  case (Suc k)
  then have c: "cur < SIZE_APERIODIC m S" and k: "k = SIZE_APERIODIC m S - Suc cur" by simp_all
  let ?t = "aper_list m S ! cur"
  have d: "drop cur (aper_list m S) = ?t # drop (Suc cur) (aper_list m S)"
    using c by (simp add: length_aper_list Cons_nth_drop_Suc)
  have IH: "length p < maxcount \<Longrightarrow> prospects m S maxcount (Suc cur) p =
      Inr (p @ take (maxcount - length p) (filter (stealable S) (drop (Suc cur) (aper_list m S))))" for p
    using Suc(1) [OF k, of p] c by simp
  show ?case
  proof (cases "stealable S ?t")
    case True
    show ?thesis
    proof (cases "length prosp + 1 \<ge> maxcount")
      case last: True
      with Suc(3) have "maxcount - length prosp = 1" by simp
      with True last Suc(3) c d show ?thesis
        by (subst prospects.simps) (simp add: PEEK_aper_list Let_def)
    next
      case False
      then have "maxcount - length prosp = Suc (maxcount - Suc (length prosp))" by simp
      with True False Suc(3) c d IH [of "prosp @ [?t]"] show ?thesis
        by (subst prospects.simps) (simp add: PEEK_aper_list Let_def)
    qed
  next
    case False
    with Suc(3) c d IH [of prosp] show ?thesis
      by (subst prospects.simps) (simp add: PEEK_aper_list Let_def)
  qed
qed

lemma moved_keeps:
  assumes "moved m t i j M M'"
  shows "movable M' x = movable M x" "bound_cpu (m_ks M' x) = bound_cpu (m_ks M x)" "num_cpus M' = num_cpus M"
    "placed m M'" "x \<noteq> t \<Longrightarrow> m_ks M' x = m_ks M x" "current_cpu (m_ks M' t) = int j"
proof -
  have f: "m_ks M' = (m_ks M)(t := (m_ks M t)\<lparr>current_cpu := int j\<rparr>)" "same_but_qtype (m_ts M) (m_ts M')"
    "num_cpus M' = num_cpus M" "placed m M'"
    using assms by (simp_all add: moved_def)
  show "movable M' x = movable M x" "bound_cpu (m_ks M' x) = bound_cpu (m_ks M x)" "num_cpus M' = num_cpus M"
    "placed m M'" "x \<noteq> t \<Longrightarrow> m_ks M' x = m_ks M x" "current_cpu (m_ks M' t) = int j"
    using f same_but_qtype_fields(2) [OF f(2), of x] by (simp_all add: movable_def)
qed

definition stolen_to :: "aper_model \<Rightarrow> nat \<Rightarrow> nat \<Rightarrow> ptr list \<Rightarrow> machine \<Rightarrow> machine \<Rightarrow> bool" where
  "stolen_to m i me us M M' \<longleftrightarrow> placed m M' \<and> num_cpus M' = num_cpus M \<and>
     aper_on m M' me = aper_on m M me + mset us \<and> aper_on m M i = aper_on m M' i + mset us \<and>
     (\<forall>k. k \<noteq> me \<longrightarrow> k \<noteq> i \<longrightarrow> aper_on m M' k = aper_on m M k) \<and>
     (\<forall>t. t \<notin> set us \<longrightarrow> m_ks M' t = m_ks M t) \<and> (\<forall>t \<in> set us. current_cpu (m_ks M' t) = int me)"

lemma steal_spec:
  assumes "placed m M" "i < num_cpus M" "me < num_cpus M" "i \<noteq> me" "distinct us"
    "\<forall>t \<in> set us. t \<in># aper_on m M i \<and> bound_cpu (m_ks M t) < 0" "size (aper_on m M me) + length us \<le> MAX_QUEUE"
  shows "\<exists>M'. steal m me us n M = Some (Inr (n + of_nat (length (filter (movable M) us)), M')) \<and>
    stolen_to m i me (filter (movable M) us) M M'"
  using assms
proof (induction us arbitrary: n M)
  case Nil
  then show ?case by (simp add: stolen_to_def)
next
  case (Cons t us)
  have t: "t \<in># aper_on m M i" "bound_cpu (m_ks M t) < 0" "t \<notin> set us" using Cons.prems(5,6) by simp_all
  have room: "size (aper_on m M me) < MAX_QUEUE" using Cons.prems(7) by simp
  obtain M1 where m1: "nk_sched_thread_move m me t (int me) False [] M = Some (Inr (if movable M t then 0 else -1, M1))"
    "if movable M t then moved m t i me M M1 else M1 = M"
    using move_outcome [OF Cons.prems(1,2) t(1) Cons.prems(3) Cons.prems(4) [symmetric], of me "[]"] t(2) room
    by (auto simp only: if_True simp_thms)
  show ?case
  proof (cases "movable M t")
    case False
    then have "M1 = M" using m1(2) by simp
    with m1 False Cons.IH [OF Cons.prems(1-4), of n] Cons.prems(5-7) show ?thesis by simp
  next
    case True
    then have mv: "moved m t i me M M1" using m1(2) by simp
    note K = moved_keeps [OF mv]
    have on: "aper_on m M1 k = (if k = me then add_mset t (aper_on m M me - {#t#})
        else if k = i then aper_on m M i - {#t#} else aper_on m M k)" for k
      using mv by (simp add: moved_def)
    have "t \<notin># aper_on m M me"
      using placed_elim(2) [OF Cons.prems(1,2) t(1)] placed_elim(2) [OF Cons.prems(1,3), of t] Cons.prems(4) by auto
    then have me: "aper_on m M1 me = add_mset t (aper_on m M me)" by (simp add: on diff_single_trivial)
    have i: "aper_on m M i = add_mset t (aper_on m M1 i)" using t(1) Cons.prems(4) by (simp add: on)
    have "\<forall>x \<in> set us. x \<in># aper_on m M1 i \<and> bound_cpu (m_ks M1 x) < 0"
      using Cons.prems(6) t(3) i K(2) by (metis insert_iff list.simps(15) set_mset_add_mset_insert)
    then obtain M' where r: "steal m me us (n + 1) M1 =
        Some (Inr (n + 1 + of_nat (length (filter (movable M) us)), M'))" "stolen_to m i me (filter (movable M) us) M1 M'"
      using Cons.IH [of M1 "n + 1"] Cons.prems(2-5,7) K(1,3,4) me by auto
    have "stolen_to m i me (filter (movable M) (t # us)) M M'"
      using r(2) True me i K(3,5,6) t(3) on unfolding stolen_to_def by auto
    moreover have "steal m me (t # us) n M = Some (Inr (n + of_nat (length (filter (movable M) (t # us))), M'))"
      using m1(1) r(1) True by (simp add: algebra_simps)
    ultimately show ?thesis by blast
  qed
qed

lemma add_thefts_on: "aper_on m (add_thefts me n M) k = aper_on m M k"
  by (auto simp: add_thefts_def aper_on_def aper_members_def ring_members_def heap_members_def split: option.splits)

lemma add_thefts_placed:
  assumes "placed m M"
  shows "placed m (add_thefts me n M)"
proof -
  have i: "aper_inv m (view (add_thefts me n M) i (s\<lparr>num_thefts := k\<rparr>)) = aper_inv m (view M i s)"
    "aper_inv m (view (add_thefts me n M) i s) = aper_inv m (view M i s)" for i s k
    by (simp_all add: aper_inv_def ring_inv_def heap_inv_def add_thefts_def)
  have c: "cur_thread (cpus (add_thefts me n M) j) = cur_thread (cpus M j)" for j
    by (simp add: add_thefts_def)
  have s: "sched_state (cpus (add_thefts me n M) j) =
      (if j = me then map_option (\<lambda>s. s\<lparr>num_thefts := num_thefts s + n\<rparr>) (sched_state (cpus M j)) else sched_state (cpus M j))" for j
    by (simp add: add_thefts_def)
  have r: "m_ks (add_thefts me n M) = m_ks M" "m_ts (add_thefts me n M) = m_ts M" "num_cpus (add_thefts me n M) = num_cpus M"
    by (simp_all add: add_thefts_def)
  show ?thesis
    using assms i unfolding placed_def add_thefts_on r c s by auto
qed

lemma add_thefts_stolen: "stolen_to m i me us M M' \<Longrightarrow> stolen_to m i me us M (add_thefts me n M')"
  by (simp add: stolen_to_def add_thefts_placed add_thefts_on) (simp add: add_thefts_def)

section \<open>Properties\<close>

text \<open>Two CPUs: CPU 1 has thread 3, which is bound to it, and thread 4, which is free; CPU 0 has none.\<close>

definition pair_queue :: rt_queue where
  "pair_queue = \<lparr>rq_type = APERIODIC_QUEUE, rq_size = 2, rq_head = 2, rq_tail = 0, rq_threads = (\<lambda>i. i + 3)\<rparr>"

definition sample_machine :: machine where
  "sample_machine =
     \<lparr>m_ts = (\<lambda>_. zero_rt_thread\<lparr>status := ADMITTED\<rparr>),
      m_ks = (\<lambda>t. (ks blank_view t)\<lparr>tstatus := NK_THR_SUSPENDED, bound_cpu := (if t = 3 then 1 else -1), current_cpu := 1\<rparr>),
      cpus = (\<lambda>i. \<lparr>sched_state = Some (if i = 1 then zero_rt_scheduler\<lparr>aperiodic := pair_queue\<rparr> else zero_rt_scheduler),
                 lapic = apic blank_view, tpr = 0, cur_thread = 10 + i, preempt_level = 0, irqs_on = True\<rparr>),
      num_cpus = 2\<rparr>"

lemma pair_list: "rq_list pair_queue = [3, 4]" "rq_inv pair_queue"
  by (simp_all add: rq_list_def ring_def pair_queue_def rq_inv_def MAX_QUEUE_def upt_rec)

lemma empty_list: "rq_list (aperiodic zero_rt_scheduler) = []" "rq_inv (aperiodic zero_rt_scheduler)"
  by (simp_all add: rq_list_def ring_def zero_rt_scheduler_def rq_inv_def MAX_QUEUE_def)

lemma sample_on:
  "aper_on ROUND_ROBIN sample_machine i = (if i = 1 then {#3, 4#} else {#})"
  by (simp add: aper_on_def sample_machine_def aper_members_def ring_members_def pair_list empty_list)

lemma sample_placed: "placed ROUND_ROBIN sample_machine"
proof -
  have "aper_inv ROUND_ROBIN (view M i s) \<longleftrightarrow> rq_inv (aperiodic s) \<and> NULL \<notin> set (rq_list (aperiodic s))" for M i s
    by (simp add: aper_inv_def ring_inv_def)
  then show ?thesis
    unfolding placed_def sample_on
    by (auto simp: sample_machine_def pair_list empty_list zero_rt_thread_def aperiodic_constraints_def)
qed

text \<open>
  C8. Moving a queued thread to another CPU never loses or duplicates it: the non-blocking call
  always returns; it succeeds exactly when the thread is not bound, is suspended and admitted, and
  the destination has room, and then the thread is on the destination's queue, its CPU is updated
  and no other queue has changed; otherwise it returns -1 and every CPU's queue holds what it held
  before, even when the thread had already been taken off and had to be put back.
\<close>
theorem thread_move_conserves:
  assumes "placed m M" "i < num_cpus M" "t \<in># aper_on m M i" "j < num_cpus M" "j \<noteq> i"
  shows "\<exists>rc M'. nk_sched_thread_move m me t (int j) False [] M = Some (Inr (rc, M')) \<and> placed m M' \<and>
    (if bound_cpu (m_ks M t) < 0 \<and> tstatus (m_ks M t) = NK_THR_SUSPENDED \<and> status (m_ts M t) = ADMITTED \<and>
        size (aper_on m M j) < MAX_QUEUE
     then rc = 0 \<and> current_cpu (m_ks M' t) = int j \<and> aper_on m M' j = add_mset t (aper_on m M j) \<and>
       add_mset t (aper_on m M' i) = aper_on m M i \<and>
       (\<forall>k. k \<noteq> i \<longrightarrow> k \<noteq> j \<longrightarrow> aper_on m M' k = aper_on m M k)
     else rc = -1 \<and> (\<forall>k. aper_on m M' k = aper_on m M k))"
proof -
  obtain M' where r: "nk_sched_thread_move m me t (int j) False [] M =
      Some (Inr (if bound_cpu (m_ks M t) < 0 \<and> movable M t \<and> size (aper_on m M j) < MAX_QUEUE then 0 else -1, M'))"
    "if bound_cpu (m_ks M t) < 0 \<and> movable M t
     then moved m t i (if size (aper_on m M j) < MAX_QUEUE then j else i) M M' else M' = M"
    using move_outcome [OF assms] by blast
  have tj: "t \<notin># aper_on m M j"
    using placed_elim(2) [OF assms(1,4), of t] placed_elim(2) [OF assms(1-3)] assms(5) by auto
  have ti: "add_mset t (aper_on m M i - {#t#}) = aper_on m M i" using assms(3) by simp
  show ?thesis
  proof (cases "bound_cpu (m_ks M t) < 0 \<and> movable M t")
    case True
    let ?d = "if size (aper_on m M j) < MAX_QUEUE then j else i"
    have mv: "moved m t i ?d M M'" using r(2) True by simp
    note K = moved_keeps [OF mv]
    have on: "aper_on m M' k = (if k = ?d then add_mset t (aper_on m M ?d - {#t#})
        else if k = i then aper_on m M i - {#t#} else aper_on m M k)" for k
      using mv by (simp add: moved_def)
    show ?thesis
    proof (cases "size (aper_on m M j) < MAX_QUEUE")
      case room: True
      with on tj ti assms(5) have "aper_on m M' j = add_mset t (aper_on m M j)" "add_mset t (aper_on m M' i) = aper_on m M i"
        "\<forall>k. k \<noteq> i \<longrightarrow> k \<noteq> j \<longrightarrow> aper_on m M' k = aper_on m M k"
        by (simp_all add: diff_single_trivial)
      with r(1) K(4,6) True room show ?thesis by (simp add: movable_def)
    next
      case False
      with on ti have "\<forall>k. aper_on m M' k = aper_on m M k" by simp
      with r(1) K(4) True False show ?thesis by (simp add: movable_def)
    qed
  next
    case False
    then have "M' = M" using r(2) by simp
    with r(1) False assms(1) show ?thesis by (auto simp: movable_def)
  qed
qed

theorem thread_move_conserves_witness:
  "\<exists>M'. nk_sched_thread_move ROUND_ROBIN 0 4 0 False [] sample_machine = Some (Inr (0, M')) \<and>
    aper_on ROUND_ROBIN M' 0 = {#4#} \<and> aper_on ROUND_ROBIN M' 1 = {#3#}"
proof -
  have n: "num_cpus sample_machine = 2" by (simp add: sample_machine_def)
  have k: "bound_cpu (m_ks sample_machine 4) < 0" "tstatus (m_ks sample_machine 4) = NK_THR_SUSPENDED"
    "status (m_ts sample_machine 4) = ADMITTED"
    by (simp_all add: sample_machine_def)
  show ?thesis
    using thread_move_conserves [OF sample_placed, of 1 4 0 0] k n
    by (auto simp: sample_on MAX_QUEUE_def add_mset_commute)
qed

text \<open>
  C23. A theft takes exactly what it should. If the victim has more aperiodic threads than the
  thief and the thief's queue has room for \<open>maxcount\<close> more, the call returns and the threads
  stolen are the first \<open>maxcount\<close> threads of the victim's queue that are not idle, interrupt or
  bound threads, as far as they are suspended and admitted; they leave the victim's queue, join
  the thief's, are marked as being on the thief's CPU and are counted; no other queue and no other
  thread is touched.
\<close>
theorem theft_takes_eligible:
  assumes "placed m M" "me < num_cpus M" "v < num_cpus M" "v \<noteq> me" "maxcount \<noteq> 0"
    "sched_state (cpus M v) = Some s" "size (aper_on m M me) < size (aper_on m M v)"
    "size (aper_on m M me) + unat maxcount \<le> MAX_QUEUE"
    "stolen = filter (movable M) (take (unat maxcount) (filter (stealable (view M v s)) (aper_list m (view M v s))))"
  shows "\<exists>M'. nk_sched_cpu_mug m me rnds (int v) maxcount M = Some (Inr (0, of_nat (length stolen), M')) \<and>
    placed m M' \<and> aper_on m M' me = aper_on m M me + mset stolen \<and> aper_on m M v = aper_on m M' v + mset stolen \<and>
    (\<forall>k. k \<noteq> me \<longrightarrow> k \<noteq> v \<longrightarrow> aper_on m M' k = aper_on m M k) \<and>
    (\<forall>t. t \<notin> set stolen \<longrightarrow> m_ks M' t = m_ks M t) \<and> (\<forall>t \<in> set stolen. current_cpu (m_ks M' t) = int me)"
proof -
  let ?V = "view M v s" and ?n = "unat maxcount"
  let ?us = "take ?n (filter (stealable ?V) (aper_list m ?V))"
  obtain s' where s': "sched_state (cpus M me) = Some s'" "aper_inv m (view M me s')"
    "aper_on m M me = aper_members m (view M me s')" "sched_of M (int me) = Inr s'"
    using placedD [OF assms(1,2)] .
  have so: "sched_of M (int v) = Inr s" using assms(3,6) by (simp add: sched_of_def)
  have on: "aper_on m M v = mset (aper_list m ?V)" using aper_on_view [OF assms(6)] mset_aper_list [of m ?V] by simp
  have d: "distinct (aper_list m ?V)"
    using placed_elim(1) [OF assms(1,3)] unfolding on distinct_count_atmost_1 by (metis count_mset_0_iff not_in_iff set_mset_mset)
  have pos: "0 < ?n" using assms(5) by (simp add: unat_gt_0)
  have z: "SIZE_APERIODIC m ?V > SIZE_APERIODIC m (view M me s')"
    using assms(7) s'(3) aper_on_view [OF assms(6)] by (simp add: SIZE_APERIODIC_eq)
  have p: "prospects m ?V ?n 0 [] = Inr ?us" using prospects_spec [of "[]" ?n 0 m ?V] pos by simp
  have us: "distinct ?us" "\<forall>t \<in> set ?us. t \<in># aper_on m M v \<and> bound_cpu (m_ks M t) < 0"
    using d on by (auto simp: stealable_def dest: in_set_takeD)
  have "size (aper_on m M me) + length ?us \<le> MAX_QUEUE" using assms(8) by (simp add: min_def)
  then obtain M' where st: "steal m me ?us 0 M = Some (Inr (0 + of_nat (length stolen), M'))" "stolen_to m v me stolen M M'"
    using steal_spec [OF assms(1,3,2,4) us, of 0] assms(9) by blast
  let ?M = "add_thefts me (of_nat (length stolen)) M'"
  have "nk_sched_cpu_mug m me rnds (int v) maxcount M = Some (Inr (0, of_nat (length stolen), ?M))"
    using assms(4) so s'(4) z p st(1) by (simp add: nk_sched_cpu_mug_def mug_from_def Let_def)
  with add_thefts_stolen [OF st(2), of "of_nat (length stolen)"] show ?thesis by (auto simp: stolen_to_def)
qed

theorem theft_takes_eligible_witness:
  "\<exists>M'. nk_sched_cpu_mug ROUND_ROBIN 0 [] 1 8 sample_machine = Some (Inr (0, 1, M')) \<and>
    aper_on ROUND_ROBIN M' 0 = {#4#} \<and> aper_on ROUND_ROBIN M' 1 = {#3#}"
proof -
  let ?s = "zero_rt_scheduler\<lparr>aperiodic := pair_queue\<rparr>"
  have n: "num_cpus sample_machine = 2" "sched_state (cpus sample_machine 1) = Some ?s" by (simp_all add: sample_machine_def)
  have st: "filter (movable sample_machine) (take (unat (8 :: u64))
      (filter (stealable (view sample_machine 1 ?s)) (aper_list ROUND_ROBIN (view sample_machine 1 ?s)))) = [4]"
    by (simp add: aper_list_def pair_list stealable_def movable_def)
      (simp add: sample_machine_def zero_rt_thread_def blank_view_def)
  have "\<exists>M'. nk_sched_cpu_mug ROUND_ROBIN 0 [] (int 1) 8 sample_machine = Some (Inr (0, of_nat (length [4 :: nat]), M')) \<and>
    placed ROUND_ROBIN M' \<and> aper_on ROUND_ROBIN M' 0 = aper_on ROUND_ROBIN sample_machine 0 + mset [4] \<and>
    aper_on ROUND_ROBIN sample_machine 1 = aper_on ROUND_ROBIN M' 1 + mset [4] \<and>
    (\<forall>k. k \<noteq> 0 \<longrightarrow> k \<noteq> 1 \<longrightarrow> aper_on ROUND_ROBIN M' k = aper_on ROUND_ROBIN sample_machine k) \<and>
    (\<forall>t. t \<notin> set [4] \<longrightarrow> m_ks M' t = m_ks sample_machine t) \<and> (\<forall>t \<in> set [4]. current_cpu (m_ks M' t) = int 0)"
    by (rule theft_takes_eligible [OF sample_placed _ _ _ _ n(2)])
      (simp_all add: n(1) sample_on MAX_QUEUE_def st [symmetric])
  then show ?thesis by (auto simp: sample_on add_mset_commute)
qed

text \<open>
  On a machine with a single CPU, stealing from a random victim never returns: whatever random
  words are drawn, the selection of a victim keeps drawing, because the only CPU is the thief.
\<close>
lemma single_cpu_theft_spins:
  assumes "num_cpus M = 1"
  shows "nk_sched_cpu_mug m 0 rnds (-1) maxcount M = None"
proof -
  have "select_victim m 0 rnds M = None"
    using assms by (induction m "0 :: nat" rnds M rule: select_victim.induct) (simp_all add: Let_def)
  then show ?thesis by (simp add: nk_sched_cpu_mug_def)
qed

lemma single_cpu_theft_spins_witness:
  "nk_sched_cpu_mug ROUND_ROBIN 0 [3, 8, 5, 5] (-1) 4 (sample_machine\<lparr>num_cpus := 1\<rparr>) = None"
  by (rule single_cpu_theft_spins) simp

end
