(* ===== verification/Change.thy ===== *)
theory Change
  imports Sched_Ops
begin

text \<open>
  Changing a thread's constraints, end to end: admission, the pending queue, the forced pass in
  which the thread arrives, and its dispatch, for a thread that is the only real-time thread of
  its CPU. A periodic thread comes out of it running with a full slice; a sporadic one fails an
  assertion, because its accounting starts at time zero.
\<close>

section \<open>Queues of one thread\<close>

lemma enqueue_empty:
  "pq_size q = 0 \<Longrightarrow> rt_priority_queue_enqueue th q t =
    (0, th(t := (th t)\<lparr>q_type := pq_type q\<rparr>), q\<lparr>pq_size := 1, pq_threads := (pq_threads q)(0 := t)\<rparr>)"
  by (simp add: rt_priority_queue_enqueue_def MAX_QUEUE_def sift_up.simps [of _ _ _ 0] parent_def)

lemma dequeue_single:
  "pq_size q = 1 \<Longrightarrow> rt_priority_queue_dequeue th q = (pq_threads q 0, q\<lparr>pq_size := 0\<rparr>)"
  by (simp add: rt_priority_queue_dequeue_def sift_down.simps [of _ _ 0] left_child_def)

lemma pump_none: "pq_size (pending (sched S)) = 0 \<Longrightarrow> pump_pending now S = Inr S"
  by (subst pump_pending.simps) (simp add: HAVE_RT_PENDING_def rt_priority_queue_empty_def)

definition arrived :: "ptr \<Rightarrow> cpu_view \<Rightarrow> cpu_view" where
  "arrived c S =
     S\<lparr>ts := (ts S)(c := (arrive (ts S c))\<lparr>q_type := pq_type (runnable (sched S))\<rparr>),
       sched := (sched S)\<lparr>pending := (pending (sched S))\<lparr>pq_size := 0\<rparr>,
         runnable := (runnable (sched S))\<lparr>pq_size := 1, pq_threads := (pq_threads (runnable (sched S)))(0 := c)\<rparr>\<rparr>\<rparr>"

lemma pump_single:
  assumes "pq_size (pending (sched S)) = 1" "pq_threads (pending (sched S)) 0 = c" "c \<noteq> NULL"
    "deadline (ts S c) \<le> now" "pq_size (runnable (sched S)) = 0"
  shows "pump_pending now S = Inr (arrived c S)"
proof -
  let ?S1 = "S\<lparr>sched := (sched S)\<lparr>pending := (pending (sched S))\<lparr>pq_size := 0\<rparr>\<rparr>\<rparr>"
  have g: "GET_NEXT_RT_PENDING S = (c, ?S1)"
    using assms(1,2) by (simp add: GET_NEXT_RT_PENDING_def dequeue_single)
  have p: "PUT_RT (upd_rt c arrive ?S1) c = (0, arrived c S)"
    using assms(5) by (simp add: PUT_RT_def enqueue_empty arrived_def upd_rt_def)
  have "pump_pending now (arrived c S) = Inr (arrived c S)"
    by (rule pump_none) (simp add: arrived_def)
  then show ?thesis
    using assms(1-4) g p
    by (subst pump_pending.simps) (simp add: HAVE_RT_PENDING_def PEEK_RT_PENDING_def rt_priority_queue_empty_def)
qed

definition left_queue :: "ptr \<Rightarrow> cpu_view \<Rightarrow> cpu_view" where
  "left_queue c S = suspend c (S\<lparr>sched := (sched S)\<lparr>runnable := (runnable (sched S))\<lparr>pq_size := 0\<rparr>\<rparr>\<rparr>)"

lemma choose_changing:
  assumes "ctype (constraints (ts S c)) \<noteq> APERIODIC" "c \<noteq> NULL"
  shows "choose_next m rnd now CHANGING c (arrived c S) = Inr (c, left_queue c (arrived c S))"
proof -
  have "HAVE_RT (arrived c S)" "PEEK_RT (arrived c S) = c"
    by (simp_all add: HAVE_RT_def PEEK_RT_def rt_priority_queue_empty_def arrived_def)
  moreover have "changing_fast (arrived c S) = Inr (c, left_queue c (arrived c S))"
  proof -
    have "rt_priority_queue_dequeue th (runnable (sched (arrived c S))) =
        (c, (runnable (sched (arrived c S)))\<lparr>pq_size := 0\<rparr>)" for th
      by (simp add: arrived_def dequeue_single)
    then show ?thesis using assms(2) by (simp add: changing_fast_def GET_NEXT_RT_def left_queue_def)
  qed
  moreover have "constraints (ts (arrived c S) c) = constraints (ts S c)" by (simp add: arrived_def)
  ultimately show ?thesis
    using assms(1) by (cases "ctype (constraints (ts S c))")
      (simp_all add: choose_next_def resched_sporadic_def resched_periodic_def)
qed

text \<open>The forced pass of a thread that is alone on the pending queue and whose arrival has come.\<close>

lemma changing_pass:
  assumes "pq_size (pending (sched S)) = 1" "pq_threads (pending (sched S)) 0 = c" "c \<noteq> NULL"
    "pq_size (runnable (sched S)) = 0" "status (ts S c) = CHANGING" "ctype (constraints (ts S c)) \<noteq> APERIODIC"
    "cycles_per_us (apic S) \<noteq> 0" "force e" "deadline (ts S c) \<le> pass_now e S"
  shows "sched_need_resched m e c S =
    out_good e (pass_now e S) CHANGING c c (left_queue c (arrived c (charge (pass_now e S) c S)))"
proof -
  let ?S1 = "charge (pass_now e S) c S"
  have "\<not> stay_early (pass_now e S) c ?S1" using assms(5) by (simp add: stay_early_def CUR_IS_SPECIAL_def)
  moreover have "pump_pending (pass_now e S) ?S1 = Inr (arrived c ?S1)"
    by (rule pump_single) (use assms in simp_all)
  moreover have "choose_next m (rnd_word e) (pass_now e S) CHANGING c (arrived c ?S1) = Inr (c, left_queue c (arrived c ?S1))"
    by (rule choose_changing) (use assms in simp_all)
  ultimately show ?thesis
    using assms(5,7,8) cur_time_now [OF assms(7)] by (simp add: sched_need_resched_def Let_def)
qed

lemma charged_arrival:
  assumes "ctype (constraints (ts S c)) = PERIODIC"
  shows "run_time (ts (left_queue c (arrived c (charge now c S))) c) = 0"
    "deadline (ts (left_queue c (arrived c (charge now c S))) c) = deadline (ts S c) + periodic_period (constraints (ts S c))"
  using assms by (simp_all add: left_queue_def arrived_def arrive_def charge_def Let_def)

lemma charged_sporadic:
  assumes "ctype (constraints (ts S c)) = SPORADIC"
  shows "run_time (ts (left_queue c (arrived c (charge now c S))) c) = run_time (ts S c) + (now - start_time (ts S c))"
  using assms by (simp add: left_queue_def arrived_def arrive_def charge_def Let_def)

lemma next_preempt_upd [simp]:
  "next_preempt (r\<lparr>resched_long_count := k, status := st\<rparr>) c now = next_preempt r c now"
  by (simp add: next_preempt_def split: constraint_type.splits)

lemma out_good_asserts:
  assumes "next_preempt (ts S c) (cfg (sched S)) now = Inl f" "c \<noteq> NULL"
  shows "out_good e now CHANGING c c S = Inl f"
  using assms by (simp add: out_good_def set_timer_def Let_def)

lemma out_good_stays:
  assumes p: "next_preempt (ts S c) (cfg (sched S)) now = Inr pre" and c: "c \<noteq> NULL" "tstatus (ks S c) = NK_THR_SUSPENDED"
    and a: "ps_per_tick (apic S) \<noteq> 0" "cycles_per_us (apic S) \<noteq> 0" and q: "pq_size (pending (sched S)) = 0"
  obtains S' where "out_good e now CHANGING c c S = Inr (NULL, S')"
    "ts S' = (ts S)(c := (ts S c)\<lparr>resched_long_count := resched_long_count (ts S c) + 1, status := ADMITTED, start_time := now\<rparr>)"
    "ks S' = (ks S)(c := (ks S c)\<lparr>tstatus := NK_THR_RUNNING\<rparr>)" "current (sched S') = c"
    "set_time (tsc (sched S')) = pre" "runnable (sched S') = runnable (sched S)" "pending (sched S') = pending (sched S)"
    "timer_set (apic S')"
proof -
  let ?S2 = "upd_sched (\<lambda>s. s\<lparr>current := c\<rparr>)
      (upd_rt c (\<lambda>r. r\<lparr>resched_long_count := resched_long_count r + 1, status := ADMITTED\<rparr>) S)"
  have arr: "next_arrival ?S2 = -1" using q by (simp add: next_arrival_def HAVE_RT_PENDING_def rt_priority_queue_empty_def)
  have st: "(if (-1 :: u64) < pre then -1 else pre) = pre" by (simp add: not_less)
  obtain ticks where t: "apic_realtime_to_ticks (apic S) (pre - now + slack (sched S)) = Inr ticks"
    using realtime_to_ticks_returns [OF a(1)] by blast
  obtain t2 where t2: "cur_time (apic S) (cycles_set e) = Inr t2"
    using cycles_to_realtime_returns [OF a(2)] by (auto simp: cur_time_def)
  let ?S3 = "(upd_sched (\<lambda>s. s\<lparr>tsc := (tsc s)\<lparr>tsc_start_time := now, set_time := pre\<rparr>\<rparr>)
      (upd_rt c (\<lambda>r. r\<lparr>start_time := now\<rparr>) ?S2))\<lparr>apic := apic_update_oneshot_timer (apic S) (if t2 \<ge> pre then 1 else ticks) IF_EARLIER\<rparr>"
  have timer: "set_timer ?S2 c now (cycles_set e) = Inr ?S3"
    using c(1) t t2 p by (simp add: set_timer_def arr st Let_def)
  let ?S' = "upd_sched (\<lambda>s. s\<lparr>resched_slow_noswitch := INST_SCHED_OUT (inst_diff e) (resched_slow_noswitch s)\<rparr>) (mark_running c ?S3)"
  have "out_good e now CHANGING c c S = Inr (NULL, ?S')"
    using timer by (simp add: out_good_def Let_def)
  then show ?thesis
    by (rule that) (use c(2) in \<open>simp_all add: mark_running_def\<close>)
qed

section \<open>The thread on the pending queue\<close>

text \<open>The state after an admission that put the thread on an empty pending queue.\<close>

definition pended :: "ptr \<Rightarrow> rt_thread \<Rightarrow> cpu_view \<Rightarrow> cpu_view" where
  "pended t r S =
     S\<lparr>ts := (ts S)(t := r\<lparr>q_type := pq_type (pending (sched S)), status := ADMITTED\<rparr>),
       ks := (ks S)(t := (ks S t)\<lparr>tstatus := NK_THR_SUSPENDED\<rparr>),
       sched := (sched S)\<lparr>pending := (pending (sched S))\<lparr>pq_size := 1, pq_threads := (pq_threads (pending (sched S)))(0 := t)\<rparr>\<rparr>\<rparr>"

lemma runnable_as_rt:
  assumes "rt_thread_admit (ts S) (sched S) (ts S t) now = Inr (0, r)" "ctype (constraints r) \<noteq> APERIODIC"
    "pq_size (pending (sched S)) = 0"
  shows "make_runnable_at m True (Inr now) t S = Inr (0, pended t r S)"
proof -
  have "PUT_RT_PENDING (upd_rt t (\<lambda>_. r) S) t =
      (0, S\<lparr>ts := (ts S)(t := r\<lparr>q_type := pq_type (pending (sched S))\<rparr>),
           sched := (sched S)\<lparr>pending := (pending (sched S))\<lparr>pq_size := 1, pq_threads := (pq_threads (pending (sched S)))(0 := t)\<rparr>\<rparr>\<rparr>)"
    using assms(3) by (simp add: PUT_RT_PENDING_def enqueue_empty upd_rt_def)
  with assms(1,2) show ?thesis
    by (simp add: make_runnable_at_def put_runnable_def pended_def upd_rt_def upd_kt_def)
qed

lemma pended_simps:
  "pq_size (pending (sched (pended t r S))) = 1" "pq_threads (pending (sched (pended t r S))) 0 = t"
  "runnable (sched (pended t r S)) = runnable (sched S)" "apic (pended t r S) = apic S" "cr8 (pended t r S) = cr8 S"
  "ts (pended t r S) t = r\<lparr>q_type := pq_type (pending (sched S)), status := ADMITTED\<rparr>"
  "cfg (sched (pended t r S)) = cfg (sched S)" "tstatus (ks (pended t r S) t) = NK_THR_SUSPENDED"
  by (simp_all add: pended_def)

section \<open>The whole change\<close>

lemma view_special:
  "view (upd_m_rt t f (upd_cpu me (\<lambda>k. k\<lparr>preempt_level := g k, irqs_on := h k\<rparr>) (store_view me P M))) me (sched P) = upd_rt t f P"
  by (simp add: view_def upd_rt_def)

lemma view_locked:
  "view (set_constraints t new (upd_cpu me (\<lambda>k. k\<lparr>irqs_on := b\<rparr>) M)) me s = view (set_constraints t new M) me s"
  by (simp add: view_def set_constraints_def)

text \<open>
  What a thread that changes alone on its CPU starts from: CPU \<open>me\<close> runs the aperiodic thread
  \<open>t\<close>, has no real-time thread and a calibrated timer, and grants the new constraints.
\<close>

definition change_start ::
  "nat \<Rightarrow> ptr \<Rightarrow> rt_scheduler \<Rightarrow> change_env \<Rightarrow> nk_sched_constraints \<Rightarrow> rt_thread \<Rightarrow> machine \<Rightarrow> bool" where
  "change_start me t s v new r M \<longleftrightarrow>
     sched_state (cpus M me) = Some s \<and> me < num_cpus M \<and> t = cur_thread (cpus M me) \<and> t \<noteq> NULL \<and>
     current_cpu (m_ks M t) = int me \<and> ctype (constraints (m_ts M t)) = APERIODIC \<and> ctype new \<noteq> APERIODIC \<and>
     pq_size (runnable s) = 0 \<and> pq_size (pending s) = 0 \<and>
     cycles_per_us (lapic (cpus M me)) \<noteq> 0 \<and> ps_per_tick (lapic (cpus M me)) \<noteq> 0 \<and>
     rt_thread_admit ((m_ts M)(t := (m_ts M t)\<lparr>constraints := new\<rparr>)) s ((m_ts M t)\<lparr>constraints := new\<rparr>)
       (1000 * (admit_cycles v div cycles_per_us (lapic (cpus M me)))) = Inr (0, r)"

lemma admitted_constraints:
  assumes "rt_thread_admit th s t now = Inr (0, r)"
  obtains d where "r = admitted t d"
  using assms admit_periodic_cases [of th s t _ now 0 r] admit_sporadic_cases [of th s t _ now 0 r]
  by (auto simp: rt_thread_admit_def Let_def admitted_def split: if_splits constraint_type.splits)

lemma change_to_pass:
  assumes "change_start me t s v2 new r M"
  defines "P \<equiv> pended t r (view (set_constraints t new M) me s)"
  defines "e \<equiv> (pass_env v2)\<lparr>preempt_off := True, force := True\<rparr>"
  shows "constraints r = new" "run_time r = 0" "start_time r = 0"
    "sched_need_resched m e t (upd_rt t (\<lambda>r. r\<lparr>status := CHANGING\<rparr>) P) = Inl f \<Longrightarrow>
      nk_sched_thread_change_constraints m v1 v2 k new me M = Inl f"
    "sched_need_resched m e t (upd_rt t (\<lambda>r. r\<lparr>status := CHANGING\<rparr>) P) = Inr (NULL, S') \<Longrightarrow>
      \<exists>M'. nk_sched_thread_change_constraints m v1 v2 k new me M = Inr (0, me, M') \<and>
        m_ts M' = (ts S')(t := (ts S' t)\<lparr>status := ADMITTED\<rparr>) \<and> m_ks M' = ks S' \<and>
        sched_state (cpus M' me) = Some (sched S') \<and> lapic (cpus M' me) = apic S' \<and>
        cur_thread (cpus M' me) = t \<and> preempt_level (cpus M' me) = preempt_level (cpus M me) \<and>
        irqs_on (cpus M' me) = irqs_on (cpus M me)"
proof -
  have a: "sched_state (cpus M me) = Some s" "me < num_cpus M" "t = cur_thread (cpus M me)" "t \<noteq> NULL"
    "current_cpu (m_ks M t) = int me" "ctype (constraints (m_ts M t)) = APERIODIC" "ctype new \<noteq> APERIODIC"
    "pq_size (pending s) = 0" "cycles_per_us (lapic (cpus M me)) \<noteq> 0"
    "rt_thread_admit ((m_ts M)(t := (m_ts M t)\<lparr>constraints := new\<rparr>)) s ((m_ts M t)\<lparr>constraints := new\<rparr>)
       (1000 * (admit_cycles v2 div cycles_per_us (lapic (cpus M me)))) = Inr (0, r)"
    using assms(1) unfolding change_start_def by blast+
  obtain d where r: "r = admitted ((m_ts M t)\<lparr>constraints := new\<rparr>) d" using admitted_constraints [OF a(10)] .
  show c: "constraints r = new" "run_time r = 0" "start_time r = 0"
    by (simp_all add: r) (simp add: admitted_def reset_state_def reset_stats_def)
  let ?M1 = "upd_cpu me (\<lambda>k. k\<lparr>irqs_on := False\<rparr>) M"
  let ?S = "view (set_constraints t new M) me s"
  have now: "cur_time (lapic (cpus M me)) (admit_cycles v2) = Inr (1000 * (admit_cycles v2 div cycles_per_us (lapic (cpus M me))))"
    using a(9) by (simp add: cur_time_def apic_cycles_to_realtime_def udiv_def)
  have "make_runnable_at m True (Inr (1000 * (admit_cycles v2 div cycles_per_us (lapic (cpus M me))))) t ?S = Inr (0, P)"
    unfolding P_def using a(7,8,10) c(1) by (intro runnable_as_rt) (simp_all add: set_constraints_def)
  then have mk: "make_current_runnable m me (admit_cycles v2) t (set_constraints t new ?M1) =
      Inr (0, store_view me P (set_constraints t new ?M1))"
    using a(1,2,5) now view_locked [of t new me False M s]
    by (simp add: make_current_runnable_def sched_make_runnable_def target_cpu_def CPU_ANY_def set_constraints_def)
  have st: "status (ts P t) = ADMITTED" by (simp add: P_def pended_simps)
  let ?off = "preempt_level (cpus M me) = 0"
  let ?M2 = "store_view me P (set_constraints t new ?M1)"
  let ?M3 = "upd_m_rt t (\<lambda>r. r\<lparr>status := CHANGING\<rparr>) (upd_cpu me (\<lambda>k. k\<lparr>preempt_level := (if ?off then preempt_level k + 1 else preempt_level k), irqs_on := irqs_on k\<rparr>) ?M2)"
  have vw: "view ?M3 me (sched P) = upd_rt t (\<lambda>r. r\<lparr>status := CHANGING\<rparr>) P" by (rule view_special)
  have cur: "cur_thread (cpus M me) = t" using a(3) by simp
  have sp: "handle_special_switch m (pass_env v2) (resumption v2) CHANGING True (irqs_on (cpus M me)) me ?M2 =
      bindr (resched_on m e me ?M3) (\<lambda>(n, M2).
        let (i, M3) = (if n = NULL then (me, M2) else resumption v2 n (upd_cpu me (\<lambda>k. k\<lparr>preempt_level := 0\<rparr>) M2))
        in Inr (i, upd_cpu i (\<lambda>k. k\<lparr>irqs_on := (irqs_on k \<or> irqs_on (cpus M me)),
               preempt_level := (if n = NULL \<and> ?off then preempt_level k - 1 else preempt_level k)\<rparr>)
             (upd_m_rt t (\<lambda>r. r\<lparr>status := ADMITTED\<rparr>) M3)))"
    by (simp add: handle_special_switch_def set_constraints_def cur st e_def Let_def)
  have rs: "resched_on m e me ?M3 = bindr (sched_need_resched m e t (upd_rt t (\<lambda>r. r\<lparr>status := CHANGING\<rparr>) P)) (\<lambda>(n, S). Inr (n, store_view me S ?M3))"
    using vw by (simp add: resched_on_def set_constraints_def cur)
  have all: "nk_sched_thread_change_constraints m v1 v2 k new me M =
      bindr (handle_special_switch m (pass_env v2) (resumption v2) CHANGING True (irqs_on (cpus M me)) me ?M2) (\<lambda>(i, M2). Inr (0, i, M2))"
    using a(1,6) mk cur by (simp add: nk_sched_thread_change_constraints_def local_lock_def change_final_def Let_def)
  show "nk_sched_thread_change_constraints m v1 v2 k new me M = Inl f"
    if "sched_need_resched m e t (upd_rt t (\<lambda>r. r\<lparr>status := CHANGING\<rparr>) P) = Inl f"
    using that unfolding all sp rs by simp
  show "\<exists>M'. nk_sched_thread_change_constraints m v1 v2 k new me M = Inr (0, me, M') \<and>
        m_ts M' = (ts S')(t := (ts S' t)\<lparr>status := ADMITTED\<rparr>) \<and> m_ks M' = ks S' \<and>
        sched_state (cpus M' me) = Some (sched S') \<and> lapic (cpus M' me) = apic S' \<and>
        cur_thread (cpus M' me) = t \<and> preempt_level (cpus M' me) = preempt_level (cpus M me) \<and>
        irqs_on (cpus M' me) = irqs_on (cpus M me)"
    if "sched_need_resched m e t (upd_rt t (\<lambda>r. r\<lparr>status := CHANGING\<rparr>) P) = Inr (NULL, S')"
    using that unfolding all sp rs by (auto simp: set_constraints_def cur)
qed

lemma changing_start:
  assumes "change_start me t s v new r M"
  defines "P \<equiv> upd_rt t (\<lambda>r. r\<lparr>status := CHANGING\<rparr>) (pended t r (view (set_constraints t new M) me s))"
  defines "now \<equiv> 1000 * (cycles_in (pass_env v) div cycles_per_us (lapic (cpus M me)))"
  assumes "deadline r \<le> now"
  shows "sched_need_resched m ((pass_env v)\<lparr>preempt_off := True, force := True\<rparr>) t P =
      out_good ((pass_env v)\<lparr>preempt_off := True, force := True\<rparr>) now CHANGING t t (left_queue t (arrived t (charge now t P)))"
    "ts P t = r\<lparr>q_type := pq_type (pending s), status := CHANGING\<rparr>" "apic P = lapic (cpus M me)"
    "cfg (sched P) = cfg s"
proof -
  have a: "t \<noteq> NULL" "pq_size (runnable s) = 0" "ctype new \<noteq> APERIODIC" "cycles_per_us (lapic (cpus M me)) \<noteq> 0"
    using assms(1) by (simp_all add: change_start_def)
  note c = change_to_pass(1) [OF assms(1)]
  show p: "ts P t = r\<lparr>q_type := pq_type (pending s), status := CHANGING\<rparr>" "apic P = lapic (cpus M me)"
    "cfg (sched P) = cfg s"
    by (simp_all add: P_def pended_def view_def set_constraints_def)
  have n: "pass_now e P = 1000 * (cycles_in e div cycles_per_us (lapic (cpus M me)))" for e
    by (simp add: pass_now_def p(2))
  show "sched_need_resched m ((pass_env v)\<lparr>preempt_off := True, force := True\<rparr>) t P =
      out_good ((pass_env v)\<lparr>preempt_off := True, force := True\<rparr>) now CHANGING t t (left_queue t (arrived t (charge now t P)))"
  proof -
    let ?e = "(pass_env v)\<lparr>preempt_off := True, force := True\<rparr>"
    have x: "pq_size (pending (sched P)) = 1" "pq_threads (pending (sched P)) 0 = t" "pq_size (runnable (sched P)) = 0"
      using a(2) by (simp_all add: P_def pended_simps)
    have y: "status (ts P t) = CHANGING" "ctype (constraints (ts P t)) \<noteq> APERIODIC" "deadline (ts P t) = deadline r"
      unfolding p(1) using a(3) c by simp_all
    have z: "pass_now ?e P = now" by (simp add: n now_def)
    show ?thesis
      using changing_pass [OF x(1,2) a(1) x(3) y(1,2), of ?e m] a(4) p(2) y(3) assms(4) unfolding z by simp
  qed
qed

section \<open>Properties\<close>

text \<open>
  A CPU whose current thread 5 is aperiodic and asks, at time 100000, for a slice of 100 in every
  1000 nanoseconds, or for 100 nanoseconds before time 900000.
\<close>

definition lone_sched :: rt_scheduler where
  "lone_sched = zero_rt_scheduler\<lparr>cfg := \<lparr>util_limit = 900000, sporadic_reservation = 100000,
     aperiodic_reservation = 100000, aperiodic_quantum = 10000, aperiodic_default_priority = 5\<rparr>\<rparr>"

definition lone_machine :: machine where
  "lone_machine =
     \<lparr>m_ts = (\<lambda>_. zero_rt_thread\<lparr>status := ADMITTED\<rparr>),
      m_ks = (\<lambda>t. (ks blank_view t)\<lparr>tstatus := NK_THR_RUNNING\<rparr>),
      cpus = (\<lambda>i. \<lparr>sched_state = Some lone_sched, lapic = (apic blank_view)\<lparr>ps_per_tick := 1000, cycles_per_us := 1000\<rparr>,
                 tpr = 0, cur_thread = 5, preempt_level = 0, irqs_on = True\<rparr>),
      num_cpus = 1\<rparr>"

definition lone_env :: change_env where
  "lone_env = \<lparr>admit_cycles = 100000,
     pass_env = \<lparr>cycles_in = 100000, cycles_set = 100001, inst_diff = 10, rnd_word = 0, preempt_off = False, force = False\<rparr>,
     resumption = (\<lambda>_ M. (0, M))\<rparr>"

definition lone_periodic :: nk_sched_constraints where
  "lone_periodic = \<lparr>ctype = PERIODIC, interrupt_priority_class = 0, word0 = 0, word1 = 1000, word2 = 100, word3 = 0\<rparr>"

definition lone_sporadic :: nk_sched_constraints where
  "lone_sporadic = \<lparr>ctype = SPORADIC, interrupt_priority_class = 0, word0 = 0, word1 = 100, word2 = 900000, word3 = 5\<rparr>"

lemma lone_simps:
  "sched_state (cpus lone_machine i) = Some lone_sched" "num_cpus lone_machine = 1" "cur_thread (cpus lone_machine i) = 5"
  "current_cpu (m_ks lone_machine t) = 0" "ctype (constraints (m_ts lone_machine t)) = APERIODIC"
  "cycles_per_us (lapic (cpus lone_machine i)) = 1000" "ps_per_tick (lapic (cpus lone_machine i)) = 1000"
  "admit_cycles lone_env = 100000" "pq_size (runnable lone_sched) = 0" "pq_size (pending lone_sched) = 0"
  "ctype lone_periodic = PERIODIC" "ctype lone_sporadic = SPORADIC"
  by (simp_all add: lone_machine_def lone_env_def lone_sched_def zero_rt_scheduler_def zero_rt_thread_def
      aperiodic_constraints_def blank_view_def lone_periodic_def lone_sporadic_def)

lemma lone_queues: "pq_list (runnable lone_sched) = []" "pq_list (pending lone_sched) = []"
  by (simp_all add: pq_list_def lone_simps)

lemma lone_grants:
  "rt_thread_admit th lone_sched (x\<lparr>constraints := lone_periodic\<rparr>) 100000 =
    Inr (0, admitted (x\<lparr>constraints := lone_periodic\<rparr>) 100000)"
  "rt_thread_admit th lone_sched (x\<lparr>constraints := lone_sporadic\<rparr>) 100000 =
    Inr (0, admitted (x\<lparr>constraints := lone_sporadic\<rparr>) 100000)"
  by (simp add: rt_thread_admit_def admit_periodic_def get_periodic_util_def lone_queues get_periodic_util_rms_limit_def
      rms_levels_def lone_periodic_def periodic_slice_def periodic_period_def periodic_start_def periodic_phase_def
      UTIL_ONE_def udiv_def admitted_def Let_def)
    (simp add: lone_sched_def,
     simp add: rt_thread_admit_def admit_sporadic_def get_sporadic_util_def lone_queues
      lone_sporadic_def sporadic_phase_def sporadic_size_def sporadic_deadline_def periodic_phase_def
      UTIL_ONE_def udiv_def admitted_def Let_def,
     simp add: lone_sched_def)

lemma lone_admits:
  "\<exists>r. deadline r = 100000 \<and> change_start 0 5 lone_sched lone_env lone_periodic r lone_machine"
  "\<exists>r. deadline r = 100000 \<and> change_start 0 5 lone_sched lone_env lone_sporadic r lone_machine"
proof -
  show "\<exists>r. deadline r = 100000 \<and> change_start 0 5 lone_sched lone_env lone_periodic r lone_machine"
    by (intro exI [of _ "admitted ((m_ts lone_machine 5)\<lparr>constraints := lone_periodic\<rparr>) 100000"])
      (simp add: change_start_def lone_simps lone_grants)
  show "\<exists>r. deadline r = 100000 \<and> change_start 0 5 lone_sched lone_env lone_sporadic r lone_machine"
    by (intro exI [of _ "admitted ((m_ts lone_machine 5)\<lparr>constraints := lone_sporadic\<rparr>) 100000"])
      (simp add: change_start_def lone_simps lone_grants)
qed

text \<open>
  C22. An aperiodic thread on a CPU without real-time threads (both real-time queues are empty) and
  with a calibrated timer asks for periodic constraints and admission grants them. If the first
  arrival it is given has come at the time of the pass that follows, the thread keeps the CPU as a
  periodic thread: the call returns 0 on the same CPU without a switch, the thread has the new
  constraints, is admitted and running, has its whole slice before it, its deadline is one period
  after its arrival, the timer is set to the end of the slice, the real-time queues are empty
  again, and the preemption level and the interrupt flag are what they were before the call.
\<close>
theorem change_to_periodic:
  assumes "change_start me t s v2 new r M" "ctype new = PERIODIC"
    "now = 1000 * (cycles_in (pass_env v2) div cycles_per_us (lapic (cpus M me)))" "deadline r \<le> now"
  shows "\<exists>M' s'. nk_sched_thread_change_constraints m v1 v2 k new me M = Inr (0, me, M') \<and>
    constraints (m_ts M' t) = new \<and> status (m_ts M' t) = ADMITTED \<and> tstatus (m_ks M' t) = NK_THR_RUNNING \<and>
    run_time (m_ts M' t) = 0 \<and> start_time (m_ts M' t) = now \<and>
    deadline (m_ts M' t) = deadline r + periodic_period new \<and>
    cur_thread (cpus M' me) = t \<and> sched_state (cpus M' me) = Some s' \<and> current s' = t \<and>
    set_time (tsc s') = now + periodic_slice new \<and> pq_size (runnable s') = 0 \<and> pq_size (pending s') = 0 \<and>
    preempt_level (cpus M' me) = preempt_level (cpus M me) \<and> irqs_on (cpus M' me) = irqs_on (cpus M me)"
proof -
  let ?P = "upd_rt t (\<lambda>r. r\<lparr>status := CHANGING\<rparr>) (pended t r (view (set_constraints t new M) me s))"
  let ?e = "(pass_env v2)\<lparr>preempt_off := True, force := True\<rparr>"
  let ?S = "left_queue t (arrived t (charge now t ?P))"
  note c = change_to_pass [OF assms(1)]
  have a: "t \<noteq> NULL" "cycles_per_us (lapic (cpus M me)) \<noteq> 0" "ps_per_tick (lapic (cpus M me)) \<noteq> 0"
    using assms(1) by (simp_all add: change_start_def)
  have p: "sched_need_resched m ?e t ?P = out_good ?e now CHANGING t t ?S"
    "ts ?P t = r\<lparr>q_type := pq_type (pending s), status := CHANGING\<rparr>" "apic ?P = lapic (cpus M me)" "cfg (sched ?P) = cfg s"
    using changing_start [OF assms(1), folded assms(3), OF assms(4)] by simp_all
  have per: "ctype (constraints (ts ?P t)) = PERIODIC" using c(1) assms(2) unfolding p(2) by simp
  note arr = charged_arrival [OF per, of now]
  have con: "constraints (ts ?S t) = new"
    using c(1) p(2) by (simp add: left_queue_def arrived_def del: upd_simps)
  have d: "deadline (ts ?S t) = deadline r + periodic_period new" using arr(2) c(1) unfolding p(2) by simp
  have pre: "next_preempt (ts ?S t) (cfg (sched ?S)) now = Inr (now + periodic_slice new)"
    using arr(1) con assms(2) by (simp add: next_preempt_def)
  have x: "tstatus (ks ?S t) = NK_THR_SUSPENDED" "apic ?S = lapic (cpus M me)" "pq_size (pending (sched ?S)) = 0"
    "pq_size (runnable (sched ?S)) = 0"
    using p(3) by (simp_all add: left_queue_def arrived_def suspend_def)
  obtain S' where S': "out_good ?e now CHANGING t t ?S = Inr (NULL, S')"
    "ts S' = (ts ?S)(t := (ts ?S t)\<lparr>resched_long_count := resched_long_count (ts ?S t) + 1, status := ADMITTED, start_time := now\<rparr>)"
    "ks S' = (ks ?S)(t := (ks ?S t)\<lparr>tstatus := NK_THR_RUNNING\<rparr>)" "current (sched S') = t"
    "set_time (tsc (sched S')) = now + periodic_slice new" "runnable (sched S') = runnable (sched ?S)"
    "pending (sched S') = pending (sched ?S)" "timer_set (apic S')"
    using out_good_stays [OF pre a(1) x(1)] a(2,3) x(2,3) by metis
  have t': "constraints (ts S' t) = new" "run_time (ts S' t) = 0" "start_time (ts S' t) = now"
    "deadline (ts S' t) = deadline r + periodic_period new" "tstatus (ks S' t) = NK_THR_RUNNING"
    using con arr(1) d unfolding S'(2,3) by simp_all
  have "sched_need_resched m ?e t ?P = Inr (NULL, S')" using p(1) S'(1) by simp
  from c(5) [OF this, of v1 k] t' S'(4-7) x(3,4) show ?thesis by auto
qed

theorem change_to_periodic_witness:
  "\<exists>M'. nk_sched_thread_change_constraints ROUND_ROBIN lone_env lone_env 0 lone_periodic 0 lone_machine = Inr (0, 0, M') \<and>
    deadline (m_ts M' 5) = 101000"
proof -
  obtain r where r: "deadline r = 100000" "change_start 0 5 lone_sched lone_env lone_periodic r lone_machine"
    using lone_admits(1) by blast
  have n: "100000 = 1000 * (cycles_in (pass_env lone_env) div cycles_per_us (lapic (cpus lone_machine 0)))"
    by (simp add: lone_env_def lone_machine_def)
  show ?thesis
    using change_to_periodic [OF r(2) _ n, of ROUND_ROBIN lone_env 0] r(1)
    by (auto simp: lone_periodic_def periodic_period_def)
qed

text \<open>
  C35. An aperiodic thread on a CPU without real-time threads (both real-time queues are empty) and
  with a calibrated timer asks for sporadic constraints and admission grants them. If the arrival
  it is given has come at the time of the pass that follows, and the requested size is less than
  that time, which counts from boot, the call ends in a failed assertion: admission clears the
  thread's start time, so the pass charges it for all the time since time zero, the arrival of a
  sporadic thread, unlike that of a periodic one, does not clear the run time, and the assertion
  that guards the timer finds more time used than granted.
\<close>
theorem change_to_sporadic_asserts:
  assumes "change_start me t s v2 new r M" "ctype new = SPORADIC"
    "now = 1000 * (cycles_in (pass_env v2) div cycles_per_us (lapic (cpus M me)))" "deadline r \<le> now"
    "sporadic_size new < now"
  shows "nk_sched_thread_change_constraints m v1 v2 k new me M = Inl FailedAssert"
proof -
  let ?P = "upd_rt t (\<lambda>r. r\<lparr>status := CHANGING\<rparr>) (pended t r (view (set_constraints t new M) me s))"
  let ?e = "(pass_env v2)\<lparr>preempt_off := True, force := True\<rparr>"
  let ?S = "left_queue t (arrived t (charge now t ?P))"
  note c = change_to_pass [OF assms(1)]
  have a: "t \<noteq> NULL" using assms(1) by (simp add: change_start_def)
  have p: "sched_need_resched m ?e t ?P = out_good ?e now CHANGING t t ?S"
    "ts ?P t = r\<lparr>q_type := pq_type (pending s), status := CHANGING\<rparr>"
    using changing_start [OF assms(1), folded assms(3), OF assms(4)] by simp_all
  have sp: "ctype (constraints (ts ?P t)) = SPORADIC" using c(1) assms(2) unfolding p(2) by simp
  have "run_time (ts ?S t) = now" using charged_sporadic [OF sp, of now] c(2,3) unfolding p(2) by simp
  moreover have "constraints (ts ?S t) = new"
    using c(1) p(2) by (simp add: left_queue_def arrived_def del: upd_simps)
  ultimately have "next_preempt (ts ?S t) (cfg (sched ?S)) now = Inl FailedAssert"
    using assms(2,5) by (simp add: next_preempt_def not_le)
  then have "sched_need_resched m ?e t ?P = Inl FailedAssert" unfolding p(1) using a by (rule out_good_asserts)
  then show ?thesis by (rule c(4))
qed

theorem change_to_sporadic_asserts_witness:
  "nk_sched_thread_change_constraints ROUND_ROBIN lone_env lone_env 0 lone_sporadic 0 lone_machine = Inl FailedAssert"
proof -
  obtain r where r: "deadline r = 100000" "change_start 0 5 lone_sched lone_env lone_sporadic r lone_machine"
    using lone_admits(2) by blast
  have n: "100000 = 1000 * (cycles_in (pass_env lone_env) div cycles_per_us (lapic (cpus lone_machine 0)))"
    by (simp add: lone_env_def lone_machine_def)
  show ?thesis
    using change_to_sporadic_asserts [OF r(2) _ n, of ROUND_ROBIN lone_env 0] r(1)
    by (simp add: lone_sporadic_def sporadic_size_def)
qed

end
