(* ===== verification/Barrier.thy ===== *)
theory Barrier
  imports Prelude
begin

text \<open>
  Thread barriers: the barrier of \<open>src/nautilus/barrier.c\<close>, the core barrier, and the reusable
  barrier of a thread group (\<open>src/nautilus/group.c\<close>). Waiting is modelled at the granularity of
  its shared memory accesses: a step function says what a thread does next, and a step relation
  interleaves the participants. An abstract barrier counts arrivals and departures, and the group
  barrier implements it.
\<close>

section \<open>The structure and its sequential operations\<close>

record nk_barrier =
  b_lock :: bool
  remaining :: u32
  init_count :: u32
  active :: bool
  notify :: u32

definition zero_barrier :: nk_barrier where
  "zero_barrier = \<lparr>b_lock = False, remaining = 0, init_count = 0, active = False, notify = 0\<rparr>"

definition EINVAL :: int where
  "EINVAL = 22"

definition nk_barrier_init :: "u32 \<Rightarrow> int \<times> nk_barrier" where
  "nk_barrier_init cnt =
     (if cnt = 0 then (- EINVAL, zero_barrier)
      else (0, zero_barrier\<lparr>init_count := cnt, remaining := cnt\<rparr>))"

text \<open>\<open>None\<close> is a null pointer. The lock is taken and released within the call.\<close>

definition nk_barrier_destroy :: "nk_barrier option \<Rightarrow> int" where
  "nk_barrier_destroy b =
     (case b of None \<Rightarrow> - EINVAL | Some x \<Rightarrow> if remaining x = init_count x then 0 else - EINVAL)"

definition thread_group_barrier_init :: nk_barrier where
  "thread_group_barrier_init = zero_barrier\<lparr>b_lock := False, notify := 0, init_count := 0, remaining := 0\<rparr>"

definition thread_group_barrier_join :: "nk_barrier \<Rightarrow> nk_barrier" where
  "thread_group_barrier_join b = b\<lparr>init_count := init_count b + 1, remaining := remaining b + 1\<rparr>"

definition NK_BARRIER_LAST :: int where
  "NK_BARRIER_LAST = 1"

definition cmpswap :: "u32 \<Rightarrow> u32 \<Rightarrow> u32 \<Rightarrow> u32" where
  "cmpswap v old new = (if v = old then new else v)"

definition thread_group_barrier_leave :: "nk_barrier \<Rightarrow> int \<times> nk_barrier" where
  "thread_group_barrier_leave b =
     (let b1 = b\<lparr>init_count := init_count b - 1, remaining := remaining b - 1\<rparr>
      in if remaining b1 = 0 then (NK_BARRIER_LAST, b1\<lparr>notify := cmpswap (notify b1) 0 1\<rparr>) else (0, b1))"

section \<open>Waiting\<close>

text \<open>
  Where a participant is in the wait: about to take the lock, to read and to write back the
  decremented count, to notify the others (the last one in) or to release the lock (the others),
  spinning, about to increment the count, and, the last one out, about to reset the notification
  and to release the lock.
\<close>

datatype bpc = BIdle | BLock | BRead | BWrite u32 | BNotify | BUnlock | BSpin | BInc | BReset | BRelease

text \<open>\<open>entered\<close> and \<open>passed\<close> count a thread's arrivals and returns; \<open>res\<close> is its return value.\<close>

record bsys =
  bar :: nk_barrier
  pc :: "nat \<Rightarrow> bpc"
  res :: "nat \<Rightarrow> int"
  entered :: "nat \<Rightarrow> nat"
  passed :: "nat \<Rightarrow> nat"

definition go :: "nat \<Rightarrow> bpc \<Rightarrow> nk_barrier \<Rightarrow> bsys \<Rightarrow> bsys" where
  "go t p b s = s\<lparr>bar := b, pc := (pc s)(t := p)\<rparr>"

definition return_from :: "nat \<Rightarrow> bsys \<Rightarrow> bsys" where
  "return_from t s = s\<lparr>passed := (passed s)(t := passed s t + 1)\<rparr>"

text \<open>
  The next access of thread \<open>t\<close>, or \<open>None\<close> when it can only spin. \<open>reset\<close> says whether the last
  thread out resets the notification.
\<close>

definition wait_step :: "bool \<Rightarrow> nat \<Rightarrow> bsys \<Rightarrow> bsys option" where
  "wait_step reset t s =
     (let b = bar s
      in case pc s t of
           BIdle \<Rightarrow> Some (go t BLock b (s\<lparr>res := (res s)(t := 0)\<rparr>))
         | BLock \<Rightarrow> if b_lock b then None else Some (go t BRead (b\<lparr>b_lock := True\<rparr>) s)
         | BRead \<Rightarrow> Some (go t (BWrite (remaining b)) b s)
         | BWrite v \<Rightarrow>
             Some (go t (if v - 1 = 0 then BNotify else BUnlock) (b\<lparr>remaining := v - 1\<rparr>)
               (s\<lparr>entered := (entered s)(t := entered s t + 1)\<rparr>))
         | BNotify \<Rightarrow> Some (go t BInc (b\<lparr>notify := cmpswap (notify b) 0 1\<rparr>) (s\<lparr>res := (res s)(t := NK_BARRIER_LAST)\<rparr>))
         | BUnlock \<Rightarrow> Some (go t BSpin (b\<lparr>b_lock := False\<rparr>) s)
         | BSpin \<Rightarrow> if notify b \<noteq> 1 then None else Some (go t BInc b s)
         | BInc \<Rightarrow>
             let b1 = b\<lparr>remaining := remaining b + 1\<rparr>
             in if remaining b1 = init_count b1 then Some (go t (if reset then BReset else BRelease) b1 s)
                else Some (return_from t (go t BIdle b1 s))
         | BReset \<Rightarrow> Some (go t BRelease (b\<lparr>notify := cmpswap (notify b) 1 0\<rparr>) s)
         | BRelease \<Rightarrow> Some (return_from t (go t BIdle (b\<lparr>b_lock := False\<rparr>) s)))"

definition thread_group_barrier_wait_step :: "nat \<Rightarrow> bsys \<Rightarrow> bsys option" where
  "thread_group_barrier_wait_step = wait_step True"

definition nk_barrier_wait_step :: "nat \<Rightarrow> bsys \<Rightarrow> bsys option" where
  "nk_barrier_wait_step = wait_step False"

text \<open>\<open>n\<close> participants, numbered from 0, take steps in any order.\<close>

inductive runs :: "(nat \<Rightarrow> bsys \<Rightarrow> bsys option) \<Rightarrow> nat \<Rightarrow> bsys \<Rightarrow> bsys \<Rightarrow> bool" for stp n s where
  runs_refl: "runs stp n s s"
| runs_step: "\<lbrakk>runs stp n s s'; t < n; stp t s' = Some s''\<rbrakk> \<Longrightarrow> runs stp n s s''"

definition at_start :: "nk_barrier \<Rightarrow> bsys" where
  "at_start b = \<lparr>bar = b, pc = (\<lambda>_. BIdle), res = (\<lambda>_. 0), entered = (\<lambda>_. 0), passed = (\<lambda>_. 0)\<rparr>"

section \<open>The core barrier\<close>

text \<open>
  The core that raises the barrier takes itself off the count and calls the others; \<open>xcall\<close> is
  \<open>smp_xcall\<close>'s result for a CPU. A core that finds the barrier raised arrives at it instead.
\<close>

definition nk_core_barrier_raise :: "(nat \<Rightarrow> int) \<Rightarrow> nat \<Rightarrow> nat \<Rightarrow> nk_barrier \<Rightarrow> int \<times> nk_barrier \<times> nat list" where
  "nk_core_barrier_raise xcall n me b =
     (if \<not> active b
      then let b1 = b\<lparr>active := True, notify := 0, remaining := init_count b - 1\<rparr>;
               others = filter (\<lambda>i. i \<noteq> me) [0..<n];
               called = takeWhile (\<lambda>i. xcall i = 0) others
           in (if called = others then 0 else - EINVAL, b1, called)
      else (- EINVAL, b\<lparr>remaining := remaining b - 1\<rparr>, []))"

definition nk_core_barrier_arrive :: "nk_barrier \<Rightarrow> int \<times> nk_barrier" where
  "nk_core_barrier_arrive b = (if \<not> active b then (- EINVAL, b) else (0, b\<lparr>remaining := remaining b - 1\<rparr>))"

definition nk_core_barrier_waiting :: "nk_barrier \<Rightarrow> bool" where
  "nk_core_barrier_waiting b \<longleftrightarrow> active b \<and> remaining b \<noteq> 0"

definition nk_core_barrier_lower :: "nk_barrier \<Rightarrow> int \<times> nk_barrier" where
  "nk_core_barrier_lower b =
     (if \<not> active b then (- EINVAL, b) else (0, b\<lparr>notify := cmpswap (notify b) 0 1, active := False\<rparr>))"

section \<open>The phases of a round\<close>

text \<open>
  Round \<open>r\<close> of the group barrier. While threads arrive, \<open>W\<close> is the set of those that have. Then
  the last one notifies, the threads leave, \<open>L\<close> being the set of those that have left, and the
  last one out first resets the notification and then releases the lock.
\<close>

definition before :: "nat \<Rightarrow> bsys \<Rightarrow> nat \<Rightarrow> bool" where
  "before r s t \<longleftrightarrow> entered s t = r \<and> passed s t = r \<and>
     (pc s t = BIdle \<or> pc s t = BLock \<or> pc s t = BRead \<or> pc s t = BWrite (remaining (bar s)))"

definition inside :: "nat \<Rightarrow> bsys \<Rightarrow> nat \<Rightarrow> bool" where
  "inside r s t \<longleftrightarrow> entered s t = Suc r \<and> passed s t = r"

definition outside :: "nat \<Rightarrow> bsys \<Rightarrow> nat \<Rightarrow> bool" where
  "outside r s t \<longleftrightarrow> entered s t = Suc r \<and> passed s t = Suc r \<and> (pc s t = BIdle \<or> pc s t = BLock)"

definition holds_lock :: "bpc \<Rightarrow> bool" where
  "holds_lock p \<longleftrightarrow> p = BRead \<or> (\<exists>v. p = BWrite v) \<or> p = BUnlock"

definition arriving :: "nat \<Rightarrow> nat \<Rightarrow> nat set \<Rightarrow> bsys \<Rightarrow> bool" where
  "arriving n r W s \<longleftrightarrow> W \<subset> {..<n} \<and> notify (bar s) = 0 \<and> remaining (bar s) = of_nat (n - card W) \<and>
     (\<forall>t < n. if t \<in> W then inside r s t \<and> (pc s t = BUnlock \<or> pc s t = BSpin) else before r s t) \<and>
     (\<forall>t < n. \<forall>u < n. holds_lock (pc s t) \<and> holds_lock (pc s u) \<longrightarrow> t = u) \<and>
     (b_lock (bar s) \<longleftrightarrow> (\<exists>t < n. holds_lock (pc s t)))"

definition notifying :: "nat \<Rightarrow> nat \<Rightarrow> bsys \<Rightarrow> bool" where
  "notifying n r s \<longleftrightarrow> b_lock (bar s) \<and> notify (bar s) = 0 \<and> remaining (bar s) = 0 \<and>
     (\<exists>l < n. pc s l = BNotify \<and> (\<forall>t < n. inside r s t \<and> (t \<noteq> l \<longrightarrow> pc s t = BSpin)))"

definition leaving :: "nat \<Rightarrow> nat \<Rightarrow> nat set \<Rightarrow> bsys \<Rightarrow> bool" where
  "leaving n r L s \<longleftrightarrow> L \<subset> {..<n} \<and> b_lock (bar s) \<and> notify (bar s) = 1 \<and> remaining (bar s) = of_nat (card L) \<and>
     (\<forall>t < n. if t \<in> L then outside r s t else inside r s t \<and> (pc s t = BSpin \<or> pc s t = BInc))"

definition closing :: "nat \<Rightarrow> nat \<Rightarrow> bsys \<Rightarrow> bool" where
  "closing n r s \<longleftrightarrow> b_lock (bar s) \<and> remaining (bar s) = of_nat n \<and>
     (\<exists>l < n. inside r s l \<and> (pc s l = BReset \<and> notify (bar s) = 1 \<or> pc s l = BRelease \<and> notify (bar s) = 0) \<and>
        (\<forall>t < n. t \<noteq> l \<longrightarrow> outside r s t))"

definition barrier_inv :: "nat \<Rightarrow> bsys \<Rightarrow> bool" where
  "barrier_inv n s \<longleftrightarrow> init_count (bar s) = of_nat n \<and>
     (\<exists>r. (\<exists>W. arriving n r W s) \<or> notifying n r s \<or> (\<exists>L. leaving n r L s) \<or> closing n r s)"

lemmas wait_simps = wait_step_def go_def return_from_def Let_def

lemma card_less_n: "W \<subset> {..<n} \<Longrightarrow> card W < n"
  by (metis card_lessThan finite_lessThan psubset_card_mono)

lemma card_insert_n:
  assumes "W \<subset> {..<n}" "t < n" "t \<notin> W"
  shows "card (insert t W) = Suc (card W)" "insert t W \<subseteq> {..<n}"
    "insert t W = {..<n} \<longleftrightarrow> Suc (card W) = n"
proof -
  have f: "finite W" using assms(1) by (meson finite_lessThan finite_subset psubset_imp_subset)
  then show c: "card (insert t W) = Suc (card W)" using assms(3) by simp
  show s: "insert t W \<subseteq> {..<n}" using assms(1,2) by auto
  show "insert t W = {..<n} \<longleftrightarrow> Suc (card W) = n"
    using c s by (metis card_lessThan card_subset_eq finite_lessThan)
qed

lemma of_nat_u32_eq:
  assumes "j < 2 ^ 32" "k < 2 ^ 32"
  shows "(of_nat j :: u32) = of_nat k \<longleftrightarrow> j = k"
proof
  assume "(of_nat j :: u32) = of_nat k"
  then have "unat (of_nat j :: u32) = unat (of_nat k :: u32)" by simp
  then show "j = k" using assms by (simp add: unat_of_nat)
qed simp

lemma holds_lock_simps [simp]:
  "\<not> holds_lock BIdle" "\<not> holds_lock BLock" "holds_lock BRead" "holds_lock (BWrite v)" "holds_lock BUnlock"
  "\<not> holds_lock BSpin" "\<not> holds_lock BInc" "\<not> holds_lock BNotify"
  by (simp_all add: holds_lock_def)

lemma arriving_pc:
  assumes "arriving n r W s" "t < n"
  shows "t \<in> W \<Longrightarrow> inside r s t \<and> (pc s t = BUnlock \<or> pc s t = BSpin)" "t \<notin> W \<Longrightarrow> before r s t"
  using assms by (auto simp: arriving_def)

text \<open>A step of \<open>t\<close> that neither arrives nor leaves, seen from the other threads.\<close>

lemma arriving_quiet:
  assumes a: "arriving n r W s" and t: "t < n" and s': "s' = go t p (bar s\<lparr>b_lock := k\<rparr>) (s\<lparr>res := x\<rparr>)"
    and p: "if t \<in> W then p = BSpin else p = BLock \<or> p = BRead \<or> p = BWrite (remaining (bar s))"
    and l: "k \<longleftrightarrow> holds_lock p \<or> (\<exists>u < n. u \<noteq> t \<and> holds_lock (pc s u))"
    and e: "holds_lock p \<Longrightarrow> \<forall>u < n. u \<noteq> t \<longrightarrow> \<not> holds_lock (pc s u)"
  shows "arriving n r W s'"
proof -
  have s: "notify (bar s') = notify (bar s)" "remaining (bar s') = remaining (bar s)" "b_lock (bar s') = k"
    "pc s' = (pc s)(t := p)" "entered s' = entered s" "passed s' = passed s"
    by (simp_all add: s' go_def)
  have "if u \<in> W then inside r s' u \<and> (pc s' u = BUnlock \<or> pc s' u = BSpin) else before r s' u" if "u < n" for u
    using arriving_pc [OF a that] p s by (auto simp: inside_def before_def)
  moreover have "t1 = u1" if "t1 < n" "u1 < n" "holds_lock (pc s' t1)" "holds_lock (pc s' u1)" for t1 u1
    using that e a s(4) by (auto simp: arriving_def split: if_splits)
  moreover have "b_lock (bar s') \<longleftrightarrow> (\<exists>u < n. holds_lock (pc s' u))" using l t s(3,4) by auto
  ultimately show ?thesis using a s(1,2) by (simp add: arriving_def)
qed

lemma arriving_step:
  assumes a: "arriving n r W s" and n: "n < 2 ^ 32" and t: "t < n" and st: "wait_step True t s = Some s'"
  shows "(\<exists>W'. arriving n r W' s') \<or> notifying n r s'"
proof -
  have lk: "b_lock (bar s) \<longleftrightarrow> (\<exists>u < n. holds_lock (pc s u))"
    and one: "\<And>u v. \<lbrakk>u < n; v < n; holds_lock (pc s u); holds_lock (pc s v)\<rbrakk> \<Longrightarrow> u = v"
    and nt: "notify (bar s) = 0" and W: "W \<subset> {..<n}" and rem: "remaining (bar s) = of_nat (n - card W)"
    using a by (auto simp: arriving_def)
  have alone: "\<forall>u < n. u \<noteq> t \<longrightarrow> \<not> holds_lock (pc s u)" if "holds_lock (pc s t)" using one [OF t] that by auto
  show ?thesis
  proof (cases "t \<in> W")
    case True
    with arriving_pc(1) [OF a t] have "pc s t = BUnlock \<or> pc s t = BSpin" by simp
    with st nt have u: "pc s t = BUnlock" and s': "s' = go t BSpin (bar s\<lparr>b_lock := False\<rparr>) (s\<lparr>res := res s\<rparr>)"
      by (auto simp: wait_step_def Let_def)
    have "arriving n r W s'" by (rule arriving_quiet [OF a t s']) (use True u alone in auto)
    then show ?thesis by blast
  next
    case False
    with arriving_pc(2) [OF a t] have b: "entered s t = r" "passed s t = r"
      "pc s t = BIdle \<or> pc s t = BLock \<or> pc s t = BRead \<or> pc s t = BWrite (remaining (bar s))"
      by (auto simp: before_def)
    from b(3) show ?thesis
    proof (elim disjE)
      assume p: "pc s t = BIdle"
      then have s': "s' = go t BLock (bar s\<lparr>b_lock := b_lock (bar s)\<rparr>) (s\<lparr>res := (res s)(t := 0)\<rparr>)"
        using st by (simp add: wait_step_def Let_def)
      have "arriving n r W s'" by (rule arriving_quiet [OF a t s']) (use False p lk in auto)
      then show ?thesis by blast
    next
      assume p: "pc s t = BLock"
      then have free: "\<not> b_lock (bar s)" and s': "s' = go t BRead (bar s\<lparr>b_lock := True\<rparr>) (s\<lparr>res := res s\<rparr>)"
        using st by (auto simp: wait_step_def Let_def split: if_splits)
      have "arriving n r W s'" by (rule arriving_quiet [OF a t s']) (use False p lk free in auto)
      then show ?thesis by blast
    next
      assume p: "pc s t = BRead"
      then have s': "s' = go t (BWrite (remaining (bar s))) (bar s\<lparr>b_lock := b_lock (bar s)\<rparr>) (s\<lparr>res := res s\<rparr>)"
        using st by (simp add: wait_step_def Let_def)
      have "arriving n r W s'" by (rule arriving_quiet [OF a t s']) (use False p lk alone t in auto)
      then show ?thesis by blast
    next
      assume p: "pc s t = BWrite (remaining (bar s))"
      let ?p = "if remaining (bar s) - 1 = 0 then BNotify else BUnlock"
      have s': "s' = go t ?p (bar s\<lparr>remaining := remaining (bar s) - 1\<rparr>) (s\<lparr>entered := (entered s)(t := entered s t + 1)\<rparr>)"
        using st p by (simp add: wait_step_def Let_def)
      have c: "card W < n" by (rule card_less_n [OF W])
      have r1: "remaining (bar s) - 1 = of_nat (n - Suc (card W))"
        using c unfolding rem by (simp add: of_nat_diff Suc_leI)
      have z: "remaining (bar s) - 1 = 0 \<longleftrightarrow> Suc (card W) = n"
        using c n of_nat_u32_eq [of "n - Suc (card W)" 0] unfolding r1 by auto
      note I = card_insert_n [OF W t False]
      have ot: "\<forall>u < n. u \<noteq> t \<longrightarrow> \<not> holds_lock (pc s u)" using alone p by simp
      have fields: "pc s' = (pc s)(t := ?p)" "entered s' = (entered s)(t := Suc r)" "passed s' = passed s"
        "notify (bar s') = 0" "b_lock (bar s')" "remaining (bar s') = of_nat (n - Suc (card W))"
        using s' b nt lk t p r1 by (auto simp: go_def)
      have inW: "inside r s' u \<and> pc s' u = BSpin" if "u \<in> W" for u
      proof -
        have u: "u < n" "u \<noteq> t" using that W False by auto
        then show ?thesis using arriving_pc(1) [OF a u(1) that] ot fields by (auto simp: inside_def)
      qed
      have me: "inside r s' t" using fields b by (simp add: inside_def)
      show ?thesis
      proof (cases "Suc (card W) = n")
        case True
        then have eq: "insert t W = {..<n}" by (rule iffD2 [OF I(3)])
        have "inside r s' u \<and> (u \<noteq> t \<longrightarrow> pc s' u = BSpin)" if "u < n" for u
        proof -
          have "u \<in> insert t W" unfolding eq using that by simp
          with inW [of u] me show ?thesis by auto
        qed
        then have "\<forall>u < n. inside r s' u \<and> (u \<noteq> t \<longrightarrow> pc s' u = BSpin)" by simp
        moreover have "pc s' t = BNotify" using fields(1) z True by simp
        ultimately have "notifying n r s'" using fields(4-6) True t by (auto simp: notifying_def)
        then show ?thesis by blast
      next
        case nl: False
        then have pt: "pc s' t = BUnlock" using fields(1) z by simp
        have out: "before r s' u" if "u < n" "u \<notin> insert t W" for u
          using arriving_pc(2) [OF a that(1)] that(2) ot that(1) fields by (auto simp: before_def)
        have "if u \<in> insert t W then inside r s' u \<and> (pc s' u = BUnlock \<or> pc s' u = BSpin) else before r s' u"
          if "u < n" for u
          using that inW [of u] me pt out [of u] by auto
        moreover have "insert t W \<subset> {..<n}" using I(2,3) nl by auto
        moreover have h: "holds_lock (pc s' u) \<longleftrightarrow> u = t" if "u < n" for u
          using that ot pt fields(1) by auto
        moreover have "b_lock (bar s') \<longleftrightarrow> (\<exists>u < n. holds_lock (pc s' u))" using fields(5) h t by blast
        ultimately have "arriving n r (insert t W) s'"
          using fields(4,6) I(1) unfolding arriving_def by simp
        then show ?thesis by blast
      qed
    qed
  qed
qed

lemma notifying_step:
  assumes a: "notifying n r s" and t: "t < n" and st: "wait_step True t s = Some s'"
  shows "leaving n r {} s'"
proof -
  obtain l where l: "l < n" "pc s l = BNotify" "\<forall>u < n. inside r s u \<and> (u \<noteq> l \<longrightarrow> pc s u = BSpin)"
    and b: "b_lock (bar s)" "notify (bar s) = 0" "remaining (bar s) = 0"
    using a by (auto simp: notifying_def)
  have "t = l"
  proof (rule ccontr)
    assume "t \<noteq> l"
    with l(3) t st b(2) show False by (simp add: wait_step_def)
  qed
  with l(2) st have s': "s' = go l BInc (bar s\<lparr>notify := cmpswap (notify (bar s)) 0 1\<rparr>) (s\<lparr>res := (res s)(l := NK_BARRIER_LAST)\<rparr>)"
    by (simp add: wait_step_def Let_def)
  have "{} \<subset> {..<n}" using l(1) by auto
  with l b show ?thesis by (auto simp: leaving_def s' go_def cmpswap_def inside_def)
qed

lemma outside_step:
  assumes "outside r s t" "b_lock (bar s)" "wait_step True t s = Some s'"
  shows "s' = go t BLock (bar s) (s\<lparr>res := (res s)(t := 0)\<rparr>)" "pc s t = BIdle"
  using assms by (auto simp: outside_def wait_step_def Let_def split: if_splits)

lemma leaving_step:
  assumes a: "leaving n r L s" and n: "n < 2 ^ 32" "init_count (bar s) = of_nat n" and t: "t < n"
    and st: "wait_step True t s = Some s'"
  shows "(\<exists>L'. leaving n r L' s') \<or> closing n r s'"
proof -
  have L: "L \<subset> {..<n}" "b_lock (bar s)" "notify (bar s) = 1" "remaining (bar s) = of_nat (card L)"
    and P: "\<And>u. u < n \<Longrightarrow> if u \<in> L then outside r s u else inside r s u \<and> (pc s u = BSpin \<or> pc s u = BInc)"
    using a by (auto simp: leaving_def)
  show ?thesis
  proof (cases "t \<in> L")
    case True
    with P [OF t] have o: "outside r s t" by simp
    note S = outside_step [OF o L(2) st]
    have "if u \<in> L then outside r s' u else inside r s' u \<and> (pc s' u = BSpin \<or> pc s' u = BInc)" if "u < n" for u
      using P [OF that] o True by (auto simp: S(1) go_def outside_def inside_def split: if_splits)
    moreover have "bar s' = bar s" by (simp add: S(1) go_def)
    ultimately have "leaving n r L s'" using L unfolding leaving_def by simp
    then show ?thesis by blast
  next
    case False
    with P [OF t] have i: "inside r s t" "pc s t = BSpin \<or> pc s t = BInc" by simp_all
    from i(2) show ?thesis
    proof
      assume p: "pc s t = BSpin"
      then have s': "s' = go t BInc (bar s) s" using st L(3) by (simp add: wait_step_def)
      have "if u \<in> L then outside r s' u else inside r s' u \<and> (pc s' u = BSpin \<or> pc s' u = BInc)" if "u < n" for u
        using P [OF that] i False by (auto simp: s' go_def outside_def inside_def split: if_splits)
      moreover have "bar s' = bar s" by (simp add: s' go_def)
      ultimately have "leaving n r L s'" using L unfolding leaving_def by simp
      then show ?thesis by blast
    next
      assume p: "pc s t = BInc"
      note I = card_insert_n [OF L(1) t False]
      have c: "card L < n" by (rule card_less_n [OF L(1)])
      have r1: "remaining (bar s) + 1 = of_nat (Suc (card L))" using L(4) by simp
      have z: "remaining (bar s) + 1 = init_count (bar s) \<longleftrightarrow> Suc (card L) = n"
        using of_nat_u32_eq [of "Suc (card L)" n] c n by (simp only: r1)
      let ?b = "bar s\<lparr>remaining := of_nat (Suc (card L))\<rparr>"
      show ?thesis
      proof (cases "Suc (card L) = n")
        case True
        then have s': "s' = go t BReset ?b s" using st p z r1 by (simp add: wait_step_def Let_def)
        have eq: "insert t L = {..<n}" by (rule iffD2 [OF I(3) True])
        have "outside r s' u" if "u < n" "u \<noteq> t" for u
        proof -
          have "u \<in> insert t L" unfolding eq using that by simp
          with that P [OF that(1)] show ?thesis by (auto simp: s' go_def outside_def)
        qed
        then have "closing n r s'" using L(2,3) i(1) t True
          by (auto simp: closing_def s' go_def inside_def intro!: exI [of _ t])
        then show ?thesis by blast
      next
        case nl: False
        then have s': "s' = return_from t (go t BIdle ?b s)" using st p z r1 by (simp add: wait_step_def Let_def add.commute)
        have "if u \<in> insert t L then outside r s' u else inside r s' u \<and> (pc s' u = BSpin \<or> pc s' u = BInc)" if "u < n" for u
          using P [OF that] i by (auto simp: s' go_def return_from_def outside_def inside_def split: if_splits)
        moreover have "insert t L \<subset> {..<n}" using I(2,3) nl by auto
        moreover have "bar s' = ?b" by (simp add: s' go_def return_from_def)
        ultimately have "leaving n r (insert t L) s'" using L(2,3) I(1) unfolding leaving_def by simp
        then show ?thesis by blast
      qed
    qed
  qed
qed

lemma closing_step:
  assumes a: "closing n r s" and t: "t < n" and st: "wait_step True t s = Some s'"
  shows "closing n r s' \<or> arriving n (Suc r) {} s'"
proof -
  obtain l where l: "l < n" "inside r s l" "pc s l = BReset \<and> notify (bar s) = 1 \<or> pc s l = BRelease \<and> notify (bar s) = 0"
    "\<forall>u < n. u \<noteq> l \<longrightarrow> outside r s u" and b: "b_lock (bar s)" "remaining (bar s) = of_nat n"
    using a by (auto simp: closing_def)
  show ?thesis
  proof (cases "t = l")
    case False
    then have o: "outside r s t" using l(4) t by simp
    note S = outside_step [OF o b(1) st]
    have "closing n r s'"
      using l b o False by (auto simp: closing_def S(1) go_def outside_def inside_def intro!: exI [of _ l])
    then show ?thesis by blast
  next
    case True
    from l(3) show ?thesis
    proof
      assume p: "pc s l = BReset \<and> notify (bar s) = 1"
      then have s': "s' = go l BRelease (bar s\<lparr>notify := 0\<rparr>) s"
        using st True by (simp add: wait_step_def cmpswap_def)
      have "closing n r s'"
        using l b by (auto simp: closing_def s' go_def outside_def inside_def intro!: exI [of _ l])
      then show ?thesis by blast
    next
      assume p: "pc s l = BRelease \<and> notify (bar s) = 0"
      then have s': "s' = return_from l (go l BIdle (bar s\<lparr>b_lock := False\<rparr>) s)"
        using st True by (simp add: wait_step_def)
      have q: "before (Suc r) s' u" "\<not> holds_lock (pc s' u)" if "u < n" for u
        using that l(2,4) by (auto simp: s' go_def return_from_def before_def outside_def inside_def)
      have "{} \<subset> {..<n}" using l(1) by auto
      with q p b have "arriving n (Suc r) {} s'"
        by (simp add: arriving_def) (simp add: s' go_def return_from_def)
      then show ?thesis by blast
    qed
  qed
qed

lemma wait_init_count: "wait_step reset t s = Some s' \<Longrightarrow> init_count (bar s') = init_count (bar s)"
  by (auto simp: wait_simps split: bpc.splits if_splits)

lemma barrier_inv_step:
  assumes "barrier_inv n s" "n < 2 ^ 32" "t < n" "wait_step True t s = Some s'"
  shows "barrier_inv n s'"
proof -
  have c: "init_count (bar s) = of_nat n" "init_count (bar s') = of_nat n"
    using assms(1) wait_init_count [OF assms(4)] by (auto simp: barrier_inv_def)
  obtain r where "(\<exists>W. arriving n r W s) \<or> notifying n r s \<or> (\<exists>L. leaving n r L s) \<or> closing n r s"
    using assms(1) by (auto simp: barrier_inv_def)
  then show ?thesis
    using arriving_step [OF _ assms(2-4)] notifying_step [OF _ assms(3,4)]
      leaving_step [OF _ assms(2) c(1) assms(3,4)] closing_step [OF _ assms(3,4)] c(2)
    unfolding barrier_inv_def by blast
qed

definition fresh :: "nat \<Rightarrow> bsys" where
  "fresh n = at_start (zero_barrier\<lparr>init_count := of_nat n, remaining := of_nat n\<rparr>)"

lemma fresh_inv: "0 < n \<Longrightarrow> barrier_inv n (fresh n)"
  by (auto simp: barrier_inv_def fresh_def at_start_def arriving_def before_def zero_barrier_def intro!: exI [of _ 0] exI [of _ "{}"])

lemma reachable_inv:
  assumes "runs thread_group_barrier_wait_step n (fresh n) s" "0 < n" "n < 2 ^ 32"
  shows "barrier_inv n s"
  using assms(1)
proof induction
  case runs_refl
  show ?case by (rule fresh_inv [OF assms(2)])
next
  case (runs_step s' t s'')
  then show ?case using barrier_inv_step [OF _ assms(3)] by (simp add: thread_group_barrier_wait_step_def)
qed

section \<open>The abstract barrier\<close>

text \<open>
  What a barrier promises: a thread may leave its k-th visit only when every participant has
  arrived for its k-th visit.
\<close>

record abar =
  arrived :: "nat \<Rightarrow> nat"
  departed :: "nat \<Rightarrow> nat"

inductive abs_step :: "nat \<Rightarrow> abar \<Rightarrow> abar \<Rightarrow> bool" for n where
  arrive: "\<lbrakk>t < n; arrived a t = departed a t\<rbrakk> \<Longrightarrow> abs_step n a (a\<lparr>arrived := (arrived a)(t := arrived a t + 1)\<rparr>)"
| depart: "\<lbrakk>t < n; departed a t < arrived a t; \<forall>u < n. arrived a t \<le> arrived a u\<rbrakk> \<Longrightarrow>
    abs_step n a (a\<lparr>departed := (departed a)(t := departed a t + 1)\<rparr>)"

definition abs_of :: "bsys \<Rightarrow> abar" where
  "abs_of s = \<lparr>arrived = entered s, departed = passed s\<rparr>"

text \<open>Only a write of the count arrives, and only the two returns depart.\<close>

lemma wait_counts:
  assumes "wait_step reset t s = Some s'"
  shows "entered s' = (if \<exists>v. pc s t = BWrite v then (entered s)(t := entered s t + 1) else entered s)"
    "passed s' = (if pc s t = BRelease \<or> pc s t = BInc \<and> remaining (bar s) + 1 \<noteq> init_count (bar s)
       then (passed s)(t := passed s t + 1) else passed s)"
  using assms by (auto simp: wait_simps split: bpc.splits if_splits)

lemma phase_counts:
  assumes "barrier_inv n s" "t < n"
  shows "pc s t = BWrite v \<Longrightarrow> entered s t = passed s t"
    "pc s t = BInc \<or> pc s t = BRelease \<Longrightarrow> passed s t < entered s t \<and> (\<forall>u < n. entered s t \<le> entered s u)"
proof -
  obtain r where "(\<exists>W. arriving n r W s) \<or> notifying n r s \<or> (\<exists>L. leaving n r L s) \<or> closing n r s"
    using assms(1) by (auto simp: barrier_inv_def)
  then consider W where "arriving n r W s" | "notifying n r s" | L where "leaving n r L s" | "closing n r s" by metis
  then have main: "(pc s t = BWrite v \<longrightarrow> entered s t = passed s t) \<and>
    (pc s t = BInc \<or> pc s t = BRelease \<longrightarrow> passed s t < entered s t \<and> (\<forall>u < n. entered s t \<le> entered s u))"
  proof cases
    case (1 W)
    then show ?thesis using arriving_pc [OF 1 assms(2)] by (cases "t \<in> W") (auto simp: before_def)
  next
    case 2
    then obtain l where "pc s l = BNotify" "\<forall>u < n. inside r s u \<and> (u \<noteq> l \<longrightarrow> pc s u = BSpin)"
      by (auto simp: notifying_def)
    then show ?thesis using assms(2) by (cases "t = l") simp_all
  next
    case (3 L)
    then have P: "if u \<in> L then outside r s u else inside r s u \<and> (pc s u = BSpin \<or> pc s u = BInc)" if "u < n" for u
      using that by (simp add: leaving_def)
    have "entered s u = Suc r" if "u < n" for u
      using P [OF that] by (auto simp: outside_def inside_def split: if_splits)
    with P [OF assms(2)] assms(2) show ?thesis by (cases "t \<in> L") (auto simp: outside_def inside_def)
  next
    case 4
    then obtain l where l: "l < n" "inside r s l" "pc s l = BReset \<or> pc s l = BRelease"
      "\<forall>u < n. u \<noteq> l \<longrightarrow> outside r s u" unfolding closing_def by blast
    have o: "outside r s u" if "u < n" "u \<noteq> l" for u using l(4) that by blast
    have e: "entered s u = Suc r" if "u < n" for u
      using o [OF that] l(2) by (cases "u = l") (simp_all add: outside_def inside_def)
    show ?thesis
    proof (cases "t = l")
      case True
      with l(2,3) e show ?thesis by (auto simp: inside_def)
    next
      case False
      with o [OF assms(2)] show ?thesis by (auto simp: outside_def)
    qed
  qed
  show "pc s t = BWrite v \<Longrightarrow> entered s t = passed s t"
    by (rule mp [OF conjunct1 [OF main]])
  show "pc s t = BInc \<or> pc s t = BRelease \<Longrightarrow> passed s t < entered s t \<and> (\<forall>u < n. entered s t \<le> entered s u)"
    by (rule mp [OF conjunct2 [OF main]])
qed

lemma step_simulates:
  assumes i: "barrier_inv n s" and t: "t < n" and st: "wait_step True t s = Some s'"
  shows "abs_of s' = abs_of s \<or> abs_step n (abs_of s) (abs_of s')"
proof -
  note C = wait_counts [OF st] and P = phase_counts [OF i t]
  consider v where "pc s t = BWrite v"
    | "pc s t = BRelease \<or> pc s t = BInc \<and> remaining (bar s) + 1 \<noteq> init_count (bar s)"
    | "\<nexists>v. pc s t = BWrite v" "\<not> (pc s t = BRelease \<or> pc s t = BInc \<and> remaining (bar s) + 1 \<noteq> init_count (bar s))"
    by auto
  then show ?thesis
  proof cases
    case (1 v)
    have e: "arrived (abs_of s) t = departed (abs_of s) t" using P(1) [OF 1] by (simp add: abs_of_def)
    have "abs_of s' = (abs_of s)\<lparr>arrived := (arrived (abs_of s))(t := arrived (abs_of s) t + 1)\<rparr>"
      using 1 C by (simp add: abs_of_def)
    with abs_step.arrive [OF t e] show ?thesis by simp
  next
    case 2
    then have p: "departed (abs_of s) t < arrived (abs_of s) t" "\<forall>u < n. arrived (abs_of s) t \<le> arrived (abs_of s) u"
      using P(2) by (auto simp: abs_of_def)
    have "abs_of s' = (abs_of s)\<lparr>departed := (departed (abs_of s))(t := departed (abs_of s) t + 1)\<rparr>"
      using 2 C by (auto simp: abs_of_def)
    with abs_step.depart [OF t p] show ?thesis by simp
  next
    case 3
    with C show ?thesis by (simp add: abs_of_def)
  qed
qed

lemma abs_safe:
  assumes "(abs_step n)\<^sup>*\<^sup>* \<lparr>arrived = (\<lambda>_. 0), departed = (\<lambda>_. 0)\<rparr> a"
  shows "(\<forall>t < n. departed a t \<le> arrived a t) \<and> (\<forall>t < n. \<forall>u < n. departed a t \<le> arrived a u)"
  using assms
proof induction
  case (step a b)
  from step(2) show ?case
  proof cases
    case (arrive t)
    then have "departed a u \<le> Suc (arrived a t)" if "u < n" for u using step(3) that by (meson le_SucI)
    then show ?thesis using step(3) arrive by auto
  next
    case (depart t)
    then have "Suc (departed a t) \<le> arrived a u" if "u < n" for u using that by (meson Suc_leI le_trans)
    then show ?thesis using step(3) depart by auto
  qed
qed simp

lemma runs_abstract:
  assumes "runs thread_group_barrier_wait_step n (fresh n) s" "0 < n" "n < 2 ^ 32"
  shows "(abs_step n)\<^sup>*\<^sup>* \<lparr>arrived = (\<lambda>_. 0), departed = (\<lambda>_. 0)\<rparr> (abs_of s)"
  using assms(1)
proof induction
  case runs_refl
  show ?case by (simp add: abs_of_def fresh_def at_start_def)
next
  case (runs_step s' t s'')
  have "barrier_inv n s'" by (rule reachable_inv [OF runs_step(1) assms(2,3)])
  from step_simulates [OF this runs_step(2)] runs_step(3,4) show ?case
    by (auto simp: thread_group_barrier_wait_step_def intro: rtranclp.rtrancl_into_rtrancl)
qed

section \<open>Progress\<close>

text \<open>A step of a thread that is inside a wait, and the steps it has left at most.\<close>

definition inner :: "nat \<Rightarrow> bsys \<Rightarrow> bsys \<Rightarrow> bool" where
  "inner n s s' \<longleftrightarrow> (\<exists>t < n. pc s t \<noteq> BIdle \<and> thread_group_barrier_wait_step t s = Some s')"

definition rank :: "bpc \<Rightarrow> nat" where
  "rank p = (case p of BIdle \<Rightarrow> 0 | BLock \<Rightarrow> 9 | BRead \<Rightarrow> 8 | BWrite _ \<Rightarrow> 7 | BNotify \<Rightarrow> 6 | BUnlock \<Rightarrow> 6
     | BSpin \<Rightarrow> 5 | BInc \<Rightarrow> 4 | BReset \<Rightarrow> 3 | BRelease \<Rightarrow> 2)"

lemma rank_le: "rank p \<le> 9"
  by (simp add: rank_def split: bpc.splits)

lemma wait_pc:
  assumes "wait_step reset t s = Some s'"
  shows "u \<noteq> t \<Longrightarrow> pc s' u = pc s u" "pc s t \<noteq> BIdle \<Longrightarrow> rank (pc s' t) < rank (pc s t)"
  using assms by (auto simp: wait_simps rank_def split: bpc.splits if_splits)

lemma inner_decreases:
  assumes "inner n s s'"
  shows "(\<Sum>t < n. rank (pc s' t)) < (\<Sum>t < n. rank (pc s t))"
proof -
  obtain t where t: "t < n" "pc s t \<noteq> BIdle" "wait_step True t s = Some s'"
    using assms by (auto simp: inner_def thread_group_barrier_wait_step_def)
  show ?thesis
  proof (rule sum_strict_mono_ex1)
    show "\<forall>u \<in> {..<n}. rank (pc s' u) \<le> rank (pc s u)"
      using wait_pc [OF t(3)] t(2) by (metis less_imp_le order_refl)
    show "\<exists>u \<in> {..<n}. rank (pc s' u) < rank (pc s u)"
      using wait_pc(2) [OF t(3,2)] t(1) by blast
  qed simp
qed

lemma inner_bounded:
  "(inner n ^^ k) s s' \<Longrightarrow> k + (\<Sum>t < n. rank (pc s' t)) \<le> (\<Sum>t < n. rank (pc s t))"
proof (induction k arbitrary: s')
  case (Suc k)
  then obtain s1 where "(inner n ^^ k) s s1" "inner n s1 s'" by auto
  with Suc.IH inner_decreases show ?case by fastforce
qed simp

lemma inner_runs: "runs thread_group_barrier_wait_step n s0 s \<Longrightarrow> (inner n ^^ k) s s' \<Longrightarrow> runs thread_group_barrier_wait_step n s0 s'"
proof (induction k arbitrary: s')
  case (Suc k)
  then obtain s1 where "(inner n ^^ k) s s1" "inner n s1 s'" by auto
  with Suc show ?case by (auto simp: inner_def intro: runs_step)
qed simp

lemma stuck_arriving:
  assumes "barrier_inv n s" "\<nexists>s'. inner n s s'" "t < n"
  shows "pc s t = BIdle \<or> pc s t = BSpin \<and> (\<exists>u < n. pc s u = BIdle \<and> entered s u < entered s t)"
proof -
  have stuck: "wait_step True u s = None" if "u < n" "pc s u \<noteq> BIdle" for u
    using assms(2) that by (cases "wait_step True u s") (auto simp: inner_def thread_group_barrier_wait_step_def Let_def)
  obtain r where "(\<exists>W. arriving n r W s) \<or> notifying n r s \<or> (\<exists>L. leaving n r L s) \<or> closing n r s"
    using assms(1) by (auto simp: barrier_inv_def)
  then consider W where "arriving n r W s" | "notifying n r s" | L where "leaving n r L s" | "closing n r s" by metis
  then show ?thesis
  proof cases
    case (1 W)
    have nl: "\<not> b_lock (bar s)"
    proof
      assume "b_lock (bar s)"
      then obtain h where h: "h < n" "holds_lock (pc s h)" using 1 by (auto simp: arriving_def)
      with stuck [of h] show False by (auto simp: holds_lock_def wait_step_def Let_def split: if_splits)
    qed
    have out: "pc s u = BIdle" if "u < n" "u \<notin> W" for u
    proof (rule ccontr)
      assume ni: "pc s u \<noteq> BIdle"
      with arriving_pc(2) [OF 1 that] stuck [OF that(1) ni] nl show False
        by (auto simp: before_def wait_step_def Let_def)
    qed
    obtain u where u: "u < n" "u \<notin> W" using 1 by (auto simp: arriving_def)
    have eu: "entered s u = r" using arriving_pc(2) [OF 1 u] by (simp add: before_def)
    show ?thesis
    proof (cases "t \<in> W")
      case True
      then have i: "entered s t = Suc r" "pc s t = BUnlock \<or> pc s t = BSpin"
        using arriving_pc(1) [OF 1 assms(3)] by (auto simp: inside_def)
      moreover have "pc s t \<noteq> BUnlock" using stuck [OF assms(3)] by (auto simp: wait_step_def Let_def)
      ultimately show ?thesis using u eu out [OF u] by auto
    qed (use out [OF assms(3)] in simp)
  next
    case 2
    then obtain l where "l < n" "pc s l = BNotify" by (auto simp: notifying_def)
    then show ?thesis using stuck [of l] by (simp add: wait_step_def Let_def)
  next
    case (3 L)
    then obtain l where "l < n" "l \<notin> L" by (auto simp: leaving_def)
    with 3 have "l < n" "pc s l = BSpin \<or> pc s l = BInc" "notify (bar s) = 1" by (auto simp: leaving_def)
    then show ?thesis using stuck [of l] by (auto simp: wait_step_def Let_def split: if_splits)
  next
    case 4
    then obtain l where "l < n" "pc s l = BReset \<or> pc s l = BRelease" unfolding closing_def by blast
    then show ?thesis using stuck [of l] by (auto simp: wait_step_def Let_def)
  qed
qed

section \<open>Schedules\<close>

text \<open>The run in which the threads of a list take a step each, in that order.\<close>

fun run_list :: "(nat \<Rightarrow> bsys \<Rightarrow> bsys option) \<Rightarrow> nat list \<Rightarrow> bsys \<Rightarrow> bsys option" where
  "run_list stp [] s = Some s"
| "run_list stp (t # us) s = (case stp t s of None \<Rightarrow> None | Some s' \<Rightarrow> run_list stp us s')"

lemma run_list_runs:
  "runs stp n s0 s \<Longrightarrow> run_list stp us s = Some s' \<Longrightarrow> \<forall>t \<in> set us. t < n \<Longrightarrow> runs stp n s0 s'"
proof (induction us arbitrary: s)
  case (Cons t us)
  then show ?case by (auto split: option.splits intro: runs_step)
qed simp

text \<open>
  The plain barrier: the notification is set before anybody returns and never reset. What a thread
  changes that waits \<open>k\<close> times while all others stand still.
\<close>

definition plain_inv :: "bsys \<Rightarrow> bool" where
  "plain_inv s \<longleftrightarrow> (\<forall>t. pc s t \<noteq> BReset) \<and>
     (notify (bar s) = 1 \<or> notify (bar s) = 0 \<and> (\<forall>t. passed s t = 0 \<and> pc s t \<noteq> BInc \<and> pc s t \<noteq> BRelease))"

lemma plain_inv_step:
  assumes inv: "plain_inv s" and st: "nk_barrier_wait_step t s = Some s'"
  shows "plain_inv s'"
proof -
  have w: "wait_step False t s = Some s'" and r: "pc s t \<noteq> BReset"
    using inv st by (simp_all add: plain_inv_def nk_barrier_wait_step_def)
  have other: "pc s' v = pc s v \<and> passed s' v = passed s v" if "v \<noteq> t" for v
    using w that by (auto simp: wait_simps split: bpc.splits if_splits)
  have own: "pc s' t \<noteq> BReset" "notify (bar s) = 1 \<longrightarrow> notify (bar s') = 1"
    "notify (bar s) = 0 \<and> passed s t = 0 \<and> pc s t \<noteq> BInc \<and> pc s t \<noteq> BRelease \<longrightarrow>
      notify (bar s') = 1 \<or> notify (bar s') = 0 \<and> passed s' t = 0 \<and> pc s' t \<noteq> BInc \<and> pc s' t \<noteq> BRelease"
    using w r by (auto simp: wait_simps cmpswap_def split: bpc.splits if_splits)
  have "pc s' v \<noteq> BReset" for v using inv other [of v] own(1) by (cases "v = t") (simp_all add: plain_inv_def)
  moreover have "passed s' v = 0 \<and> pc s' v \<noteq> BInc \<and> pc s' v \<noteq> BRelease"
    if "notify (bar s) \<noteq> 1" "notify (bar s') \<noteq> 1" for v
    using that inv other [of v] own(3) by (cases "v = t") (simp_all add: plain_inv_def)
  moreover have "notify (bar s') = 1 \<or> notify (bar s) \<noteq> 1 \<and> notify (bar s') = 0"
    using inv own(2,3) by (auto simp: plain_inv_def)
  ultimately show ?thesis unfolding plain_inv_def by blast
qed

lemma plain_runs_inv:
  "runs nk_barrier_wait_step n (at_start (snd (nk_barrier_init cnt))) s \<Longrightarrow> plain_inv s"
proof (induction rule: runs.induct)
  case runs_refl
  then show ?case by (simp add: plain_inv_def at_start_def nk_barrier_init_def zero_barrier_def)
next
  case (runs_step s' t s'')
  then show ?case using plain_inv_step by blast
qed

definition solo :: "nat \<Rightarrow> nat \<Rightarrow> bsys \<Rightarrow> bsys \<Rightarrow> bool" where
  "solo t k s s' \<longleftrightarrow> passed s' t = passed s t + k \<and> entered s' t = entered s t + k \<and> bar s' = bar s \<and>
     pc s' t = pc s t \<and>
     (\<forall>v. v \<noteq> t \<longrightarrow> pc s' v = pc s v \<and> entered s' v = entered s v \<and> passed s' v = passed s v)"

lemma solo_trans: "solo t j s s1 \<Longrightarrow> solo t k s1 s2 \<Longrightarrow> solo t (j + k) s s2"
  by (simp add: solo_def)

lemma run_list_append:
  "run_list stp us s = Some s1 \<Longrightarrow> run_list stp vs s1 = Some s2 \<Longrightarrow> run_list stp (us @ vs) s = Some s2"
  by (induction us arbitrary: s) (auto split: option.splits)

lemma solo_wait:
  assumes "pc s t = BIdle" "notify (bar s) = 1" "\<not> b_lock (bar s)" "remaining (bar s) \<noteq> 1"
  shows "\<exists>us s'. set us \<subseteq> {t} \<and> run_list nk_barrier_wait_step us s = Some s' \<and> solo t 1 s s'"
proof (cases "remaining (bar s) = init_count (bar s)")
  case True
  show ?thesis
    by (rule exI [of _ "replicate 8 t"])
      (use assms True in \<open>auto simp: nk_barrier_wait_step_def wait_simps solo_def numeral_eq_Suc\<close>)
next
  case False
  show ?thesis
    by (rule exI [of _ "replicate 7 t"])
      (use assms False in \<open>auto simp: nk_barrier_wait_step_def wait_simps solo_def numeral_eq_Suc\<close>)
qed

lemma solo_waits:
  assumes "pc s t = BIdle" "notify (bar s) = 1" "\<not> b_lock (bar s)" "remaining (bar s) \<noteq> 1"
  shows "\<exists>us s'. set us \<subseteq> {t} \<and> run_list nk_barrier_wait_step us s = Some s' \<and> solo t k s s'"
proof (induction k)
  case 0
  show ?case by (rule exI [of _ "[]"]) (simp add: solo_def)
next
  case (Suc k)
  then obtain us s1 where u: "set us \<subseteq> {t}" "run_list nk_barrier_wait_step us s = Some s1" "solo t k s s1" by blast
  then have "pc s1 t = BIdle" "notify (bar s1) = 1" "\<not> b_lock (bar s1)" "remaining (bar s1) \<noteq> 1"
    using assms by (simp_all add: solo_def)
  from solo_wait [OF this] obtain vs s2 where
    v: "set vs \<subseteq> {t}" "run_list nk_barrier_wait_step vs s1 = Some s2" "solo t 1 s1 s2" by blast
  show ?case
    using u(1) v(1) run_list_append [OF u(2) v(2)] solo_trans [OF u(3) v(3)]
    by (intro exI [of _ "us @ vs"] exI [of _ s2]) simp
qed

definition one_plain_round :: "nat list" where
  "one_plain_round = [0, 0, 0, 0, 0, 1, 1, 1, 1, 1, 1, 0, 0, 0]"

section \<open>Properties\<close>

text \<open>
  C5. The group barrier is a barrier, for every number of participants and every interleaving of
  their memory accesses: each run from the freshly joined barrier corresponds to a run of the
  abstract barrier, and so no thread has returned from its k-th wait before every participant has
  arrived for its k-th, in every round the barrier is reused for.
\<close>
theorem group_barrier_refines:
  assumes "runs thread_group_barrier_wait_step n (fresh n) s" "0 < n" "n < 2 ^ 32"
  shows "(abs_step n)\<^sup>*\<^sup>* \<lparr>arrived = (\<lambda>_. 0), departed = (\<lambda>_. 0)\<rparr> (abs_of s) \<and>
    (\<forall>t < n. \<forall>u < n. passed s t \<le> entered s u)"
  using runs_abstract [OF assms] abs_safe [OF runs_abstract [OF assms]] by (auto simp: abs_of_def)

definition one_round :: "nat list" where
  "one_round = [0, 0, 0, 0, 0, 1, 1, 1, 1, 1, 1, 0, 0, 0, 0]"

lemmas run_simps = wait_step_def go_def return_from_def fresh_def at_start_def zero_barrier_def cmpswap_def
  NK_BARRIER_LAST_def Let_def

lemma one_round_runs:
  "\<exists>s. run_list thread_group_barrier_wait_step one_round (fresh 2) = Some s \<and> passed s 0 = 1 \<and> passed s 1 = 1 \<and>
    pc s 0 = BIdle \<and> pc s 1 = BIdle"
  by (simp add: one_round_def thread_group_barrier_wait_step_def run_simps)

theorem group_barrier_refines_witness:
  "\<exists>s. runs thread_group_barrier_wait_step 2 (fresh 2) s \<and> passed s 0 = 1 \<and> 1 \<le> entered s 1"
proof -
  obtain s where s: "run_list thread_group_barrier_wait_step one_round (fresh 2) = Some s" "passed s 0 = 1" "passed s 1 = 1"
    using one_round_runs by blast
  have r: "runs thread_group_barrier_wait_step 2 (fresh 2) s"
    by (rule run_list_runs [OF runs_refl s(1)]) (auto simp: one_round_def)
  have "\<forall>t < 2. \<forall>u < 2. passed s t \<le> entered s u"
    using group_barrier_refines [OF r] by simp
  then have "passed s 0 \<le> entered s 1" by simp
  with r s(2) show ?thesis by auto
qed

text \<open>
  C18. The group barrier makes progress: from any reachable state, a run in which no thread starts
  a new wait has at most nine steps per participant, and when no such step is possible, every
  thread either is outside the barrier or spins for a participant that is outside and has not
  arrived for this round. So once all participants have arrived, all of them return.
\<close>
theorem group_barrier_live:
  assumes "runs thread_group_barrier_wait_step n (fresh n) s" "0 < n" "n < 2 ^ 32" "(inner n ^^ k) s s'"
  shows "k \<le> 9 * n \<and>
    ((\<nexists>s''. inner n s' s'') \<longrightarrow>
      (\<forall>t < n. pc s' t = BIdle \<or> pc s' t = BSpin \<and> (\<exists>u < n. pc s' u = BIdle \<and> entered s' u < entered s' t)))"
proof -
  have "(\<Sum>t < n. rank (pc s t)) \<le> (\<Sum>t < n. 9)" by (rule sum_mono) (rule rank_le)
  then have "k \<le> 9 * n" using inner_bounded [OF assms(4)] by simp
  moreover have "barrier_inv n s'"
    using reachable_inv [OF inner_runs [OF assms(1,4)] assms(2,3)] .
  ultimately show ?thesis using stuck_arriving by blast
qed

theorem group_barrier_live_witness:
  "\<exists>s. (\<nexists>s''. inner 2 s s'') \<and> runs thread_group_barrier_wait_step 2 (fresh 2) s \<and>
    (\<forall>t < 2. pc s t = BIdle \<or> pc s t = BSpin \<and> (\<exists>u < 2. pc s u = BIdle \<and> entered s u < entered s t))"
proof -
  obtain s where s: "run_list thread_group_barrier_wait_step [0, 0, 0, 0, 0] (fresh 2) = Some s"
      "pc s 0 = BSpin" "pc s 1 = BIdle" "notify (bar s) = 0"
    by (simp add: thread_group_barrier_wait_step_def run_simps)
  have r: "runs thread_group_barrier_wait_step 2 (fresh 2) s"
    by (rule run_list_runs [OF runs_refl s(1)]) auto
  have st: "\<nexists>s''. inner 2 s s''"
  proof -
    have "wait_step True 0 s = None" using s(2,4) by (simp add: wait_step_def)
    then have "t \<noteq> 0 \<and> t \<noteq> 1" if "pc s t \<noteq> BIdle" "wait_step True t s = Some s''" for t s''
      using s(3) that by (metis option.distinct(1))
    then show ?thesis
      unfolding inner_def thread_group_barrier_wait_step_def by (metis One_nat_def less_2_cases_iff)
  qed
  then show ?thesis using group_barrier_live [OF r _ _ relpowp_0_I] r by auto
qed

text \<open>
  C36. The plain thread barrier synchronises only once, for any number of threads, any count and any
  interleaving. Its last thread out does not reset the notification. So as soon as any wait has
  returned, a thread that finds the lock free, and is not the one to bring the count to zero,
  returns from as many waits in a row as it likes while every other thread stands still: they take
  no step, enter and leave no wait, and the barrier ends up as it was.
\<close>
theorem plain_barrier_single_use:
  assumes "runs nk_barrier_wait_step n (at_start (snd (nk_barrier_init cnt))) s" "0 < passed s u"
    "t < n" "pc s t = BIdle" "\<not> b_lock (bar s)" "remaining (bar s) \<noteq> 1"
  shows "\<exists>us s'. set us \<subseteq> {t} \<and> run_list nk_barrier_wait_step us s = Some s' \<and>
    runs nk_barrier_wait_step n (at_start (snd (nk_barrier_init cnt))) s' \<and>
    passed s' t = passed s t + k \<and> entered s' t = entered s t + k \<and> bar s' = bar s \<and>
    (\<forall>v. v \<noteq> t \<longrightarrow> pc s' v = pc s v \<and> entered s' v = entered s v \<and> passed s' v = passed s v)"
proof -
  have n: "notify (bar s) = 1" using plain_runs_inv [OF assms(1)] assms(2) by (auto simp: plain_inv_def)
  obtain us s' where s': "set us \<subseteq> {t}" "run_list nk_barrier_wait_step us s = Some s'" "solo t k s s'"
    using solo_waits [OF assms(4) n assms(5,6)] by blast
  moreover have "runs nk_barrier_wait_step n (at_start (snd (nk_barrier_init cnt))) s'"
    using run_list_runs [OF assms(1) s'(2)] s'(1) assms(3) by auto
  ultimately show ?thesis unfolding solo_def by blast
qed

theorem plain_barrier_single_use_witness:
  "\<exists>s. runs nk_barrier_wait_step 2 (at_start (snd (nk_barrier_init 2))) s \<and> passed s 0 = 101 \<and> entered s 1 = 1"
proof -
  obtain s where s: "run_list nk_barrier_wait_step one_plain_round (at_start (snd (nk_barrier_init 2))) = Some s"
      "passed s 0 = 1" "entered s 1 = 1" "pc s 0 = BIdle" "\<not> b_lock (bar s)" "remaining (bar s) = 2"
    by (simp add: one_plain_round_def nk_barrier_wait_step_def nk_barrier_init_def run_simps)
  have r: "runs nk_barrier_wait_step 2 (at_start (snd (nk_barrier_init 2))) s"
    by (rule run_list_runs [OF runs_refl s(1)]) (auto simp: one_plain_round_def)
  have "0 < passed s 0" "(0::nat) < 2" "remaining (bar s) \<noteq> 1" using s(2,6) by simp_all
  from plain_barrier_single_use [OF r this(1,2) s(4,5) this(3), of 100] obtain s' where
    s': "runs nk_barrier_wait_step 2 (at_start (snd (nk_barrier_init 2))) s'" "passed s' 0 = passed s 0 + 100"
      "\<forall>v. v \<noteq> 0 \<longrightarrow> pc s' v = pc s v \<and> entered s' v = entered s v \<and> passed s' v = passed s v"
    by (elim exE conjE)
  have "passed s' 0 = 101" "entered s' 1 = 1" using s(2,3) s'(2,3) by simp_all
  with s'(1) show ?thesis by blast
qed

text \<open>
  A group barrier that its last member has left lets the next generation through: the leave
  sets the notification with nobody there to reset it, and when two threads have joined again, the
  first one returns from its wait although the second has never arrived.
\<close>
lemma last_leave_breaks_barrier:
  "\<exists>s. runs thread_group_barrier_wait_step 2
      (at_start (thread_group_barrier_join (thread_group_barrier_join
         (snd (thread_group_barrier_leave (thread_group_barrier_join thread_group_barrier_init)))))) s \<and>
    passed s 0 = 1 \<and> entered s 1 = 0"
proof -
  let ?b = "thread_group_barrier_join (thread_group_barrier_join
      (snd (thread_group_barrier_leave (thread_group_barrier_join thread_group_barrier_init))))"
  have b: "?b = \<lparr>b_lock = False, remaining = 2, init_count = 2, active = False, notify = 1\<rparr>"
    by (simp add: thread_group_barrier_join_def thread_group_barrier_leave_def thread_group_barrier_init_def
        zero_barrier_def cmpswap_def)
  obtain s where s: "run_list thread_group_barrier_wait_step [0, 0, 0, 0, 0, 0, 0, 0, 0] (at_start ?b) = Some s"
      "passed s 0 = 1" "entered s 1 = 0"
    unfolding b by (simp add: thread_group_barrier_wait_step_def run_simps)
  have "runs thread_group_barrier_wait_step 2 (at_start ?b) s"
    by (rule run_list_runs [OF runs_refl s(1)]) auto
  with s(2,3) show ?thesis by blast
qed

end
