(* ===== verification/List_Head.thy ===== *)
theory List_Head
  imports Prelude
begin

text \<open>
  The circular doubly linked lists of \<open>include/nautilus/list.h\<close> and the queues built on them
  (\<open>include/nautilus/queue.h\<close>, \<open>src/nautilus/queue.c\<close>), as updates of the two link fields of
  every node. A chain of nodes relates a list head to the list it stands for; the operations of
  the header file refine the list operations.
\<close>

section \<open>Operations on links\<close>

record links =
  nxt :: "ptr \<Rightarrow> ptr"
  prv :: "ptr \<Rightarrow> ptr"

definition set_next :: "ptr \<Rightarrow> ptr \<Rightarrow> links \<Rightarrow> links" where
  "set_next a b L = L\<lparr>nxt := (nxt L)(a := b)\<rparr>"

definition set_prev :: "ptr \<Rightarrow> ptr \<Rightarrow> links \<Rightarrow> links" where
  "set_prev a b L = L\<lparr>prv := (prv L)(a := b)\<rparr>"

definition LIST_POISON1 :: ptr where "LIST_POISON1 = 0xf000000000100100"
definition LIST_POISON2 :: ptr where "LIST_POISON2 = 0xf000000000200200"

definition INIT_LIST_HEAD :: "ptr \<Rightarrow> links \<Rightarrow> links" where
  "INIT_LIST_HEAD l L = set_prev l l (set_next l l L)"

definition list_add_between :: "ptr \<Rightarrow> ptr \<Rightarrow> ptr \<Rightarrow> links \<Rightarrow> links" where
  "list_add_between nelm p n L = set_next p nelm (set_prev nelm p (set_next nelm n (set_prev n nelm L)))"

definition list_add :: "ptr \<Rightarrow> ptr \<Rightarrow> links \<Rightarrow> links" where
  "list_add nelm h L = list_add_between nelm h (nxt L h) L"

definition list_add_tail :: "ptr \<Rightarrow> ptr \<Rightarrow> links \<Rightarrow> links" where
  "list_add_tail nelm h L = list_add_between nelm (prv L h) h L"

definition list_del_between :: "ptr \<Rightarrow> ptr \<Rightarrow> links \<Rightarrow> links" where
  "list_del_between p n L = set_next p n (set_prev n p L)"

definition list_del :: "ptr \<Rightarrow> links \<Rightarrow> links" where
  "list_del e L = set_prev e LIST_POISON2 (set_next e LIST_POISON1 (list_del_between (prv L e) (nxt L e) L))"

definition list_del_init :: "ptr \<Rightarrow> links \<Rightarrow> links" where
  "list_del_init e L = INIT_LIST_HEAD e (list_del_between (prv L e) (nxt L e) L)"

definition list_move :: "ptr \<Rightarrow> ptr \<Rightarrow> links \<Rightarrow> links" where
  "list_move l h L = list_add l h (list_del_between (prv L l) (nxt L l) L)"

definition list_move_tail :: "ptr \<Rightarrow> ptr \<Rightarrow> links \<Rightarrow> links" where
  "list_move_tail l h L = list_add_tail l h (list_del_between (prv L l) (nxt L l) L)"

definition list_empty :: "ptr \<Rightarrow> links \<Rightarrow> bool" where
  "list_empty h L \<longleftrightarrow> nxt L h = h"

definition list_empty_careful :: "ptr \<Rightarrow> links \<Rightarrow> bool" where
  "list_empty_careful h L \<longleftrightarrow> nxt L h = h \<and> nxt L h = prv L h"

definition list_splice_between :: "ptr \<Rightarrow> ptr \<Rightarrow> links \<Rightarrow> links" where
  "list_splice_between l h L =
     (let f = nxt L l; z = prv L l; at = nxt L h
      in set_prev at z (set_next z at (set_next h f (set_prev f h L))))"

definition list_splice :: "ptr \<Rightarrow> ptr \<Rightarrow> links \<Rightarrow> links" where
  "list_splice l h L = (if \<not> list_empty l L then list_splice_between l h L else L)"

definition list_splice_init :: "ptr \<Rightarrow> ptr \<Rightarrow> links \<Rightarrow> links" where
  "list_splice_init l h L = (if \<not> list_empty l L then INIT_LIST_HEAD l (list_splice_between l h L) else L)"

text \<open>The structure around a node, whose link fields are at offset \<open>off\<close>.\<close>

definition list_entry :: "nat \<Rightarrow> ptr \<Rightarrow> ptr" where
  "list_entry off p = p - off"

definition list_first_entry :: "nat \<Rightarrow> ptr \<Rightarrow> links \<Rightarrow> ptr" where
  "list_first_entry off h L = (if nxt L h \<noteq> h then list_entry off (nxt L h) else NULL)"

definition list_tail_entry :: "nat \<Rightarrow> ptr \<Rightarrow> links \<Rightarrow> ptr" where
  "list_tail_entry off h L = (if prv L h \<noteq> h then list_entry off (prv L h) else NULL)"

definition list_next_entry :: "nat \<Rightarrow> ptr \<Rightarrow> links \<Rightarrow> ptr" where
  "list_next_entry off p L = (if nxt L p \<noteq> p then list_entry off (nxt L p) else NULL)"

text \<open>The nodes the iteration macros visit; \<open>None\<close> if the iteration does not end.\<close>

partial_function (option) visit_from :: "(ptr \<Rightarrow> ptr) \<Rightarrow> ptr \<Rightarrow> ptr \<Rightarrow> ptr list option" where
  "visit_from f h pos = (if pos \<noteq> h then Option.bind (visit_from f h (f pos)) (\<lambda>xs. Some (pos # xs)) else Some [])"

definition list_for_each :: "ptr \<Rightarrow> links \<Rightarrow> ptr list option" where
  "list_for_each h L = visit_from (nxt L) h (nxt L h)"

definition list_for_each_prev :: "ptr \<Rightarrow> links \<Rightarrow> ptr list option" where
  "list_for_each_prev h L = visit_from (prv L) h (prv L h)"

text \<open>
  The iteration that is safe against removal has read the successor \<open>n\<close> before the body runs on
  \<open>pos\<close>; \<open>body\<close> is the loop body's effect on the links.
\<close>

partial_function (option) each_safe :: "(ptr \<Rightarrow> links \<Rightarrow> links) \<Rightarrow> ptr \<Rightarrow> ptr \<Rightarrow> ptr \<Rightarrow> links \<Rightarrow> links option" where
  "each_safe body h pos n L =
     (if pos \<noteq> h then let L' = body pos L in each_safe body h n (nxt L' n) L' else Some L)"

definition list_for_each_safe :: "(ptr \<Rightarrow> links \<Rightarrow> links) \<Rightarrow> ptr \<Rightarrow> links \<Rightarrow> links option" where
  "list_for_each_safe body h L = each_safe body h (nxt L h) (nxt L (nxt L h)) L"

section \<open>Queues\<close>

text \<open>A queue is its head node, and an entry its node, which is its only field.\<close>

definition nk_queue_create :: "ptr \<Rightarrow> links \<Rightarrow> ptr \<times> links" where
  "nk_queue_create q L = (if q = NULL then (NULL, L) else (q, INIT_LIST_HEAD q L))"

definition nk_queue_empty :: "ptr \<Rightarrow> links \<Rightarrow> bool" where
  "nk_queue_empty q L = list_empty q L"

definition nk_enqueue_entry :: "ptr \<Rightarrow> ptr \<Rightarrow> links \<Rightarrow> links" where
  "nk_enqueue_entry q e L = list_add_tail e q L"

definition nk_dequeue_entry :: "ptr \<Rightarrow> links \<Rightarrow> ptr \<times> links" where
  "nk_dequeue_entry e L = (e, list_del_init e L)"

definition nk_dequeue_entry_atomic :: "ptr \<Rightarrow> ptr \<Rightarrow> links \<Rightarrow> ptr \<times> links" where
  "nk_dequeue_entry_atomic q e L = (if \<not> nk_queue_empty q L then (e, list_del_init e L) else (NULL, L))"

definition nk_dequeue_first :: "ptr \<Rightarrow> links \<Rightarrow> ptr \<times> links" where
  "nk_dequeue_first q L =
     (if \<not> nk_queue_empty q L then let f = nxt L q in (list_entry 0 f, list_del_init f L) else (NULL, L))"

text \<open>The links when every entry has been unlinked, before the queue itself is freed.\<close>

definition nk_queue_destroy :: "ptr \<Rightarrow> links \<Rightarrow> links option" where
  "nk_queue_destroy q L = list_for_each_safe list_del_init q L"

section \<open>Chains\<close>

fun chain :: "links \<Rightarrow> ptr list \<Rightarrow> bool" where
  "chain L (a # b # xs) \<longleftrightarrow> nxt L a = b \<and> prv L b = a \<and> chain L (b # xs)"
| "chain L _ \<longleftrightarrow> True"

text \<open>The head \<open>h\<close> holds the nodes \<open>xs\<close>, in order.\<close>

definition holds :: "links \<Rightarrow> ptr \<Rightarrow> ptr list \<Rightarrow> bool" where
  "holds L h xs \<longleftrightarrow> distinct (h # xs) \<and> chain L (h # xs @ [h])"

named_theorems links_upd \<open>what an operation does to the links\<close>

lemma set_links [simp]:
  "nxt (set_next a b L) = (nxt L)(a := b)" "prv (set_next a b L) = prv L"
  "prv (set_prev a b L) = (prv L)(a := b)" "nxt (set_prev a b L) = nxt L"
  by (simp_all add: set_next_def set_prev_def)

lemmas link_defs = INIT_LIST_HEAD_def list_add_between_def list_add_def list_add_tail_def list_del_between_def
  list_del_def list_del_init_def

lemma chain_append: "chain L (xs @ [a]) \<Longrightarrow> chain L (a # ys) \<Longrightarrow> chain L (xs @ a # ys)"
  by (induction xs rule: induct_list012) auto

lemma chain_split: "chain L (xs @ a # ys) \<longleftrightarrow> chain L (xs @ [a]) \<and> chain L (a # ys)"
  by (induction xs rule: induct_list012) auto

lemma chain_link: "chain L (xs @ a # b # ys) \<Longrightarrow> nxt L a = b \<and> prv L b = a"
  using chain_split [of L xs a "b # ys"] by simp

text \<open>A chain depends on the successors of all but its last and the predecessors of all but its first node.\<close>

lemma chain_cong:
  "(\<And>a. a \<in> set (butlast xs) \<Longrightarrow> nxt L' a = nxt L a) \<Longrightarrow> (\<And>a. a \<in> set (tl xs) \<Longrightarrow> prv L' a = prv L a) \<Longrightarrow>
    chain L xs \<Longrightarrow> chain L' xs"
proof (induction xs rule: induct_list012)
  case (3 a b xs)
  then show ?case by (cases xs) auto
qed auto

lemma holds_distinct: "holds L h xs \<Longrightarrow> distinct xs \<and> h \<notin> set xs"
  by (simp add: holds_def)

lemma holds_first: "holds L h (x # xs) \<Longrightarrow> nxt L h = x"
  by (simp add: holds_def)

lemma holds_empty: "holds L h xs \<Longrightarrow> list_empty h L \<longleftrightarrow> xs = []"
  by (cases xs) (auto simp: holds_def list_empty_def)

lemma holds_last: "holds L h xs \<Longrightarrow> prv L h = last (h # xs)"
proof (cases xs rule: rev_cases)
  case (snoc ys y)
  assume "holds L h xs"
  then show ?thesis using chain_link [of L "h # ys" y h "[]"] snoc by (simp add: holds_def)
qed (simp add: holds_def)

section \<open>The operations refine list operations\<close>

lemma holds_init: "holds (INIT_LIST_HEAD h L) h []"
  by (simp add: holds_def link_defs)

text \<open>
  A circle cut at two neighbours \<open>p\<close> and \<open>n\<close>: both parts stay chains when only the links across
  the cut, and those of a node \<open>e\<close> that is on neither part, change.
\<close>

lemma cut_chains:
  assumes "distinct (h # xs @ ys)" "e \<notin> set (h # xs @ ys)" "chain L (h # xs)" "chain L (ys @ [h])"
    and p: "p = last (h # xs)" and n: "n = hd (ys @ [h])"
    and same: "\<And>a. a \<noteq> p \<Longrightarrow> a \<noteq> e \<Longrightarrow> nxt L' a = nxt L a" "\<And>a. a \<noteq> n \<Longrightarrow> a \<noteq> e \<Longrightarrow> prv L' a = prv L a"
  shows "chain L' (h # xs)" "chain L' (ys @ [h])"
proof -
  obtain us where u: "h # xs = us @ [p]" unfolding p by (metis append_butlast_last_id list.distinct(1))
  obtain vs where v: "ys @ [h] = n # vs" unfolding n by (cases ys) auto
  have d: "distinct (us @ [p])" "distinct (n # vs)" unfolding u [symmetric] v [symmetric] using assms(1) by auto
  have s: "set us \<subseteq> set (h # xs)" "p \<in> set (h # xs)" "set vs \<subseteq> set (ys @ [h])" "n \<in> set (ys @ [h])"
    unfolding u v by auto
  show "chain L' (h # xs)"
  proof (rule chain_cong [OF _ _ assms(3)])
    show "nxt L' a = nxt L a" if "a \<in> set (butlast (h # xs))" for a
    proof -
      have "a \<in> set us" using that unfolding u by simp
      then show ?thesis using same(1) [of a] d(1) s(1) assms(2) by auto
    qed
    show "prv L' a = prv L a" if "a \<in> set (tl (h # xs))" for a
      using that same(2) [of a] s(4) assms(1,2) by auto
  qed
  show "chain L' (ys @ [h])"
  proof (rule chain_cong [OF _ _ assms(4)])
    show "nxt L' a = nxt L a" if "a \<in> set (butlast (ys @ [h]))" for a
      using that same(1) [of a] s(2) assms(1,2) by auto
    show "prv L' a = prv L a" if "a \<in> set (tl (ys @ [h]))" for a
    proof -
      have "a \<in> set vs" using that unfolding v by simp
      then show ?thesis using same(2) [of a] d(2) s(3) assms(2) by auto
    qed
  qed
qed

text \<open>Joining chains at the cut.\<close>

lemma chain_join: "chain L (h # xs @ ys @ [h]) \<longleftrightarrow> chain L (h # xs) \<and> chain L (ys @ [h]) \<and>
    nxt L (last (h # xs)) = hd (ys @ [h]) \<and> prv L (hd (ys @ [h])) = last (h # xs)"
proof -
  obtain us p where u: "h # xs = us @ [p]" by (metis append_butlast_last_id list.distinct(1))
  obtain n vs where v: "ys @ [h] = n # vs" by (cases ys) auto
  have "chain L (h # xs @ ys @ [h]) \<longleftrightarrow> chain L (us @ p # n # vs)" using u v by (metis append_Cons append_assoc append_Nil)
  then show ?thesis unfolding u v using chain_split [of L us p "n # vs"] by auto
qed

text \<open>Inserting a new node into a circle, and taking one out.\<close>

lemma insert_between:
  assumes "holds L h (xs @ ys)" "e \<notin> set (h # xs @ ys)"
  shows "holds (list_add_between e (last (h # xs)) (hd (ys @ [h])) L) h (xs @ e # ys)"
proof -
  let ?p = "last (h # xs)" and ?n = "hd (ys @ [h])"
  let ?L = "list_add_between e ?p ?n L"
  have c: "chain L (h # xs)" "chain L (ys @ [h])" using assms(1) chain_join [of L h xs ys] by (auto simp: holds_def)
  have k: "nxt ?L ?p = e" "prv ?L ?n = e" "nxt ?L e = ?n" "prv ?L e = ?p" "a \<noteq> ?p \<Longrightarrow> a \<noteq> e \<Longrightarrow> nxt ?L a = nxt L a"
    "a \<noteq> ?n \<Longrightarrow> a \<noteq> e \<Longrightarrow> prv ?L a = prv L a" for a
    using assms(2) last_in_set [of "h # xs"] hd_in_set [of "ys @ [h]"] by (auto simp: list_add_between_def)
  have d: "distinct (h # xs @ ys)" using assms(1) by (simp add: holds_def)
  note c' = cut_chains [OF d assms(2) c refl refl k(5,6)]
  have "chain ?L (e # ys @ [h])" using c'(2) k(2,3) by (cases ys) auto
  then have "chain ?L (h # xs @ (e # ys) @ [h])" using c'(1) k(1,4) unfolding chain_join by auto
  then show ?thesis using d assms(2) by (auto simp: holds_def)
qed

lemma del_between:
  assumes "holds L h (xs @ e # ys)"
  shows "holds (list_del_between (prv L e) (nxt L e) L) h (xs @ ys)"
proof -
  let ?p = "last (h # xs)" and ?n = "hd (ys @ [h])"
  have c: "chain L (h # xs)" "chain L (e # ys @ [h])" "prv L e = ?p"
    using assms chain_join [of L h xs "e # ys"] by (auto simp: holds_def)
  then have c2: "chain L (ys @ [h])" "nxt L e = ?n" by (cases ys; auto)+
  let ?L = "list_del_between ?p ?n L"
  have k: "nxt ?L ?p = ?n" "prv ?L ?n = ?p" "a \<noteq> ?p \<Longrightarrow> a \<noteq> e \<Longrightarrow> nxt ?L a = nxt L a"
    "a \<noteq> ?n \<Longrightarrow> a \<noteq> e \<Longrightarrow> prv ?L a = prv L a" for a by (auto simp: list_del_between_def)
  have d: "distinct (h # xs @ ys)" "e \<notin> set (h # xs @ ys)" using assms by (auto simp: holds_def)
  have "chain ?L (h # xs @ ys @ [h])"
    using cut_chains [OF d c(1) c2(1) refl refl k(3,4)] k(1,2) unfolding chain_join by auto
  then show ?thesis using d c(3) c2(2) by (simp add: holds_def)
qed

lemma holds_add:
  assumes "holds L h xs" "e \<notin> set (h # xs)"
  shows "holds (list_add e h L) h (e # xs)"
proof -
  have "nxt L h = hd (xs @ [h])" using assms(1) by (cases xs) (auto simp: holds_def)
  then show ?thesis using insert_between [of L h "[]" xs e] assms by (simp add: list_add_def)
qed

lemma holds_add_tail:
  assumes "holds L h xs" "e \<notin> set (h # xs)"
  shows "holds (list_add_tail e h L) h (xs @ [e])"
  using insert_between [of L h xs "[]" e] assms holds_last [OF assms(1)] by (simp add: list_add_tail_def)

text \<open>Changing the links of a node that is not on the list.\<close>

lemma holds_off:
  assumes "holds L h xs" "e \<notin> set (h # xs)"
  shows "holds (set_prev e a (set_next e b L)) h xs"
proof -
  have "chain (set_prev e a (set_next e b L)) (h # xs @ [h])"
  proof (rule chain_cong)
    show "nxt (set_prev e a (set_next e b L)) x = nxt L x" if "x \<in> set (butlast (h # xs @ [h]))" for x
      using that assms(2) by (auto dest!: in_set_butlastD)
    show "prv (set_prev e a (set_next e b L)) x = prv L x" if "x \<in> set (tl (h # xs @ [h]))" for x
      using that assms(2) by auto
    show "chain L (h # xs @ [h])" using assms(1) by (simp add: holds_def)
  qed
  then show ?thesis using assms(1) by (simp add: holds_def)
qed

lemma remove_split:
  assumes "holds L h xs" "e \<in> set xs"
  obtains us vs where "xs = us @ e # vs" "remove1 e xs = us @ vs" "e \<notin> set (h # us @ vs)"
proof -
  obtain us vs where "xs = us @ e # vs" using assms(2) by (meson split_list)
  moreover from this have "e \<notin> set (h # us @ vs)" using assms(1) by (auto simp: holds_def)
  ultimately show ?thesis using that [of us vs] by (simp add: remove1_append)
qed

lemma holds_del:
  assumes "holds L h xs" "e \<in> set xs"
  shows "holds (list_del e L) h (remove1 e xs)"
proof -
  obtain us vs where s: "xs = us @ e # vs" "remove1 e xs = us @ vs" "e \<notin> set (h # us @ vs)" using remove_split [OF assms] .
  show ?thesis using holds_off [OF del_between s(3)] assms(1) s(1,2) by (simp add: list_del_def)
qed

lemma holds_del_init:
  assumes "holds L h xs" "e \<in> set xs"
  shows "holds (list_del_init e L) h (remove1 e xs)"
proof -
  obtain us vs where s: "xs = us @ e # vs" "remove1 e xs = us @ vs" "e \<notin> set (h # us @ vs)" using remove_split [OF assms] .
  show ?thesis using holds_off [OF del_between s(3)] assms(1) s(1,2) by (simp add: list_del_init_def INIT_LIST_HEAD_def)
qed

lemma holds_move:
  assumes "holds L h xs" "e \<in> set xs"
  shows "holds (list_move e h L) h (e # remove1 e xs)" "holds (list_move_tail e h L) h (remove1 e xs @ [e])"
proof -
  obtain us vs where s: "xs = us @ e # vs" "remove1 e xs = us @ vs" "e \<notin> set (h # us @ vs)" using remove_split [OF assms] .
  have h: "holds (list_del_between (prv L e) (nxt L e) L) h (us @ vs)" using del_between assms(1) s(1) by simp
  show "holds (list_move e h L) h (e # remove1 e xs)" "holds (list_move_tail e h L) h (remove1 e xs @ [e])"
    using holds_add [OF h s(3)] holds_add_tail [OF h s(3)] s(2) by (simp_all add: list_move_def list_move_tail_def)
qed

lemma holds_cong:
  "holds L h xs \<Longrightarrow> (\<And>a. a \<in> set (h # xs) \<Longrightarrow> nxt L' a = nxt L a \<and> prv L' a = prv L a) \<Longrightarrow> holds L' h xs"
  unfolding holds_def by (auto intro!: chain_cong [of "h # xs @ [h]" L' L] dest!: in_set_butlastD)

text \<open>A list joined in front of another one.\<close>

lemma holds_splice:
  assumes "holds L l xs" "holds L h ys" "set (l # xs) \<inter> set (h # ys) = {}"
  shows "holds (list_splice l h L) h (xs @ ys)"
proof (cases "xs = []")
  case True
  then show ?thesis using assms holds_empty by (simp add: list_splice_def)
next
  case False
  then obtain f us where xs: "xs = f # us" by (cases xs) auto
  let ?z = "last xs" and ?at = "hd (ys @ [h])"
  let ?L = "list_splice_between l h L"
  have z: "?z \<in> set xs" using False by simp
  have at: "?at \<in> set (h # ys)" by (cases ys) auto
  have l: "nxt L l = f" "prv L l = ?z" "nxt L h = ?at"
    using assms(1,2) holds_last [OF assms(1)] False xs by (auto simp: holds_def) (cases ys; simp)
  have L: "nxt ?L = (nxt L)(h := f, ?z := ?at)" "prv ?L = (prv L)(f := h, ?at := ?z)"
    by (simp_all add: list_splice_between_def Let_def l)
  have d: "distinct (h # xs @ ys)" using assms by (auto simp: holds_def)
  have cx: "chain L xs" "chain L (ys @ [h])"
    using assms(1,2) chain_split [of L "l # us" _ ] xs chain_join [of L l xs "[]"] chain_join [of L h "[]" ys]
    by (auto simp: holds_def)
  have "chain ?L xs"
  proof (rule chain_cong [OF _ _ cx(1)])
    show "nxt ?L a = nxt L a" if "a \<in> set (butlast xs)" for a
      using that d False by (auto simp: L dest: in_set_butlastD) (metis append_butlast_last_id distinct_append distinct.simps(2) disjoint_iff list.set_intros(1))
    show "prv ?L a = prv L a" if "a \<in> set (tl xs)" for a using that d at xs by (auto simp: L)
  qed
  moreover have "chain ?L (ys @ [h])"
  proof (rule chain_cong [OF _ _ cx(2)])
    show "nxt ?L a = nxt L a" if "a \<in> set (butlast (ys @ [h]))" for a using that d z by (auto simp: L)
    show "prv ?L a = prv L a" if "a \<in> set (tl (ys @ [h]))" for a using that d xs by (cases ys) (auto simp: L)
  qed
  moreover have "h \<noteq> ?z" "f \<noteq> ?at" using z at d xs by auto
  ultimately have "chain ?L (h # xs @ ys @ [h])" unfolding chain_join using xs by (auto simp: L)
  then show ?thesis using d False holds_empty [OF assms(1)] by (simp add: list_splice_def holds_def)
qed

section \<open>Iterating\<close>

lemma visit_chain: "chain L (xs @ [h]) \<Longrightarrow> h \<notin> set xs \<Longrightarrow> visit_from (nxt L) h (hd (xs @ [h])) = Some xs"
proof (induction xs)
  case (Cons x xs)
  then have "nxt L x = hd (xs @ [h])" "chain L (xs @ [h])" by (cases xs; simp)+
  then show ?case using Cons by (subst visit_from.simps) simp
qed (subst visit_from.simps, simp)

lemma chain_snoc: "chain L (h # xs @ [x]) \<longleftrightarrow> chain L (h # xs) \<and> nxt L (last (h # xs)) = x \<and> prv L x = last (h # xs)"
  by (induction xs arbitrary: h) auto

lemma visit_chain_back: "chain L (h # xs) \<Longrightarrow> h \<notin> set xs \<Longrightarrow> visit_from (prv L) h (last (h # xs)) = Some (rev xs)"
proof (induction xs rule: rev_induct)
  case (snoc x xs)
  then have "prv L x = last (h # xs)" "chain L (h # xs)"
    using chain_snoc [of L h xs x] by auto
  then show ?case using snoc by (subst visit_from.simps) simp
qed (subst visit_from.simps, simp)

lemma holds_visits:
  assumes "holds L h xs"
  shows "list_for_each h L = Some xs" "list_for_each_prev h L = Some (rev xs)"
proof -
  have c: "chain L (xs @ [h])" "chain L (h # xs)" "nxt L h = hd (xs @ [h])"
    using assms chain_join [of L h "[]" xs] chain_join [of L h xs "[]"] by (auto simp: holds_def)
  show "list_for_each h L = Some xs" "list_for_each_prev h L = Some (rev xs)"
    using visit_chain [OF c(1)] visit_chain_back [OF c(2)] holds_distinct [OF assms] holds_last [OF assms] c(3)
    by (auto simp: list_for_each_def list_for_each_prev_def)
qed

lemma each_safe_unlinks:
  "holds L h xs \<Longrightarrow> \<exists>L'. each_safe list_del_init h (hd (xs @ [h])) (nxt L (hd (xs @ [h]))) L = Some L' \<and> holds L' h []"
proof (induction xs arbitrary: L)
  case (Cons x xs)
  let ?L = "list_del_init x L"
  have h: "holds ?L h xs" using holds_del_init [OF Cons.prems, of x] by simp
  have n: "nxt L x = hd (xs @ [h])" "x \<noteq> h" using Cons.prems by (cases xs; simp add: holds_def)+
  show ?case using Cons.IH [OF h] n by (subst each_safe.simps) (simp add: Let_def)
qed (subst each_safe.simps, simp)

section \<open>A contract for queues\<close>

text \<open>
  What a client relies on: \<open>keeps\<close> relates a state to the entries in the queue, oldest first. An
  enqueued entry goes to the end, and a dequeue returns and removes the oldest one.
\<close>

locale fifo =
  fixes keeps :: "'s \<Rightarrow> ptr list \<Rightarrow> bool"
    and ok :: "ptr \<Rightarrow> bool"
    and enq :: "ptr \<Rightarrow> 's \<Rightarrow> 's"
    and deq :: "'s \<Rightarrow> ptr \<times> 's"
  assumes enq_end: "\<lbrakk>keeps s xs; ok e; e \<notin> set xs\<rbrakk> \<Longrightarrow> keeps (enq e s) (xs @ [e])"
    and deq_oldest: "keeps s (x # xs) \<Longrightarrow> fst (deq s) = x \<and> keeps (snd (deq s)) xs"
    and deq_none: "keeps s [] \<Longrightarrow> deq s = (NULL, s)"
begin

fun drain :: "nat \<Rightarrow> 's \<Rightarrow> ptr list \<times> 's" where
  "drain 0 s = ([], s)"
| "drain (Suc k) s = (let (x, s1) = deq s; (ys, s2) = drain k s1 in (x # ys, s2))"

lemma enq_all: "\<lbrakk>keeps s xs; distinct (xs @ es); \<forall>e \<in> set es. ok e\<rbrakk> \<Longrightarrow> keeps (fold enq es s) (xs @ es)"
proof (induction es arbitrary: s xs)
  case (Cons e es)
  then show ?case using enq_end [of s xs e] Cons.IH [of "enq e s" "xs @ [e]"] by simp
qed simp

lemma drain_all: "keeps s xs \<Longrightarrow> fst (drain (length xs) s) = xs \<and> keeps (snd (drain (length xs) s)) []"
proof (induction xs arbitrary: s)
  case (Cons x xs)
  from deq_oldest [OF Cons.prems] obtain s1 where d: "deq s = (x, s1)" "keeps s1 xs" by (cases "deq s") auto
  then show ?case using Cons.IH [OF d(2)] by (simp add: Let_def split_beta)
qed simp

lemma first_in_first_out:
  assumes "keeps s []" "distinct es" "\<forall>e \<in> set es. ok e"
  shows "fst (drain (length es) (fold enq es s)) = es \<and> deq (snd (drain (length es) (fold enq es s))) = (NULL, snd (drain (length es) (fold enq es s)))"
  using drain_all [OF enq_all [OF assms(1) _ assms(3)]] assms(2) deq_none by simp

end

text \<open>The kernel's queue keeps that contract.\<close>

lemma dequeue_first_holds:
  assumes "holds L q (x # xs)"
  shows "fst (nk_dequeue_first q L) = x \<and> holds (snd (nk_dequeue_first q L)) q xs"
  using assms holds_first [OF assms] holds_empty [OF assms] holds_del_init [OF assms, of x]
  by (simp add: nk_dequeue_first_def nk_queue_empty_def Let_def list_entry_def)

interpretation nkq: fifo "\<lambda>L. holds L q" "\<lambda>e. e \<noteq> q" "nk_enqueue_entry q" "nk_dequeue_first q" for q
proof
  show "holds (nk_enqueue_entry q e L) q (xs @ [e])" if "holds L q xs" "e \<noteq> q" "e \<notin> set xs" for L xs e
    using holds_add_tail [OF that(1)] that(2,3) by (simp add: nk_enqueue_entry_def)
  show "nk_dequeue_first q L = (NULL, L)" if "holds L q []" for L
    using holds_empty [OF that] by (simp add: nk_dequeue_first_def nk_queue_empty_def)
qed (rule dequeue_first_holds)

fun dequeue_times :: "ptr \<Rightarrow> nat \<Rightarrow> links \<Rightarrow> ptr list \<times> links" where
  "dequeue_times q 0 L = ([], L)"
| "dequeue_times q (Suc k) L = (let (x, L1) = nk_dequeue_first q L; (ys, L2) = dequeue_times q k L1 in (x # ys, L2))"

lemma dequeue_times_drain: "dequeue_times q k L = nkq.drain q k L"
  by (induction k arbitrary: L) auto

section \<open>Properties\<close>

text \<open>
  C24. The linked lists are lists: on a circle of nodes that stands for a list, adding at either end,
  deleting a node, testing for emptiness and iterating in either direction (which ends) do on the
  links what the list operations do on the list.
\<close>
theorem list_ops_refine:
  assumes "holds L h xs" "e \<notin> set (h # xs)"
  shows "holds (list_add e h L) h (e # xs) \<and> holds (list_add_tail e h L) h (xs @ [e]) \<and>
    (\<forall>x \<in> set xs. holds (list_del x L) h (remove1 x xs) \<and> holds (list_move x h L) h (x # remove1 x xs)) \<and>
    (list_empty h L \<longleftrightarrow> xs = []) \<and> list_for_each h L = Some xs \<and> list_for_each_prev h L = Some (rev xs)"
  using holds_add [OF assms] holds_add_tail [OF assms] holds_del [OF assms(1)] holds_move(1) [OF assms(1)]
    holds_empty [OF assms(1)] holds_visits [OF assms(1)] by blast

definition sample_links :: links where
  "sample_links = list_add_tail 2 1 (list_add_tail 3 1 (INIT_LIST_HEAD 1 \<lparr>nxt = (\<lambda>_. 0), prv = (\<lambda>_. 0)\<rparr>))"

theorem list_ops_refine_witness:
  "holds sample_links 1 [3, 2] \<and> list_for_each 1 sample_links = Some [3, 2] \<and> holds (list_del 3 sample_links) 1 [2]"
proof -
  have "holds sample_links 1 [3, 2]" by (simp add: holds_def sample_links_def link_defs)
  then show ?thesis using list_ops_refine [of sample_links 1 "[3, 2]" 4] by simp
qed

text \<open>
  Queues are first in, first out: when distinct entries are enqueued to an empty queue, as many
  dequeues return them in the order they were enqueued, and the next dequeue returns null.
\<close>
lemma nk_queue_fifo:
  assumes "holds L q []" "distinct es" "q \<notin> set es"
  shows "\<exists>L'. dequeue_times q (length es) (fold (nk_enqueue_entry q) es L) = (es, L') \<and> nk_dequeue_first q L' = (NULL, L')"
  using nkq.first_in_first_out [of L q es] assms by (cases "dequeue_times q (length es) (fold (nk_enqueue_entry q) es L)")
    (auto simp: dequeue_times_drain)

lemma nk_queue_fifo_witness:
  "\<exists>L'. dequeue_times 1 2 (fold (nk_enqueue_entry 1) [7, 5] (INIT_LIST_HEAD 1 sample_links)) = ([7, 5], L')"
proof -
  have "\<exists>L'. dequeue_times 1 (length [7, 5 :: nat]) (fold (nk_enqueue_entry 1) [7, 5] (INIT_LIST_HEAD 1 sample_links)) = ([7, 5], L') \<and>
      nk_dequeue_first 1 L' = (NULL, L')"
    by (rule nk_queue_fifo) (simp_all add: holds_init)
  then show ?thesis by (auto simp: numeral_2_eq_2)
qed

end
