(* ===== verification/Strings.thy ===== *)
theory Strings
  imports Prelude
begin

text \<open>
  The kernel's string and memory routines (\<open>src/nautilus/naut_string.c\<close>). A string argument is
  the rest of the object it points into, a list of bytes, so reading past the end of the object is
  a value. \<open>char\<close> is signed. A returned pointer into an argument is an offset. The memory routines
  work on addresses that are natural numbers: objects lie below the end of the address space.
\<close>

section \<open>Character classes\<close>

unbundle bit_operations_syntax

definition ctU :: u8 where "ctU = 1"
definition ctL :: u8 where "ctL = 2"
definition ctD :: u8 where "ctD = 4"
definition ctC :: u8 where "ctC = 8"
definition ctP :: u8 where "ctP = 16"
definition ctS :: u8 where "ctS = 32"
definition ctX :: u8 where "ctX = 64"
definition ctSP :: u8 where "ctSP = 128"

text \<open>The class table, run by run.\<close>

definition ctype_table :: "u8 list" where
  "ctype_table =
     replicate 9 ctC @ replicate 5 (ctC OR ctS) @ replicate 18 ctC @
     [ctS OR ctSP] @ replicate 15 ctP @ replicate 10 ctD @ replicate 7 ctP @
     replicate 6 (ctU OR ctX) @ replicate 20 ctU @ replicate 6 ctP @
     replicate 6 (ctL OR ctX) @ replicate 20 ctL @ replicate 4 ctP @ [ctC] @
     replicate 32 0 @ [ctS OR ctSP] @ replicate 31 ctP @
     replicate 23 ctU @ [ctP] @ replicate 7 ctU @ [ctL] @ replicate 23 ctL @ [ctP] @ replicate 8 ctL"

definition ismask :: "u8 \<Rightarrow> u8" where
  "ismask c = ctype_table ! unat c"

definition isalpha :: "u8 \<Rightarrow> bool" where "isalpha c \<longleftrightarrow> ismask c AND (ctU OR ctL) \<noteq> 0"
definition isdigit :: "u8 \<Rightarrow> bool" where "isdigit c \<longleftrightarrow> ismask c AND ctD \<noteq> 0"
definition islower :: "u8 \<Rightarrow> bool" where "islower c \<longleftrightarrow> ismask c AND ctL \<noteq> 0"
definition isupper :: "u8 \<Rightarrow> bool" where "isupper c \<longleftrightarrow> ismask c AND ctU \<noteq> 0"
definition isspace :: "u8 \<Rightarrow> bool" where "isspace c \<longleftrightarrow> ismask c AND ctS \<noteq> 0"
definition isxdigit :: "u8 \<Rightarrow> bool" where "isxdigit c \<longleftrightarrow> ismask c AND (ctD OR ctX) \<noteq> 0"

definition tolower :: "u8 \<Rightarrow> u8" where
  "tolower c = (if isupper c then c - (65 - 97) else c)"

definition toupper :: "u8 \<Rightarrow> u8" where
  "toupper c = (if islower c then c - (97 - 65) else c)"

lemma ctype_table_length: "length ctype_table = 256"
  by (simp add: ctype_table_def)

section \<open>Lengths and comparisons\<close>

fun strlen :: "u8 list \<Rightarrow> nat result" where
  "strlen [] = Inl OutOfBounds"
| "strlen (c # s) = (if c \<noteq> 0 then bindr (strlen s) (\<lambda>n. Inr (n + 1)) else Inr 0)"

fun strnlen :: "u8 list \<Rightarrow> nat \<Rightarrow> nat result" where
  "strnlen s 0 = Inr 0"
| "strnlen [] (Suc k) = Inl OutOfBounds"
| "strnlen (c # s) (Suc k) = (if c \<noteq> 0 then bindr (strnlen s k) (\<lambda>n. Inr (n + 1)) else Inr 0)"

fun memcmp :: "u8 list \<Rightarrow> u8 list \<Rightarrow> nat \<Rightarrow> int result" where
  "memcmp a b 0 = Inr 0"
| "memcmp (x # a) (y # b) (Suc n) = (let cmp = sint x - sint y in if cmp \<noteq> 0 then Inr cmp else memcmp a b n)"
| "memcmp a b (Suc n) = Inl OutOfBounds"

text \<open>The two comparison loops, over what is read of a character.\<close>

fun compare_strings :: "(u8 \<Rightarrow> int) \<Rightarrow> u8 list \<Rightarrow> u8 list \<Rightarrow> int result" where
  "compare_strings key (x # a) (y # b) =
     (let cmp = key x - key y in if cmp \<noteq> 0 \<or> x = 0 \<or> y = 0 then Inr cmp else compare_strings key a b)"
| "compare_strings key a b = Inl OutOfBounds"

fun compare_limited :: "(u8 \<Rightarrow> int) \<Rightarrow> u8 list \<Rightarrow> u8 list \<Rightarrow> nat \<Rightarrow> int result" where
  "compare_limited key a b 0 = Inr 0"
| "compare_limited key (x # a) (y # b) (Suc k) =
     (let cmp = key x - key y in if cmp \<noteq> 0 \<or> x = 0 \<or> y = 0 then Inr cmp else compare_limited key a b k)"
| "compare_limited key a b (Suc k) = Inl OutOfBounds"

definition strcmp :: "u8 list \<Rightarrow> u8 list \<Rightarrow> int result" where
  "strcmp = compare_strings sint"

definition strcasecmp :: "u8 list \<Rightarrow> u8 list \<Rightarrow> int result" where
  "strcasecmp = compare_strings (\<lambda>c. uint (tolower c))"

definition strncmp :: "u8 list \<Rightarrow> u8 list \<Rightarrow> nat \<Rightarrow> int result" where
  "strncmp = compare_limited sint"

definition strncasecmp :: "u8 list \<Rightarrow> u8 list \<Rightarrow> nat \<Rightarrow> int result" where
  "strncasecmp = compare_limited (\<lambda>c. uint (tolower c))"

section \<open>Copying\<close>

definition put :: "nat \<Rightarrow> u8 \<Rightarrow> u8 list \<Rightarrow> u8 list result" where
  "put i c d = (if i < length d then Inr (d[i := c]) else Inl OutOfBounds)"

text \<open>\<open>*dest++ = *src++\<close> up to the terminator, from offset \<open>i\<close> of the destination.\<close>

fun copy_at :: "nat \<Rightarrow> u8 list \<Rightarrow> u8 list \<Rightarrow> u8 list result" where
  "copy_at i d [] = Inl OutOfBounds"
| "copy_at i d (c # s) = (if c \<noteq> 0 then bindr (put i c d) (\<lambda>d'. copy_at (i + 1) d' s) else put i 0 d)"

definition strcpy :: "u8 list \<Rightarrow> u8 list \<Rightarrow> u8 list result" where
  "strcpy dest src = copy_at 0 dest src"

definition strcat :: "u8 list \<Rightarrow> u8 list \<Rightarrow> u8 list result" where
  "strcat s1 s2 = bindr (strlen s1) (\<lambda>n. copy_at n s1 s2)"

fun strncpy_at :: "nat \<Rightarrow> u8 list \<Rightarrow> u8 list \<Rightarrow> nat \<Rightarrow> u8 list result" where
  "strncpy_at i d [] limit = Inl OutOfBounds"
| "strncpy_at i d (c # s) limit =
     (if c \<noteq> 0 \<and> limit > 0 then bindr (put i c d) (\<lambda>d'. strncpy_at (i + 1) d' s (limit - 1))
      else if limit > 0 then put i 0 d else Inr d)"

definition strncpy :: "u8 list \<Rightarrow> u8 list \<Rightarrow> nat \<Rightarrow> u8 list result" where
  "strncpy dest src limit = strncpy_at 0 dest src limit"

text \<open>The loop of \<open>strncat\<close> compares \<open>i\<close> with the limit and never changes \<open>i\<close>.\<close>

fun strncat_loop :: "nat \<Rightarrow> nat \<Rightarrow> u8 list \<Rightarrow> nat \<Rightarrow> u8 list \<Rightarrow> u8 list result" where
  "strncat_loop i limit [] p s1 = (if i < limit then Inl OutOfBounds else put p 0 s1)"
| "strncat_loop i limit (c # s2) p s1 =
     (if i < limit \<and> c \<noteq> 0 then bindr (put p c s1) (strncat_loop i limit s2 (p + 1)) else put p 0 s1)"

definition strncat :: "u8 list \<Rightarrow> u8 list \<Rightarrow> nat \<Rightarrow> u8 list result" where
  "strncat s1 s2 limit = bindr (strlen s1) (\<lambda>n. strncat_loop 0 limit s2 n s1)"

section \<open>Searching\<close>

fun strchr :: "u8 list \<Rightarrow> int \<Rightarrow> nat option result" where
  "strchr [] c = Inl OutOfBounds"
| "strchr (x # s) c =
     (if x \<noteq> 0 then if sint x = c then Inr (Some 0) else bindr (strchr s c) (\<lambda>r. Inr (map_option Suc r)) else Inr None)"

fun strrchr_loop :: "u8 list \<Rightarrow> int \<Rightarrow> nat \<Rightarrow> nat option" where
  "strrchr_loop s c 0 = None"
| "strrchr_loop s c (Suc p) = (if sint (s ! p) = c then Some p else strrchr_loop s c p)"

definition strrchr :: "u8 list \<Rightarrow> int \<Rightarrow> nat option result" where
  "strrchr s c = bindr (strlen s) (\<lambda>n. Inr (strrchr_loop s c n))"

text \<open>Whether the character is one of a terminated set.\<close>

fun in_string :: "u8 \<Rightarrow> u8 list \<Rightarrow> bool result" where
  "in_string c [] = Inl OutOfBounds"
| "in_string c (x # ct) = (if x \<noteq> 0 then if c = x then Inr True else in_string c ct else Inr False)"

fun strpbrk :: "u8 list \<Rightarrow> u8 list \<Rightarrow> nat option result" where
  "strpbrk [] ct = Inl OutOfBounds"
| "strpbrk (c # cs) ct =
     (if c \<noteq> 0
      then bindr (in_string c ct) (\<lambda>b. if b then Inr (Some 0) else bindr (strpbrk cs ct) (\<lambda>r. Inr (map_option Suc r)))
      else Inr None)"

text \<open>
  The string pointed to may be null; the result is the buffer with the token terminated and where
  the next token starts.
\<close>

definition strsep :: "u8 list option \<Rightarrow> u8 list \<Rightarrow> (u8 list \<times> nat option) option result" where
  "strsep s ct =
     (case s of
        None \<Rightarrow> Inr None
      | Some b \<Rightarrow>
          bindr (strpbrk b ct) (\<lambda>e. case e of None \<Rightarrow> Inr (Some (b, None)) | Some i \<Rightarrow> Inr (Some (b[i := 0], Some (i + 1)))))"

text \<open>The inner loops of \<open>strspn\<close> and \<open>strcspn\<close> read \<open>s[cnt]\<close> once per character of the set.\<close>

definition matches_at :: "u8 list \<Rightarrow> nat \<Rightarrow> u8 list \<Rightarrow> bool result" where
  "matches_at s cnt chars =
     (if chars = [] then Inr False else if cnt < length s then Inr (s ! cnt \<in> set chars) else Inl OutOfBounds)"

function strspn_loop :: "u8 list \<Rightarrow> u8 list \<Rightarrow> nat \<Rightarrow> nat result" where
  "strspn_loop s chars cnt =
     (case matches_at s cnt chars of Inl f \<Rightarrow> Inl f | Inr b \<Rightarrow> if b then strspn_loop s chars (cnt + 1) else Inr cnt)"
  by pat_completeness auto
termination
  by (relation "measure (\<lambda>(s, chars, cnt). length s - cnt)") (auto simp: matches_at_def split: if_splits)

declare strspn_loop.simps [simp del]

definition strspn :: "u8 list \<Rightarrow> u8 list \<Rightarrow> nat result" where
  "strspn s accept = bindr (strlen accept) (\<lambda>n. strspn_loop s (take n accept) 0)"

text \<open>\<open>None\<close>: the loop never ends.\<close>

partial_function (option) strcspn_loop :: "u8 list \<Rightarrow> u8 list \<Rightarrow> nat \<Rightarrow> nat result option" where
  "strcspn_loop s chars cnt =
     (case matches_at s cnt chars of Inl f \<Rightarrow> Some (Inl f) | Inr b \<Rightarrow> if \<not> b then strcspn_loop s chars (cnt + 1) else Some (Inr cnt))"

definition strcspn :: "u8 list \<Rightarrow> u8 list \<Rightarrow> nat result option" where
  "strcspn s reject = (case strlen reject of Inl f \<Rightarrow> Some (Inl f) | Inr n \<Rightarrow> strcspn_loop s (take n reject) 0)"

text \<open>\<open>l1\<close> characters are left of the string at \<open>s1\<close>.\<close>

fun strstr_loop :: "u8 list \<Rightarrow> u8 list \<Rightarrow> nat \<Rightarrow> nat \<Rightarrow> nat \<Rightarrow> nat option result" where
  "strstr_loop s1 s2 l2 k l1 =
     (if l1 < l2 \<or> l1 = 0 then Inr None
      else bindr (memcmp (drop k s1) s2 l2) (\<lambda>r. if r = 0 then Inr (Some k) else strstr_loop s1 s2 l2 (k + 1) (l1 - 1)))"

declare strstr_loop.simps [simp del]

definition strstr :: "u8 list \<Rightarrow> u8 list \<Rightarrow> nat option result" where
  "strstr s1 s2 =
     bindr (strlen s2) (\<lambda>l2. if l2 = 0 then Inr (Some 0) else bindr (strlen s1) (\<lambda>l1. strstr_loop s1 s2 l2 0 l1))"

section \<open>Numbers\<close>

text \<open>The value and the number of characters read, which is what \<open>endptr\<close> tells.\<close>

fun atoi_loop :: "u8 list \<Rightarrow> u32 \<Rightarrow> nat \<Rightarrow> (u32 \<times> nat) result" where
  "atoi_loop [] ret k = Inl OutOfBounds"
| "atoi_loop (c # s) ret k =
     (if sint c \<ge> 48 \<and> sint c \<le> 57 then atoi_loop s (ret * 10 + (ucast c - 48)) (k + 1) else Inr (ret, k))"

definition atoi :: "u8 list \<Rightarrow> u32 result" where
  "atoi s = bindr (atoi_loop s 0 0) (\<lambda>(r, k). Inr r)"

definition strtoi :: "u8 list \<Rightarrow> (u32 \<times> nat) result" where
  "strtoi s = atoi_loop s 0 0"

definition hex_value :: "u8 \<Rightarrow> u64" where
  "hex_value c = (if isdigit c then ucast c - 48 else ucast (tolower c) - 97 + 10)"

fun atox_loop :: "u8 list \<Rightarrow> u64 \<Rightarrow> nat \<Rightarrow> (u64 \<times> nat) result" where
  "atox_loop [] ret k = Inl OutOfBounds"
| "atox_loop (c # s) ret k =
     (if isxdigit c then atox_loop s (push_bit 4 ret + hex_value c) (k + 1) else Inr (ret, k))"

text \<open>A second character \<open>x\<close> skips two; \<open>buf + 1\<close> is read even for an empty string.\<close>

definition strtox :: "u8 list \<Rightarrow> (u64 \<times> nat) result" where
  "strtox s =
     (if length s < 2 then Inl OutOfBounds
      else if s ! 1 = 120 then atox_loop (drop 2 s) 0 2 else atox_loop s 0 0)"

definition atox :: "u8 list \<Rightarrow> u64 result" where
  "atox s = bindr (strtox s) (\<lambda>(r, k). Inr r)"

section \<open>Case\<close>

fun str_tolower :: "u8 list \<Rightarrow> u8 list result" where
  "str_tolower [] = Inl OutOfBounds"
| "str_tolower (c # s) =
     (if isalpha c then bindr (str_tolower s) (\<lambda>s'. Inr ((if \<not> islower c then tolower c else c) # s')) else Inr (c # s))"

fun str_toupper :: "u8 list \<Rightarrow> u8 list result" where
  "str_toupper [] = Inl OutOfBounds"
| "str_toupper (c # s) =
     (if isalpha c then bindr (str_toupper s) (\<lambda>s'. Inr ((if \<not> isupper c then toupper c else c) # s')) else Inr (c # s))"

section \<open>Memory\<close>

text \<open>Memory is a function from addresses; the blocks lie below the top of the address space.\<close>

type_synonym memory = "nat \<Rightarrow> u8"

fun memcpy :: "nat \<Rightarrow> nat \<Rightarrow> nat \<Rightarrow> memory \<Rightarrow> memory" where
  "memcpy d s 0 m = m"
| "memcpy d s (Suc n) m = memcpy (d + 1) (s + 1) n (m(d := m s))"

fun memset :: "nat \<Rightarrow> u8 \<Rightarrow> nat \<Rightarrow> memory \<Rightarrow> memory" where
  "memset d c 0 m = m"
| "memset d c (Suc n) m = memset (d + 1) c n (m(d := c))"

definition OPSIZ :: nat where "OPSIZ = 8"
definition OP_T_THRES :: nat where "OP_T_THRES = 8"

text \<open>The backward string moves, by bytes and by four bytes, from the ends of the blocks.\<close>

fun BYTE_COPY_BWD :: "nat \<Rightarrow> nat \<Rightarrow> nat \<Rightarrow> memory \<Rightarrow> memory" where
  "BYTE_COPY_BWD d s 0 m = m"
| "BYTE_COPY_BWD d s (Suc n) m = BYTE_COPY_BWD (d - 1) (s - 1) n (m(d - 1 := m (s - 1)))"

fun WORD_COPY_BWD :: "nat \<Rightarrow> nat \<Rightarrow> nat \<Rightarrow> memory \<Rightarrow> memory" where
  "WORD_COPY_BWD d s 0 m = m"
| "WORD_COPY_BWD d s (Suc k) m =
     WORD_COPY_BWD (d - 4) (s - 4) k
       (m(d - 4 := m (s - 4), d - 3 := m (s - 3), d - 2 := m (s - 2), d - 1 := m (s - 1)))"

definition memmove :: "nat \<Rightarrow> nat \<Rightarrow> nat \<Rightarrow> memory \<Rightarrow> memory" where
  "memmove dst src n m =
     (if unat (of_nat dst - of_nat src :: u64) \<ge> n then memcpy dst src n m
      else let d = dst + n; s = src + n
           in if n \<ge> OP_T_THRES
              then let a = d mod OPSIZ; n1 = n - a; m1 = BYTE_COPY_BWD d s a m; w = n1 div 4;
                       m2 = WORD_COPY_BWD (d - a) (s - a) w m1
                   in BYTE_COPY_BWD (d - a - 4 * w) (s - a - 4 * w) (n1 mod 4) m2
              else BYTE_COPY_BWD d s n m)"

text \<open>\<open>new\<close> is what \<open>malloc\<close> returns; the copy does not test it for null.\<close>

definition strdup :: "nat \<Rightarrow> nat \<Rightarrow> u8 list \<Rightarrow> memory \<Rightarrow> (nat \<times> memory) result" where
  "strdup new s str m =
     bindr (strlen str) (\<lambda>n. if new = NULL then Inl NullDeref else Inr (new, memcpy new s (n + 1) m))"

section \<open>Strings as values\<close>

text \<open>The characters before the terminator.\<close>

fun cstr :: "u8 list \<Rightarrow> u8 list option" where
  "cstr [] = None"
| "cstr (c # s) = (if c = 0 then Some [] else map_option (Cons c) (cstr s))"

lemma cstr_append: "0 \<notin> set x \<Longrightarrow> cstr (x @ 0 # r) = Some x"
  by (induction x) auto

lemma cstr_Some: "cstr s = Some x \<longleftrightarrow> 0 \<notin> set x \<and> (\<exists>r. s = x @ 0 # r)"
proof (induction s arbitrary: x)
  case (Cons c s)
  show ?case
  proof (cases "c = 0")
    case True
    then show ?thesis by (cases x) auto
  next
    case False
    then show ?thesis
    proof (cases x)
      case (Cons d y)
      then have "cstr (c # s) = Some x \<longleftrightarrow> c = d \<and> cstr s = Some y" using False by auto
      then show ?thesis using Cons.IH [of y] False Cons by auto
    qed auto
  qed
qed simp

lemma strlen_cstr: "strlen s = (case cstr s of None \<Rightarrow> Inl OutOfBounds | Some x \<Rightarrow> Inr (length x))"
  by (induction s) (auto split: option.splits)

lemma sint_eq: "sint (a :: u8) - sint b = 0 \<longleftrightarrow> a = b"
  by (metis eq_iff_diff_eq_0 signed_word_eqI)

text \<open>The comparison of two terminated strings returns, and what its sign says.\<close>

lemma strcmp_total:
  assumes "cstr a = Some x" "cstr b = Some y"
  shows "\<exists>r. strcmp a b = Inr r \<and> (r = 0 \<longleftrightarrow> x = y) \<and>
    (r < 0 \<longleftrightarrow> ord_class.lexordp (map sint (x @ [0])) (map sint (y @ [0])))"
  using assms
proof (induction a arbitrary: b x y)
  case (Cons c a)
  then obtain d b' where b: "b = d # b'" by (cases b) auto
  show ?case
  proof (cases "c = d \<and> c \<noteq> 0")
    case True
    then obtain x' y' where xy: "cstr a = Some x'" "x = c # x'" "cstr b' = Some y'" "y = c # y'"
      using Cons.prems b by auto
    have "strcmp (c # a) b = strcmp a b'" using True b by (auto simp: strcmp_def)
    then show ?thesis using Cons.IH [OF xy(1,3)] xy by simp
  next
    case False
    have e: "strcmp (c # a) b = Inr (sint c - sint d)" using False b sint_eq [of c d] by (auto simp: strcmp_def)
    have h: "\<exists>u. x @ [0] = c # u" "\<exists>v. y @ [0] = d # v" using Cons.prems b by (auto split: if_splits)
    have n: "c = 0 \<longleftrightarrow> x = []" "d = 0 \<longleftrightarrow> y = []" using Cons.prems b by (auto split: if_splits)
    show ?thesis
    proof (cases "c = d")
      case True
      then have "x = [] \<and> y = []" using False n by auto
      then show ?thesis using e True by simp
    next
      case ne: False
      then have "sint c \<noteq> sint d" using sint_eq [of c d] by simp
      moreover have "x \<noteq> y" using h ne by auto
      moreover have "ord_class.lexordp (map sint (x @ [0])) (map sint (y @ [0])) \<longleftrightarrow> sint c < sint d"
      proof -
        obtain u v where uv: "x @ [0] = c # u" "y @ [0] = d # v" using h by blast
        show ?thesis unfolding uv using \<open>sint c \<noteq> sint d\<close> by auto
      qed
      ultimately show ?thesis using e by simp
    qed
  qed
qed simp

section \<open>Copying backwards\<close>

text \<open>What a copy of \<open>n\<close> bytes is to do.\<close>

definition copied :: "nat \<Rightarrow> nat \<Rightarrow> nat \<Rightarrow> memory \<Rightarrow> memory" where
  "copied d s n m = (\<lambda>a. if d \<le> a \<and> a < d + n then m (s + (a - d)) else m a)"

lemma copied_none [simp]: "copied d s 0 m = m"
  by (auto simp: copied_def fun_eq_iff)

lemma memcpy_copied: "d \<le> s \<or> s + n \<le> d \<Longrightarrow> memcpy d s n m = copied d s n m"
proof (induction n arbitrary: d s m)
  case (Suc n)
  then have "memcpy d s (Suc n) m = copied (d + 1) (s + 1) n (m(d := m s))"
    using Suc.IH [of "d + 1" "s + 1" "m(d := m s)"] by (auto simp del: fun_upd_apply)
  also have "\<dots> = copied d s (Suc n) m"
  proof
    fix a
    show "copied (d + 1) (s + 1) n (m(d := m s)) a = copied d s (Suc n) m a"
      using Suc.prems by (cases "a = d") (auto simp: copied_def Suc_diff_Suc)
  qed
  finally show ?case .
qed simp

text \<open>The upper part of a block first, then the lower part, for a move to higher addresses.\<close>

lemma copied_split:
  assumes "s \<le> d"
  shows "copied d s k (copied (d + k) (s + k) l m) = copied d s (k + l) m"
  using assms by (auto simp: copied_def fun_eq_iff)

lemma byte_bwd: "s \<le> d \<Longrightarrow> BYTE_COPY_BWD (d + n) (s + n) n m = copied d s n m"
proof (induction n arbitrary: m)
  case (Suc n)
  have "m(d + n := m (s + n)) = copied (d + n) (s + n) 1 m"
    by (auto simp: copied_def fun_eq_iff)
  then have "BYTE_COPY_BWD (d + Suc n) (s + Suc n) (Suc n) m = copied d s n (copied (d + n) (s + n) 1 m)"
    using Suc by simp
  then show ?case using copied_split [OF Suc.prems, of n 1 m] by simp
qed simp

lemma word_once:
  "m(d + k := m (s + k), d + k + 1 := m (s + k + 1), d + k + 2 := m (s + k + 2), d + k + 3 := m (s + k + 3)) =
    copied (d + k) (s + k) 4 m"
proof
  fix a
  consider "a < d + k" | "a = d + k" | "a = d + k + 1" | "a = d + k + 2" | "a = d + k + 3" | "a \<ge> d + k + 4" by linarith
  then show "(m(d + k := m (s + k), d + k + 1 := m (s + k + 1), d + k + 2 := m (s + k + 2), d + k + 3 := m (s + k + 3))) a =
    copied (d + k) (s + k) 4 m a" by cases (auto simp: copied_def)
qed

lemma word_bwd: "s \<le> d \<Longrightarrow> WORD_COPY_BWD (d + 4 * k) (s + 4 * k) k m = copied d s (4 * k) m"
proof (induction k arbitrary: m)
  case (Suc k)
  have i: "d + 4 * Suc k - 4 = d + 4 * k" "d + 4 * Suc k - 3 = d + 4 * k + 1" "d + 4 * Suc k - 2 = d + 4 * k + 2"
    "d + 4 * Suc k - 1 = d + 4 * k + 3" "s + 4 * Suc k - 4 = s + 4 * k" "s + 4 * Suc k - 3 = s + 4 * k + 1"
    "s + 4 * Suc k - 2 = s + 4 * k + 2" "s + 4 * Suc k - 1 = s + 4 * k + 3" by auto
  have "WORD_COPY_BWD (d + 4 * Suc k) (s + 4 * Suc k) (Suc k) m =
      WORD_COPY_BWD (d + 4 * k) (s + 4 * k) k (copied (d + 4 * k) (s + 4 * k) 4 m)"
    unfolding WORD_COPY_BWD.simps i word_once ..
  also have "\<dots> = copied d s (4 * k + 4) m"
    unfolding Suc.IH [OF Suc.prems] by (rule copied_split [OF Suc.prems])
  finally show ?case by (simp add: add.commute)
qed simp

lemma aligned_bwd:
  assumes "s \<le> d" "a \<le> n"
  shows "BYTE_COPY_BWD (d + n - a - 4 * ((n - a) div 4)) (s + n - a - 4 * ((n - a) div 4)) ((n - a) mod 4)
      (WORD_COPY_BWD (d + n - a) (s + n - a) ((n - a) div 4) (BYTE_COPY_BWD (d + n) (s + n) a m)) = copied d s n m"
proof -
  define w r where "w = (n - a) div 4" "r = (n - a) mod 4"
  then have n: "n - a = r + 4 * w" by simp
  have e: "d + n - a = d + r + 4 * w" "s + n - a = s + r + 4 * w"
    "d + n = d + (n - a) + a" "s + n = s + (n - a) + a" using n assms(2) by linarith+
  have 1: "BYTE_COPY_BWD (d + n) (s + n) a m = copied (d + (n - a)) (s + (n - a)) a m"
    unfolding e(3,4) using byte_bwd [of "s + (n - a)" "d + (n - a)" a] assms(1) by simp
  have 2: "WORD_COPY_BWD (d + n - a) (s + n - a) w x = copied (d + r) (s + r) (4 * w) x" for x
    unfolding e(1,2) using word_bwd [of "s + r" "d + r" w] assms(1) by simp
  have 3: "d + n - a - 4 * w = d + r" "s + n - a - 4 * w = s + r" using e by linarith+
  show ?thesis
    unfolding w_r_def [symmetric] 3 2 1
    using byte_bwd [OF assms(1)] copied_split [OF assms(1), of "n - a" a m] copied_split [OF assms(1), of r "4 * w"] n
      le_add_diff_inverse2 [OF assms(2)]
    by simp
qed

lemma forward_test:
  assumes "dst < 2 ^ 64" "src < 2 ^ 64" "src + n \<le> 2 ^ 64"
  shows "unat (of_nat dst - of_nat src :: u64) \<ge> n \<longleftrightarrow> dst < src \<or> src + n \<le> dst"
proof (cases "src \<le> dst")
  case True
  then have "(of_nat dst - of_nat src :: u64) = of_nat (dst - src)" by (simp add: of_nat_diff)
  moreover have "unat (of_nat (dst - src) :: u64) = dst - src"
    using assms(1) by (simp add: unat_of_nat take_bit_nat_eq_self)
  ultimately show ?thesis using True by auto
next
  case False
  then have "(of_nat dst - of_nat src :: u64) = - of_nat (src - dst)" by (simp add: of_nat_diff)
  also have "\<dots> = of_nat (2 ^ 64 - (src - dst))"
  proof -
    have "(of_nat (2 ^ 64 - (src - dst)) :: u64) = of_nat (2 ^ 64) - of_nat (src - dst)"
      using assms(2) by (intro of_nat_diff) simp
    then show ?thesis by simp
  qed
  finally have "unat (of_nat dst - of_nat src :: u64) = take_bit 64 (2 ^ 64 - (src - dst))"
    by (simp only: unat_of_nat) (simp add: take_bit_eq_mod)
  moreover have "2 ^ 64 - (src - dst) < (2 ^ 64 :: nat)" using False by simp
  ultimately have "unat (of_nat dst - of_nat src :: u64) = 2 ^ 64 - (src - dst)"
    by (simp only: take_bit_nat_eq_self)
  then show ?thesis using False assms(3) by auto
qed

section \<open>The number loops\<close>

definition digits_value :: "nat list \<Rightarrow> nat" where
  "digits_value ds = foldl (\<lambda>n d. 10 * n + d) 0 ds"

definition digit_char :: "nat \<Rightarrow> u8" where
  "digit_char d = 48 + of_nat d"

definition is_decimal :: "u8 \<Rightarrow> bool" where
  "is_decimal c \<longleftrightarrow> sint c \<ge> 48 \<and> sint c \<le> 57"

lemma digit_cases: "d \<le> 9 \<longleftrightarrow> d \<in> {0, 1, 2, 3, 4, 5, 6, 7, 8, 9 :: nat}"
  by auto

lemma digit_char_simps:
  assumes "d \<le> 9"
  shows "is_decimal (digit_char d)" "ucast (digit_char d) - 48 = (of_nat d :: u32)"
  using assms unfolding digit_cases by (auto simp: is_decimal_def digit_char_def)

lemma atoi_loop_digits:
  assumes "\<forall>d \<in> set ds. d \<le> 9" "\<not> is_decimal c"
  shows "atoi_loop (map digit_char ds @ c # r) (of_nat v) k =
    Inr (of_nat (foldl (\<lambda>n d. 10 * n + d) v ds), k + length ds)"
  using assms
proof (induction ds arbitrary: v k)
  case (Cons d ds)
  then have "atoi_loop (map digit_char (d # ds) @ c # r) (of_nat v) k =
      atoi_loop (map digit_char ds @ c # r) (of_nat (10 * v + d)) (k + 1)"
    using digit_char_simps [of d] by (simp add: is_decimal_def mult.commute)
  also have "\<dots> = Inr (of_nat (foldl (\<lambda>n d. 10 * n + d) (10 * v + d) ds), k + 1 + length ds)"
    using Cons by (intro Cons.IH) auto
  finally show ?case by simp
qed (auto simp: is_decimal_def)

section \<open>Properties\<close>

text \<open>
  C26. \<open>memmove\<close> moves: for any two blocks that lie in the address space, however they overlap, the
  destination ends up with the bytes the source had before, and nothing else changes. The proof
  covers the forward copy, the short backward copy and the aligned backward copy by words.
\<close>
theorem memmove_moves:
  assumes "dst < 2 ^ 64" "src < 2 ^ 64" "src + n \<le> 2 ^ 64"
  shows "memmove dst src n m = (\<lambda>a. if dst \<le> a \<and> a < dst + n then m (src + (a - dst)) else m a)"
proof (cases "dst < src \<or> src + n \<le> dst")
  case True
  then show ?thesis
    using forward_test [OF assms] memcpy_copied [of dst src n m] by (auto simp: memmove_def copied_def)
next
  case False
  then have "src \<le> dst" by simp
  moreover have "(dst + n) mod OPSIZ \<le> n" if "n \<ge> OP_T_THRES"
    using that mod_less_divisor [of OPSIZ "dst + n"] by (simp add: OPSIZ_def OP_T_THRES_def)
  ultimately have "memmove dst src n m = copied dst src n m"
    using forward_test [OF assms] False byte_bwd [of src dst n m] aligned_bwd [of src dst "(dst + n) mod OPSIZ" n m]
    by (auto simp: memmove_def Let_def)
  then show ?thesis by (simp add: copied_def)
qed

theorem memmove_moves_witness:
  "(101 :: nat) < 2 ^ 64 \<and> memmove 101 100 20 (\<lambda>a. of_nat a) 105 = 104"
  using memmove_moves [of 101 100 20 "\<lambda>a. of_nat a"] by simp

text \<open>
  \<open>strcmp\<close> decides equality of strings and orders them: on two terminated strings it returns,
  with zero exactly when the strings are equal and a negative value exactly when the first,
  terminator included, is lexicographically smaller as signed characters.
\<close>
lemma strcmp_orders:
  assumes "cstr a = Some x" "cstr b = Some y"
  shows "\<exists>r. strcmp a b = Inr r \<and> (r = 0 \<longleftrightarrow> x = y) \<and>
    (r < 0 \<longleftrightarrow> ord_class.lexordp (map sint (x @ [0])) (map sint (y @ [0])))"
  by (rule strcmp_total [OF assms])

lemma strcmp_orders_witness:
  "\<exists>r. strcmp [97, 98, 0] [97, 99, 0] = Inr r \<and> r < 0"
  using strcmp_orders [of "[97, 98, 0]" "[97, 98]" "[97, 99, 0]" "[97, 99]"] by auto

text \<open>
  \<open>strtoi\<close> reads back a decimal numeral: on the digits of a number that fits an \<open>int\<close>, followed
  by any other character, it returns that number and stops at that character; \<open>atoi\<close> returns the
  same number.
\<close>
lemma strtoi_reads_back:
  assumes "\<forall>d \<in> set ds. d \<le> 9" "\<not> is_decimal c" "digits_value ds < 2 ^ 31"
  shows "\<exists>w. strtoi (map digit_char ds @ c # r) = Inr (w, length ds) \<and> atoi (map digit_char ds @ c # r) = Inr w \<and>
    sint w = int (digits_value ds)"
proof -
  have "sint (of_nat (digits_value ds) :: u32) = int (digits_value ds)"
    using assms(3) by (simp add: signed_of_nat signed_take_bit_int_eq_self_iff)
  then show ?thesis
    using atoi_loop_digits [OF assms(1,2), of r 0 0] by (simp add: strtoi_def atoi_def digits_value_def)
qed

lemma strtoi_reads_back_witness:
  "\<exists>w. strtoi (map digit_char [4, 0, 7] @ 32 # [0]) = Inr (w, 3) \<and> sint w = 407"
  using strtoi_reads_back [of "[4, 0, 7]" 32 "[0]"] by (auto simp: is_decimal_def digits_value_def)

text \<open>
  \<open>strncat\<close> does not limit: with any limit other than zero it appends the whole second string,
  exactly as \<open>strcat\<close> does, because its loop never advances the counter it compares with the limit.
\<close>
lemma strncat_ignores_limit:
  assumes "0 < limit"
  shows "strncat s1 s2 limit = strcat s1 s2"
proof -
  have "strncat_loop 0 limit s n d = copy_at n d s" for n d s
    using assms
  proof (induction s arbitrary: n d)
    case (Cons c s)
    then show ?case by (cases "put n c d") auto
  qed simp
  then show ?thesis by (simp add: strncat_def strcat_def)
qed

lemma strncat_ignores_limit_witness:
  "strncat [97, 0, 0, 0] [98, 99, 0] 1 = Inr [97, 98, 99, 0]"
  using strncat_ignores_limit [of 1 "[97, 0, 0, 0]" "[98, 99, 0]"] by (simp add: strcat_def put_def)

lemma strcspn_loop_empty: "strcspn_loop s [] k = None"
proof -
  have "chars \<noteq> []" if "strcspn_loop s chars k = Some y" for s chars k y
    by (rule strcspn_loop.raw_induct [OF _ that, of "\<lambda>s chars k y. chars \<noteq> []"])
      (auto simp: matches_at_def split: if_splits sum.splits)
  then show ?thesis by (cases "strcspn_loop s [] k") auto
qed

lemma strcspn_loop_overrun:
  assumes "chars \<noteq> []" "set s \<inter> set chars = {}"
  shows "strcspn_loop s chars k = Some (Inl OutOfBounds)"
proof (induction "length s - k" arbitrary: k)
  case 0
  then show ?case using assms(1) by (subst strcspn_loop.simps) (simp add: matches_at_def)
next
  case (Suc n)
  then have "k < length s" by simp
  then have "s ! k \<notin> set chars" using assms(2) by (meson disjoint_iff nth_mem)
  then have "matches_at s k chars = Inr False" using assms(1) \<open>k < length s\<close> by (simp add: matches_at_def)
  then show ?case using Suc.hyps(1) [of "k + 1"] Suc.hyps(2) by (subst strcspn_loop.simps) simp
qed

text \<open>
  \<open>strcspn\<close> does not stop at the end of its string: if none of the rejected characters occurs in
  the object the string lies in, it reads past the object, and if there are no rejected characters
  it never returns.
\<close>
lemma strcspn_overruns:
  assumes "cstr reject = Some x" "set s \<inter> set x = {}"
  shows "strcspn s reject = (if x = [] then None else Some (Inl OutOfBounds))"
proof -
  obtain r where "reject = x @ 0 # r" using assms(1) by (auto simp: cstr_Some)
  then have "strcspn s reject = strcspn_loop s x 0" using assms(1) by (simp add: strcspn_def strlen_cstr)
  then show ?thesis using strcspn_loop_empty strcspn_loop_overrun [OF _ assms(2)] by simp
qed

lemma strcspn_overruns_witness:
  "strcspn [97, 98, 0] [44, 0] = Some (Inl OutOfBounds)"
  using strcspn_overruns [of "[44, 0]" "[44]" "[97, 98, 0]"] by simp

end
