(* ===== verification/Group.thy ===== *)
theory Group
  imports Barrier List_Head Strings
begin

text \<open>
  Thread groups (\<open>src/nautilus/group.c\<close>): the list of groups, creating, finding and deleting a
  group, joining and leaving it, its state pointer and its leader. The barrier of a group is the
  structure of the theory of barriers. A linked list is the list it stands for, which the
  refinement of the list header justifies; memory comes from an allocator whose answer (0 for
  none) is an argument.
\<close>

section \<open>Groups\<close>

definition MAX_GROUP_NAME :: nat where
  "MAX_GROUP_NAME = 32"

record nk_thread_group =
  group_name :: "u8 list"
  group_id :: u64
  group_leader :: u32
  group_size :: u64
  next_id :: u64
  group_members :: "nat \<Rightarrow> ptr list"
  group_barrier :: nk_barrier
  group_state_ptr :: ptr

text \<open>
  The live groups and members, and the list of all groups. A member records its thread. The
  barrier's counters are 32 bits wide and the group's 64.
\<close>

record group_sys =
  g_heap :: "nk_thread_group heap"
  member_heap :: "ptr heap"
  group_list :: "ptr list"
  num_groups :: u64

definition upd_group :: "ptr \<Rightarrow> nk_thread_group \<Rightarrow> group_sys \<Rightarrow> group_sys" where
  "upd_group g G S = S\<lparr>g_heap := (g_heap S)(g := Some G)\<rparr>"

definition thread_group_list_init :: "group_sys \<Rightarrow> group_sys" where
  "thread_group_list_init S = S\<lparr>num_groups := 0, group_list := []\<rparr>"

definition thread_group_list_deinit :: "group_sys \<Rightarrow> int" where
  "thread_group_list_deinit S = (if group_list S \<noteq> [] then -1 else 0)"

definition nk_thread_group_init :: "group_sys \<Rightarrow> int \<times> group_sys" where
  "nk_thread_group_init S = (0, thread_group_list_init S)"

definition thread_group_member_create :: "ptr \<Rightarrow> ptr \<Rightarrow> group_sys \<Rightarrow> ptr \<times> group_sys" where
  "thread_group_member_create mem cur S =
     (if mem = NULL then (NULL, S) else (mem, S\<lparr>member_heap := (member_heap S)(mem := Some cur)\<rparr>))"

definition thread_group_get_next_group_id :: "group_sys \<Rightarrow> u64 result" where
  "thread_group_get_next_group_id S =
     (case group_list S of [] \<Rightarrow> Inr 0 | g # gs \<Rightarrow> bindr (load (g_heap S) g) (\<lambda>G. Inr (group_id G + 1)))"

definition zero_group :: nk_thread_group where
  "zero_group = \<lparr>group_name = replicate MAX_GROUP_NAME 0, group_id = 0, group_leader = 0, group_size = 0, next_id = 0,
     group_members = (\<lambda>_. []), group_barrier = zero_barrier, group_state_ptr = NULL\<rparr>"

text \<open>The new group is put on the list before it gets its number.\<close>

definition nk_thread_group_create :: "ptr \<Rightarrow> u8 list \<Rightarrow> group_sys \<Rightarrow> (ptr \<times> group_sys) result" where
  "nk_thread_group_create mem name S =
     (if mem = NULL then Inr (NULL, S)
      else bindr (strncpy (group_name zero_group) name MAX_GROUP_NAME) (\<lambda>nm.
           let G = zero_group\<lparr>group_leader := -1, group_name := nm\<rparr>;
               S1 = upd_group mem G (S\<lparr>group_list := mem # group_list S\<rparr>)
           in bindr (thread_group_get_next_group_id S1) (\<lambda>i.
              Inr (mem, upd_group mem (G\<lparr>group_id := i, group_barrier := thread_group_barrier_init\<rparr>) S1))))"

definition nk_thread_group_attach_state :: "ptr \<Rightarrow> nk_thread_group \<Rightarrow> int \<times> nk_thread_group" where
  "nk_thread_group_attach_state st G = (0, G\<lparr>group_state_ptr := st\<rparr>)"

definition nk_thread_group_detach_state :: "nk_thread_group \<Rightarrow> ptr \<times> nk_thread_group" where
  "nk_thread_group_detach_state G = (NULL, G\<lparr>group_state_ptr := NULL\<rparr>)"

definition nk_thread_group_get_state :: "nk_thread_group option \<Rightarrow> ptr" where
  "nk_thread_group_get_state g = (case g of None \<Rightarrow> NULL | Some G \<Rightarrow> group_state_ptr G)"

fun find_in :: "nk_thread_group heap \<Rightarrow> u8 list \<Rightarrow> ptr list \<Rightarrow> ptr result" where
  "find_in h name [] = Inr NULL"
| "find_in h name (g # gs) =
     bindr (load h g) (\<lambda>G. bindr (strcmp (group_name G) name) (\<lambda>r. if r = 0 then Inr g else find_in h name gs))"

definition nk_thread_group_find :: "u8 list \<Rightarrow> group_sys \<Rightarrow> ptr result" where
  "nk_thread_group_find name S = find_in (g_heap S) name (group_list S)"

text \<open>The current thread \<open>cur\<close> joins on its CPU \<open>me\<close>; the result is its number in the group, cut to an \<open>int\<close>.\<close>

definition nk_thread_group_join :: "ptr \<Rightarrow> ptr \<Rightarrow> nat \<Rightarrow> ptr \<Rightarrow> group_sys \<Rightarrow> (int \<times> group_sys) result" where
  "nk_thread_group_join mem cur me g S =
     (let (m, S1) = thread_group_member_create mem cur S
      in if m = NULL then Inr (-1, S1)
         else bindr (load (g_heap S1) g) (\<lambda>G.
              Inr (sint (ucast (next_id G) :: u32),
                upd_group g (G\<lparr>group_barrier := thread_group_barrier_join (group_barrier G),
                  group_size := group_size G + 1, next_id := next_id G + 1,
                  group_members := (group_members G)(me := m # group_members G me)\<rparr>) S1)))"

text \<open>
  The member is unlinked and stays allocated: what is passed to \<open>free\<close> is the address of the local
  variable, in which no allocated block starts.
\<close>

definition nk_thread_group_leave :: "ptr \<Rightarrow> nat \<Rightarrow> ptr \<Rightarrow> group_sys \<Rightarrow> (int \<times> group_sys) result" where
  "nk_thread_group_leave cur me g S =
     bindr (load (g_heap S) g) (\<lambda>G.
       let left = G\<lparr>group_barrier := snd (thread_group_barrier_leave (group_barrier G))\<rparr>
       in case find (\<lambda>m. member_heap S m = Some cur) (group_members G me) of
            None \<Rightarrow> Inr (-1, upd_group g left S)
          | Some m \<Rightarrow>
              Inr (0, upd_group g (left\<lparr>group_members := (group_members G)(me := remove1 m (group_members G me)),
                group_size := group_size G - 1\<rparr>) S))"

definition nk_thread_group_delete :: "ptr \<Rightarrow> group_sys \<Rightarrow> (int \<times> group_sys) result" where
  "nk_thread_group_delete g S =
     bindr (load (g_heap S) g) (\<lambda>G.
       if group_size G \<noteq> 0 then Inr (-1, S)
       else Inr (0, S\<lparr>group_list := remove1 g (group_list S), g_heap := (g_heap S)(g := None)\<rparr>))"

section \<open>Leaders\<close>

text \<open>The leader is an \<open>int\<close> and a thread's number an \<open>unsigned long\<close>.\<close>

definition nk_thread_group_election :: "u64 \<Rightarrow> nk_thread_group \<Rightarrow> int \<times> nk_thread_group" where
  "nk_thread_group_election tid G =
     (if group_leader G = -1 then (1, G\<lparr>group_leader := ucast tid\<rparr>) else (0, G))"

definition nk_thread_group_reset_leader :: "nk_thread_group \<Rightarrow> int \<times> nk_thread_group" where
  "nk_thread_group_reset_leader G = (0, G\<lparr>group_leader := -1\<rparr>)"

definition nk_thread_group_check_leader :: "u64 \<Rightarrow> nk_thread_group \<Rightarrow> int" where
  "nk_thread_group_check_leader tid G = (if (scast (group_leader G) :: u64) = tid then 1 else 0)"

definition nk_thread_group_get_size :: "nk_thread_group \<Rightarrow> u64" where
  "nk_thread_group_get_size G = group_size G"

text \<open>The answers the threads get when they call the election in some order.\<close>

fun elections :: "u64 list \<Rightarrow> nk_thread_group \<Rightarrow> int list \<times> nk_thread_group" where
  "elections [] G = ([], G)"
| "elections (t # us) G = (let (r, G1) = nk_thread_group_election t G; (rs, G2) = elections us G1 in (r # rs, G2))"

text \<open>A small thread number survives the way through an \<open>int\<close>.\<close>

lemma sint_ucast_small:
  assumes "unat (t :: u64) < 2 ^ 31"
  shows "sint (ucast t :: u32) = int (unat t)"
proof -
  have l: "LENGTH(32) - 1 = 31" by simp
  have "sint (ucast t :: u32) = sint (word_of_int (uint t) :: u32)" by (simp only: ucast_eq)
  also have "\<dots> = signed_take_bit 31 (uint t)" unfolding sint_sbintrunc' l ..
  also have "\<dots> = uint t"
  proof (rule signed_take_bit_int_eq_self)
    show "uint t < 2 ^ 31" using assms unfolding unat_eq_nat_uint nat_less_iff [OF uint_ge_0] by simp
    show "- (2 ^ 31) \<le> uint t" using order_trans [OF _ uint_ge_0 [of t], of "- (2 ^ 31)"] by simp
  qed
  finally show ?thesis by (simp only: uint_nat)
qed

lemma scast_ucast_small:
  assumes "unat (t :: u64) < 2 ^ 31"
  shows "(scast (ucast t :: u32) :: u64) = t"
  unfolding scast_eq sint_ucast_small [OF assms] by simp
section \<open>Names\<close>

lemma strncpy_at_fits:
  "\<lbrakk>0 \<notin> set x; length x < limit; i + length x < length d\<rbrakk> \<Longrightarrow>
    strncpy_at i d (x @ 0 # r) limit = Inr (take i d @ x @ 0 # drop (i + length x + 1) d)"
proof (induction x arbitrary: i d limit)
  case Nil
  then show ?case by (simp add: put_def upd_conv_take_nth_drop)
next
  case (Cons c x)
  then have "strncpy_at i d ((c # x) @ 0 # r) limit = strncpy_at (i + 1) (d[i := c]) (x @ 0 # r) (limit - 1)"
    by (simp add: put_def)
  also have "\<dots> = Inr (take (i + 1) (d[i := c]) @ x @ 0 # drop (i + 1 + length x + 1) (d[i := c]))"
    using Cons.prems by (intro Cons.IH) auto
  finally show ?case using Cons.prems by (simp add: take_Suc_conv_app_nth)
qed

text \<open>The name of every listed group is terminated.\<close>

definition names_ok :: "group_sys \<Rightarrow> bool" where
  "names_ok S \<longleftrightarrow> (\<forall>g \<in> set (group_list S). g \<noteq> NULL \<and> (\<exists>G x. g_heap S g = Some G \<and> cstr (group_name G) = Some x))"

lemma create_effect:
  assumes "mem \<noteq> NULL" "0 \<notin> set x" "length x < MAX_GROUP_NAME"
  shows "\<exists>G. nk_thread_group_create mem (x @ 0 # r) S =
      Inr (mem, upd_group mem G (S\<lparr>group_list := mem # group_list S\<rparr>)) \<and>
      cstr (group_name G) = Some x \<and> group_id G = 1 \<and> group_leader G = -1 \<and> group_size G = 0"
proof -
  have "strncpy (group_name zero_group) (x @ 0 # r) MAX_GROUP_NAME =
      Inr (x @ 0 # drop (length x + 1) (group_name zero_group))"
    using strncpy_at_fits [of x MAX_GROUP_NAME 0 "group_name zero_group" r] assms by (simp add: strncpy_def zero_group_def)
  then show ?thesis
    using assms cstr_append [of x]
    by (auto simp: nk_thread_group_create_def thread_group_get_next_group_id_def upd_group_def Let_def
        zero_group_def)
qed

section \<open>Membership\<close>

definition member_count :: "nat \<Rightarrow> (nat \<Rightarrow> ptr list) \<Rightarrow> nat" where
  "member_count n ms = (\<Sum>i < n. length (ms i))"

text \<open>
  The size of the group and the participants its barrier waits for are the members on the
  machine's \<open>n\<close> CPUs, when no thread is in the barrier.
\<close>

definition group_inv :: "nat \<Rightarrow> nk_thread_group \<Rightarrow> bool" where
  "group_inv n G \<longleftrightarrow> group_size G = of_nat (member_count n (group_members G)) \<and> init_count (group_barrier G) = of_nat (member_count n (group_members G)) \<and>
     remaining (group_barrier G) = of_nat (member_count n (group_members G))"

lemma member_count_upd:
  assumes "me < n"
  shows "member_count n (ms(me := xs)) + length (ms me) = member_count n ms + length xs"
proof -
  have "(\<Sum>i < n. length ((ms(me := xs)) i)) = length xs + (\<Sum>i \<in> {..<n} - {me}. length ((ms(me := xs)) i))"
    using assms by (subst sum.remove [of _ me]) auto
  also have "(\<Sum>i \<in> {..<n} - {me}. length ((ms(me := xs)) i)) = (\<Sum>i \<in> {..<n} - {me}. length (ms i))"
    by (rule sum.cong) auto
  finally show ?thesis
    using assms sum.remove [of "{..<n}" me "\<lambda>i. length (ms i)"] by (simp add: member_count_def)
qed

datatype group_op = Join ptr ptr nat | Leave ptr nat

fun group_call :: "ptr \<Rightarrow> group_op \<Rightarrow> group_sys \<Rightarrow> (int \<times> group_sys) result" where
  "group_call g (Join mem cur me) S = nk_thread_group_join mem cur me g S"
| "group_call g (Leave cur me) S = nk_thread_group_leave cur me g S"

fun op_cpu :: "group_op \<Rightarrow> nat" where
  "op_cpu (Join mem cur me) = me"
| "op_cpu (Leave cur me) = me"

text \<open>A sequence of calls that all succeed.\<close>

fun group_calls :: "ptr \<Rightarrow> group_op list \<Rightarrow> group_sys \<Rightarrow> group_sys option" where
  "group_calls g [] S = Some S"
| "group_calls g (c # cs) S = (case group_call g c S of Inr (r, S1) \<Rightarrow> if r < 0 then None else group_calls g cs S1 | Inl f \<Rightarrow> None)"

lemma of_nat_pred: "j + 1 = k \<Longrightarrow> (of_nat k :: 'a :: len word) - 1 = of_nat j"
  by auto

lemma join_effect:
  assumes "g_heap S g = Some G" "nk_thread_group_join mem cur me g S = Inr (r, S')" "0 \<le> r"
  shows "g_heap S' g = Some (G\<lparr>group_barrier := thread_group_barrier_join (group_barrier G),
    group_size := group_size G + 1, next_id := next_id G + 1,
    group_members := (group_members G)(me := mem # group_members G me)\<rparr>)"
proof -
  have "mem \<noteq> NULL"
  proof
    assume "mem = NULL"
    then show False using assms(2,3) by (simp add: nk_thread_group_join_def thread_group_member_create_def)
  qed
  moreover have "g \<noteq> NULL"
  proof
    assume "g = NULL"
    then show False using assms(2) \<open>mem \<noteq> NULL\<close> by (simp add: nk_thread_group_join_def thread_group_member_create_def)
  qed
  ultimately show ?thesis
    using assms(1,2) by (auto simp: nk_thread_group_join_def thread_group_member_create_def upd_group_def)
qed

lemma leave_effect:
  assumes "g_heap S g = Some G" "nk_thread_group_leave cur me g S = Inr (r, S')" "0 \<le> r"
  shows "\<exists>m \<in> set (group_members G me). g_heap S' g = Some (G\<lparr>group_barrier := snd (thread_group_barrier_leave (group_barrier G)),
    group_members := (group_members G)(me := remove1 m (group_members G me)), group_size := group_size G - 1\<rparr>)"
proof -
  have g: "g \<noteq> NULL"
  proof
    assume "g = NULL"
    then show False using assms(2) by (simp add: nk_thread_group_leave_def)
  qed
  show ?thesis
  proof (cases "find (\<lambda>m. member_heap S m = Some cur) (group_members G me)")
    case None
    then show ?thesis using assms g by (simp add: nk_thread_group_leave_def Let_def)
  next
    case (Some m)
    then have "m \<in> set (group_members G me)" by (metis find_Some_iff nth_mem)
    then show ?thesis using assms g Some by (auto simp: nk_thread_group_leave_def Let_def upd_group_def)
  qed
qed

lemma group_call_inv:
  assumes "g_heap S g = Some G" "group_inv n G" "group_call g c S = Inr (r, S')" "0 \<le> r" "op_cpu c < n"
  shows "\<exists>G'. g_heap S' g = Some G' \<and> group_inv n G'"
proof (cases c)
  case (Join mem cur me)
  then have "nk_thread_group_join mem cur me g S = Inr (r, S')" "me < n" using assms(3,5) by auto
  then show ?thesis
    using join_effect [OF assms(1) _ assms(4)] assms(2) member_count_upd [of me n "group_members G" "mem # group_members G me"]
    by (simp add: group_inv_def thread_group_barrier_join_def)
next
  case (Leave cur me)
  then have c: "nk_thread_group_leave cur me g S = Inr (r, S')" "me < n" using assms(3,5) by auto
  obtain m where m: "m \<in> set (group_members G me)"
      "g_heap S' g = Some (G\<lparr>group_barrier := snd (thread_group_barrier_leave (group_barrier G)),
        group_members := (group_members G)(me := remove1 m (group_members G me)), group_size := group_size G - 1\<rparr>)"
    using leave_effect [OF assms(1) c(1) assms(4)] by blast
  define ms' where "ms' = (group_members G)(me := remove1 m (group_members G me))"
  have "member_count n ms' + 1 = member_count n (group_members G)"
    using member_count_upd [OF c(2), of "group_members G" "remove1 m (group_members G me)"]
      length_pos_if_in_set [OF m(1)] length_remove1 [of m "group_members G me"]
    unfolding ms'_def if_P [OF m(1)] by linarith
  note p = of_nat_pred [OF this, where ?'a = 64] of_nat_pred [OF this, where ?'a = 32]
  show ?thesis
    using assms(2) m(2) p by (simp add: group_inv_def thread_group_barrier_leave_def Let_def ms'_def)
qed

section \<open>Properties\<close>

text \<open>
  A created group can be found: creating a group under a name of fewer than 32 characters
  succeeds, keeps all listed names terminated, and looking that name up then returns the new group.
\<close>
lemma group_find_created:
  assumes "mem \<noteq> NULL" "0 \<notin> set x" "length x < MAX_GROUP_NAME" "names_ok S"
  shows "\<exists>S'. nk_thread_group_create mem (x @ 0 # r) S = Inr (mem, S') \<and> names_ok S' \<and>
    nk_thread_group_find (x @ 0 # q) S' = Inr mem"
proof -
  obtain G where G: "nk_thread_group_create mem (x @ 0 # r) S = Inr (mem, upd_group mem G (S\<lparr>group_list := mem # group_list S\<rparr>))"
      "cstr (group_name G) = Some x" using create_effect [OF assms(1-3)] by blast
  obtain c where "strcmp (group_name G) (x @ 0 # q) = Inr c" "c = 0"
    using strcmp_total [OF G(2) cstr_append [OF assms(2)]] by auto
  then show ?thesis
    using G assms(1,4) by (auto simp: names_ok_def nk_thread_group_find_def upd_group_def)
qed

definition no_groups :: group_sys where
  "no_groups = \<lparr>g_heap = (\<lambda>_. None), member_heap = (\<lambda>_. None), group_list = [], num_groups = 0\<rparr>"

lemma group_find_created_witness:
  "\<exists>S'. nk_thread_group_create 64 [97, 98, 0] no_groups = Inr (64, S') \<and> nk_thread_group_find [97, 98, 0] S' = Inr 64"
  using group_find_created [of 64 "[97, 98]" no_groups "[]" "[]"]
  by (auto simp: MAX_GROUP_NAME_def names_ok_def no_groups_def)

text \<open>
  C37. An election has one winner: when distinct threads, with numbers that fit a nonnegative
  \<open>int\<close>, call the election of a group without a leader, the first one is told that it leads and
  the others that they do not, and afterwards exactly the first one passes the leader check.
\<close>
theorem election_one_winner:
  assumes "group_leader G = -1" "distinct (t # us)" "\<forall>u \<in> set (t # us). u < 2 ^ 31"
  shows "fst (elections (t # us) G) = 1 # replicate (length us) 0 \<and>
    (\<forall>u \<in> set (t # us). nk_thread_group_check_leader u (snd (elections (t # us) G)) = (if u = t then 1 else 0))"
proof -
  define w where "w = (ucast t :: u32)"
  have "unat t < 2 ^ 31" using assms(3) by (simp add: word_less_nat_alt)
  then have i: "sint w = int (unat t)" and s: "(scast w :: u64) = t"
    unfolding w_def by (rule sint_ucast_small, rule scast_ucast_small)
  have "w \<noteq> -1"
  proof
    assume "w = -1"
    then show False using i uint_ge_0 [of t] by simp
  qed
  then have "elections us G' = (replicate (length us) 0, G')" if "group_leader G' = w" for G' us
    using that by (induction us) (auto simp: nk_thread_group_election_def)
  then have "elections (t # us) G = (1 # replicate (length us) 0, G\<lparr>group_leader := w\<rparr>)"
    using assms(1) by (simp add: nk_thread_group_election_def w_def)
  then show ?thesis using s by (auto simp: nk_thread_group_check_leader_def)
qed

theorem election_one_winner_witness:
  "fst (elections [5, 3, 9] (zero_group\<lparr>group_leader := -1\<rparr>)) = [1, 0, 0]"
  using election_one_winner [of "zero_group\<lparr>group_leader := -1\<rparr>" 5 "[3, 9]"]
  by (simp add: word_less_nat_alt del: elections.simps)

text \<open>
  C38. Membership is consistent: from a consistent group, any sequence of successful joins and
  leaves on the machine's CPUs ends in one whose size, and the number of participants its
  barrier waits for, are the number of members on its lists.
\<close>
theorem group_membership_consistent:
  assumes "g_heap S g = Some G" "group_inv n G" "group_calls g cs S = Some S'" "\<forall>c \<in> set cs. op_cpu c < n"
  shows "\<exists>G'. g_heap S' g = Some G' \<and> group_inv n G'"
  using assms
proof (induction cs arbitrary: S G)
  case (Cons c cs)
  then obtain r S1 where c: "group_call g c S = Inr (r, S1)" "0 \<le> r" "group_calls g cs S1 = Some S'"
    by (cases "group_call g c S") (auto simp del: group_call.simps split: prod.splits if_splits)
  have "op_cpu c < n" using Cons.prems(4) by simp
  then obtain G1 where "g_heap S1 g = Some G1" "group_inv n G1"
    using group_call_inv [OF Cons.prems(1,2) c(1,2)] by blast
  then show ?case using Cons.IH [OF _ _ c(3)] Cons.prems(4) by (meson list.set_intros(2))
qed auto

theorem group_membership_consistent_witness:
  "\<exists>S' G'. group_calls 64 [Join 80 7 0, Join 96 8 1, Leave 7 0] (upd_group 64 (zero_group\<lparr>group_barrier := thread_group_barrier_init\<rparr>) no_groups) = Some S' \<and>
    g_heap S' 64 = Some G' \<and> group_inv 2 G'"
proof -
  let ?G = "zero_group\<lparr>group_barrier := thread_group_barrier_init\<rparr>"
  let ?S = "upd_group 64 ?G no_groups"
  have "\<not> Option.is_none (group_calls 64 [Join 80 7 0, Join 96 8 1, Leave 7 0] ?S)" by code_simp
  then obtain S' where S': "group_calls 64 [Join 80 7 0, Join 96 8 1, Leave 7 0] ?S = Some S'"
    by (cases "group_calls 64 [Join 80 7 0, Join 96 8 1, Leave 7 0] ?S") (simp_all del: group_calls.simps)
  have i: "group_inv 2 ?G" by (simp add: group_inv_def member_count_def zero_group_def thread_group_barrier_init_def zero_barrier_def)
  have g: "g_heap ?S 64 = Some ?G" by (simp add: upd_group_def)
  have "\<exists>G'. g_heap S' 64 = Some G' \<and> group_inv 2 G'"
    by (rule group_membership_consistent [OF g i S']) simp
  with S' show ?thesis by blast
qed

text \<open>
  A leave by a thread that is not a member fails and damages the group: the call returns -1
  with the size unchanged, but the barrier waits for one participant fewer than there are members.
\<close>
lemma failed_leave_shrinks_barrier:
  assumes "g \<noteq> NULL" "g_heap S g = Some G" "group_inv n G" "\<forall>m \<in> set (group_members G me). member_heap S m \<noteq> Some cur"
  shows "\<exists>S' G'. nk_thread_group_leave cur me g S = Inr (-1, S') \<and> g_heap S' g = Some G' \<and>
    group_size G' = of_nat (member_count n (group_members G')) \<and> init_count (group_barrier G') = of_nat (member_count n (group_members G')) - 1"
proof -
  have "find (\<lambda>m. member_heap S m = Some cur) (group_members G me) = None"
    using assms(4) by (simp add: find_None_iff)
  then have "nk_thread_group_leave cur me g S =
      Inr (-1, upd_group g (G\<lparr>group_barrier := snd (thread_group_barrier_leave (group_barrier G))\<rparr>) S)"
    using assms(1,2) by (simp add: nk_thread_group_leave_def Let_def)
  moreover have "init_count (snd (thread_group_barrier_leave (group_barrier G))) = init_count (group_barrier G) - 1"
    by (simp add: thread_group_barrier_leave_def Let_def)
  moreover have "g_heap (upd_group g X S) g = Some X" for X by (simp add: upd_group_def)
  ultimately show ?thesis
    using assms(3) unfolding group_inv_def
    by (intro exI [of _ "upd_group g (G\<lparr>group_barrier := snd (thread_group_barrier_leave (group_barrier G))\<rparr>) S"]
        exI [of _ "G\<lparr>group_barrier := snd (thread_group_barrier_leave (group_barrier G))\<rparr>"]) simp
qed

lemma failed_leave_shrinks_barrier_witness:
  "\<exists>S' G'. nk_thread_group_leave 7 0 64 (upd_group 64 zero_group no_groups) = Inr (-1, S') \<and>
    g_heap S' 64 = Some G' \<and> init_count (group_barrier G') = of_nat (member_count 1 (group_members G')) - 1"
  using failed_leave_shrinks_barrier [of 64 "upd_group 64 zero_group no_groups" zero_group 1 0 7]
  by (auto simp: upd_group_def group_inv_def member_count_def zero_group_def zero_barrier_def)

text \<open>
  Group numbers are not unique: a group is on the list of groups before its number is computed
  from the first group of that list, so every created group gets the number 1.
\<close>
lemma group_id_always_one:
  assumes "mem \<noteq> NULL" "0 \<notin> set x" "length x < MAX_GROUP_NAME"
  shows "\<exists>S' G. nk_thread_group_create mem (x @ 0 # r) S = Inr (mem, S') \<and> g_heap S' mem = Some G \<and> group_id G = 1"
  using create_effect [OF assms, of r S] by (auto simp: upd_group_def)

lemma group_id_always_one_witness:
  "\<exists>S' G. nk_thread_group_create 64 [97, 0] no_groups = Inr (64, S') \<and> g_heap S' 64 = Some G \<and> group_id G = 1"
  using group_id_always_one [of 64 "[97]" "[]" no_groups] by (simp add: MAX_GROUP_NAME_def)

end
