(* ===== verification/Group_Sched.thy ===== *)
theory Group_Sched
  imports Group Sched_Types
begin

text \<open>
  The group admission protocol (\<open>src/nautilus/group_sched.c\<close>): all threads of a group change
  their scheduling constraints together, or all go back. The code of one thread is a step function
  over the shared state, a step relation interleaves the threads, and the barrier between the
  phases is known by its contract, which the group barrier keeps.
\<close>

section \<open>State\<close>

record group_state =
  group_constraints :: nk_sched_constraints
  changing_fail :: u32
  roll_back_to_old_fail :: u32
  roll_back_to_default_fail :: u32
  changing_count :: u64

text \<open>All bytes zero: an aperiodic constraint with priority 0.\<close>

definition zero_group_state :: group_state where
  "zero_group_state = \<lparr>group_constraints = aperiodic_constraints 0, changing_fail = 0, roll_back_to_old_fail = 0,
     roll_back_to_default_fail = 0, changing_count = 0\<rparr>"

text \<open>\<open>1000000000 / NAUT_CONFIG_HZ\<close> with the default frequency of 10 Hz.\<close>

definition DEFAULT_PRIORITY :: u64 where
  "DEFAULT_PRIORITY = 1000000000 div 10"

definition roll_back_constraints :: nk_sched_constraints where
  "roll_back_constraints = aperiodic_constraints DEFAULT_PRIORITY"

definition group_sched_set_state :: "nk_thread_group \<Rightarrow> nk_sched_constraints \<Rightarrow> group_state \<Rightarrow> group_state" where
  "group_sched_set_state G c st =
     st\<lparr>group_constraints := c, changing_fail := 0, roll_back_to_old_fail := 0, roll_back_to_default_fail := 0,
       changing_count := nk_thread_group_get_size G\<rparr>"

definition group_sched_reset_state :: "group_state \<Rightarrow> group_state" where
  "group_sched_reset_state st =
     st\<lparr>group_constraints := aperiodic_constraints 0, changing_fail := 0, roll_back_to_old_fail := 0,
       roll_back_to_default_fail := 0, changing_count := 0\<rparr>"

definition nk_group_sched_init :: "int \<times> group_state" where
  "nk_group_sched_init = (0, zero_group_state)"

definition nk_group_sched_deinit :: "int \<times> group_state" where
  "nk_group_sched_deinit = (0, zero_group_state)"

text \<open>
  Where a thread is: entering, taking the lock and posting the constraints (the leader), in its
  k-th barrier, testing and changing, reporting its failure, testing again, rolling back to its old
  constraints, reporting that failure, testing that, rolling back to the default, leaving, and
  (the last one) resetting the state and releasing the lock.
\<close>

datatype gpc = GEntry | GLock | GSet | GBar nat | GTest | GChange | GFlag | GFail | GRoll | GRollFlag | GOld | GDefault
  | GDec | GReset | GUnlock | GDone | GPanic

text \<open>
  \<open>held t\<close> is the constraints thread \<open>t\<close> has, \<open>old t\<close> its local copy and \<open>result t\<close> its return
  value. The barrier of the group is \<open>barr\<close>.
\<close>

record 'b gsys =
  gst :: group_state
  glock :: bool
  grp :: nk_thread_group
  barr :: 'b
  gpc :: "nat \<Rightarrow> gpc"
  held :: "nat \<Rightarrow> nk_sched_constraints"
  old :: "nat \<Rightarrow> nk_sched_constraints"
  result :: "nat \<Rightarrow> int"

definition goto :: "nat \<Rightarrow> gpc \<Rightarrow> 'b gsys \<Rightarrow> 'b gsys" where
  "goto t p S = S\<lparr>gpc := (gpc S)(t := p)\<rparr>"

text \<open>
  A call of \<open>nk_sched_thread_change_constraints\<close>: \<open>rc\<close> is what it returns, and \<open>left\<close> the
  constraints a failed call leaves the thread with.
\<close>

definition attempt :: "nk_sched_constraints \<Rightarrow> int \<times> nk_sched_constraints \<Rightarrow> nat \<Rightarrow> gpc \<Rightarrow> gpc \<Rightarrow> 'b gsys \<Rightarrow> 'b gsys" where
  "attempt c out t good bad S =
     (case out of (rc, left) \<Rightarrow>
        if rc \<noteq> 0 then goto t bad (S\<lparr>held := (held S)(t := left)\<rparr>) else goto t good (S\<lparr>held := (held S)(t := c)\<rparr>))"

definition group_sched_roll_back_constraint :: "int \<times> nk_sched_constraints \<Rightarrow> nat \<Rightarrow> gpc \<Rightarrow> gpc \<Rightarrow> 'b gsys \<Rightarrow> 'b gsys" where
  "group_sched_roll_back_constraint out t good bad S = attempt roll_back_constraints out t good bad S"

definition finish_with :: "int \<Rightarrow> nat \<Rightarrow> 'b gsys \<Rightarrow> 'b gsys" where
  "finish_with r t S = goto t GDec (S\<lparr>result := (result S)(t := r)\<rparr>)"

definition after_barrier :: "nat \<Rightarrow> gpc" where
  "after_barrier k = (if k = 1 then GTest else if k = 2 then GFail else GOld)"

text \<open>
  The next access of thread \<open>t\<close>; \<open>None\<close> while it spins. \<open>wait\<close> and \<open>idle\<close> are the steps of the
  barrier and whether a thread is outside it, \<open>tnum\<close> the threads' numbers, \<open>new\<close> the constraints
  the leader passes, \<open>st\<close> the address of the shared state and \<open>out\<close> what a change meets.
\<close>

definition nk_group_sched_change_constraints_step ::
  "(nat \<Rightarrow> 'b \<Rightarrow> 'b option) \<Rightarrow> ('b \<Rightarrow> nat \<Rightarrow> bool) \<Rightarrow> (nat \<Rightarrow> u64) \<Rightarrow> nk_sched_constraints \<Rightarrow> ptr \<Rightarrow>
    int \<times> nk_sched_constraints \<Rightarrow> nat \<Rightarrow> 'b gsys \<Rightarrow> 'b gsys option" where
  "nk_group_sched_change_constraints_step wait idle tnum new st out t S =
     (let g = gst S
      in case gpc S t of
           GEntry \<Rightarrow>
             Some (goto t (if nk_thread_group_check_leader (tnum t) (grp S) = 1 then GLock else GBar 1)
               (S\<lparr>old := (old S)(t := held S t)\<rparr>))
         | GLock \<Rightarrow> if glock S then None else Some (goto t GSet (S\<lparr>glock := True\<rparr>))
         | GSet \<Rightarrow>
             Some (goto t (GBar 1) (S\<lparr>gst := group_sched_set_state (grp S) new g,
               grp := snd (nk_thread_group_attach_state st (grp S))\<rparr>))
         | GBar k \<Rightarrow>
             (case wait t (barr S) of
                None \<Rightarrow> None
              | Some b \<Rightarrow> Some (goto t (if idle b t then after_barrier k else GBar k) (S\<lparr>barr := b\<rparr>)))
         | GTest \<Rightarrow> Some (goto t (if changing_fail g = 0 then GChange else GBar 2) S)
         | GChange \<Rightarrow> Some (attempt (group_constraints g) out t (GBar 2) GFlag S)
         | GFlag \<Rightarrow> Some (goto t (GBar 2) (S\<lparr>gst := g\<lparr>changing_fail := cmpswap (changing_fail g) 0 1\<rparr>\<rparr>))
         | GFail \<Rightarrow> Some (if changing_fail g \<noteq> 0 then goto t GRoll S else finish_with 0 t S)
         | GRoll \<Rightarrow> Some (attempt (old S t) out t (GBar 3) GRollFlag S)
         | GRollFlag \<Rightarrow> Some (goto t (GBar 3) (S\<lparr>gst := g\<lparr>roll_back_to_old_fail := cmpswap (roll_back_to_old_fail g) 0 1\<rparr>\<rparr>))
         | GOld \<Rightarrow> Some (if roll_back_to_old_fail g \<noteq> 0 then goto t GDefault S else finish_with (-1) t S)
         | GDefault \<Rightarrow>
             Some (group_sched_roll_back_constraint out t GDec GPanic (S\<lparr>result := (result S)(t := -1)\<rparr>))
         | GDec \<Rightarrow>
             Some (goto t (if changing_count g - 1 = 0 then GReset else GDone) (S\<lparr>gst := g\<lparr>changing_count := changing_count g - 1\<rparr>\<rparr>))
         | GReset \<Rightarrow>
             Some (goto t GUnlock (S\<lparr>grp := snd (nk_thread_group_detach_state (grp S)), gst := group_sched_reset_state g\<rparr>))
         | GUnlock \<Rightarrow> Some (goto t GDone (S\<lparr>glock := False\<rparr>))
         | GDone \<Rightarrow> None
         | GPanic \<Rightarrow> None)"

text \<open>Any of \<open>n\<close> threads takes a step, with any outcome of a change it makes.\<close>

definition group_change_step ::
  "(nat \<Rightarrow> 'b \<Rightarrow> 'b option) \<Rightarrow> ('b \<Rightarrow> nat \<Rightarrow> bool) \<Rightarrow> (nat \<Rightarrow> u64) \<Rightarrow> nk_sched_constraints \<Rightarrow> ptr \<Rightarrow> nat \<Rightarrow>
    'b gsys \<Rightarrow> 'b gsys \<Rightarrow> bool" where
  "group_change_step wait idle tnum new st n S S' \<longleftrightarrow>
     (\<exists>t < n. \<exists>out. nk_group_sched_change_constraints_step wait idle tnum new st out t S = Some S')"

section \<open>What each thread knows\<close>

definition finishing :: "gpc \<Rightarrow> bool" where
  "finishing p \<longleftrightarrow> p = GDec \<or> p = GReset \<or> p = GUnlock \<or> p = GDone"

definition counted :: "gpc \<Rightarrow> bool" where
  "counted p \<longleftrightarrow> p = GReset \<or> p = GUnlock \<or> p = GDone"

definition entering :: "gpc \<Rightarrow> bool" where
  "entering p \<longleftrightarrow> p = GEntry \<or> p = GLock \<or> p = GSet"

definition in_barrier :: "gpc \<Rightarrow> bool" where
  "in_barrier p \<longleftrightarrow> (\<exists>k. p = GBar k)"

text \<open>The barriers a thread has passed, given where it is and its result.\<close>

definition barriers :: "gpc \<Rightarrow> int \<Rightarrow> nat" where
  "barriers p r =
     (case p of GEntry \<Rightarrow> 0 | GLock \<Rightarrow> 0 | GSet \<Rightarrow> 0 | GBar k \<Rightarrow> k - 1 | GTest \<Rightarrow> 1 | GChange \<Rightarrow> 1 | GFlag \<Rightarrow> 1
      | GFail \<Rightarrow> 2 | GRoll \<Rightarrow> 2 | GRollFlag \<Rightarrow> 2 | GOld \<Rightarrow> 3 | GDefault \<Rightarrow> 3 | GPanic \<Rightarrow> 3
      | _ \<Rightarrow> if r = 0 then 2 else 3)"

text \<open>
  What holds for a thread when the constraints \<open>new\<close> are posted, given the two failure flags: where
  it is, its result, its constraints, its copy and the constraints \<open>c0\<close> it came with.
\<close>

definition thread_ok :: "nk_sched_constraints \<Rightarrow> u32 \<Rightarrow> u32 \<Rightarrow> gpc \<Rightarrow> int \<Rightarrow> nk_sched_constraints \<Rightarrow> nk_sched_constraints \<Rightarrow>
    nk_sched_constraints \<Rightarrow> bool" where
  "thread_ok new cf rf p r c o' c0 \<longleftrightarrow>
     (if p = GEntry then c = c0 else o' = c0) \<and>
     (cf = 0 \<and> (p = GBar 2 \<or> p = GFail \<or> finishing p) \<longrightarrow> c = new) \<and>
     (p = GRoll \<or> p = GRollFlag \<or> p = GBar 3 \<or> p = GOld \<or> p = GDefault \<or> p = GPanic \<or> finishing p \<and> r \<noteq> 0 \<longrightarrow> cf = 1) \<and>
     (finishing p \<and> r = 0 \<longrightarrow> cf = 0) \<and>
     (rf = 0 \<and> (p = GBar 3 \<or> p = GOld \<or> finishing p \<and> r \<noteq> 0) \<longrightarrow> c = c0) \<and>
     (rf = 1 \<and> finishing p \<and> r \<noteq> 0 \<longrightarrow> c = roll_back_constraints) \<and>
     (p = GDefault \<or> p = GPanic \<longrightarrow> rf = 1) \<and>
     (finishing p \<longrightarrow> r = 0 \<or> r = -1)"

text \<open>All threads are done: all changed, or all kept what they had, or all have the default.\<close>

definition agreed :: "nat \<Rightarrow> nk_sched_constraints \<Rightarrow> (nat \<Rightarrow> nk_sched_constraints) \<Rightarrow> 'b gsys \<Rightarrow> bool" where
  "agreed n new c0 S \<longleftrightarrow>
     (\<forall>t < n. result S t = 0 \<and> held S t = new) \<or>
     (\<forall>t < n. result S t = -1 \<and> held S t = c0 t) \<or>
     (\<forall>t < n. result S t = -1 \<and> held S t = roll_back_constraints)"

text \<open>Before the leader has posted, while the threads change, and after the last one has reset the state.\<close>

definition gathering :: "nat \<Rightarrow> nat \<Rightarrow> (nat \<Rightarrow> nk_sched_constraints) \<Rightarrow> 'b gsys \<Rightarrow> bool" where
  "gathering n ld c0 S \<longleftrightarrow> entering (gpc S ld) \<and> (glock S \<longleftrightarrow> gpc S ld = GSet) \<and>
     (\<forall>t < n. (gpc S t = GEntry \<or> gpc S t = GBar 1 \<or> t = ld) \<and> (if gpc S t = GEntry then held S t = c0 t else old S t = c0 t))"

definition last_out :: "nat \<Rightarrow> 'b gsys \<Rightarrow> bool" where
  "last_out n S \<longleftrightarrow> (\<forall>t < n. gpc S t = GReset \<longrightarrow> (\<forall>u < n. u \<noteq> t \<longrightarrow> gpc S u = GDone))"

definition changing :: "nat \<Rightarrow> nat \<Rightarrow> nk_sched_constraints \<Rightarrow> (nat \<Rightarrow> nk_sched_constraints) \<Rightarrow> 'b gsys \<Rightarrow> bool" where
  "changing n ld new c0 S \<longleftrightarrow> \<not> entering (gpc S ld) \<and> glock S \<and> group_constraints (gst S) = new \<and>
     (changing_fail (gst S) = 0 \<or> changing_fail (gst S) = 1) \<and>
     (roll_back_to_old_fail (gst S) = 0 \<or> roll_back_to_old_fail (gst S) = 1) \<and>
     changing_count (gst S) = of_nat (n - card {t. t < n \<and> counted (gpc S t)}) \<and>
     (\<forall>t < n. gpc S t \<noteq> GUnlock \<and> (t \<noteq> ld \<longrightarrow> gpc S t \<noteq> GLock \<and> gpc S t \<noteq> GSet)) \<and>
     (\<exists>t < n. gpc S t \<noteq> GDone) \<and>
     last_out n S \<and>
     (\<forall>t < n. thread_ok new (changing_fail (gst S)) (roll_back_to_old_fail (gst S)) (gpc S t) (result S t) (held S t) (old S t) (c0 t))"

definition settled :: "nat \<Rightarrow> nk_sched_constraints \<Rightarrow> (nat \<Rightarrow> nk_sched_constraints) \<Rightarrow> 'b gsys \<Rightarrow> bool" where
  "settled n new c0 S \<longleftrightarrow> (\<forall>t < n. gpc S t = GDone \<or> gpc S t = GUnlock) \<and> (glock S \<longleftrightarrow> (\<exists>t < n. gpc S t = GUnlock)) \<and>
     (\<forall>t < n. \<forall>u < n. gpc S t = GUnlock \<and> gpc S u = GUnlock \<longrightarrow> t = u) \<and>
     gst S = group_sched_reset_state (gst S) \<and> agreed n new c0 S"

lemmas gs_simps = nk_group_sched_change_constraints_step_def goto_def attempt_def finish_with_def
  group_sched_roll_back_constraint_def Let_def

text \<open>A step changes only its own thread, and nothing that identifies the group and its leader.\<close>

lemma step_frame:
  assumes "nk_group_sched_change_constraints_step wait idle tnum new st out t S = Some S'"
  shows "u \<noteq> t \<Longrightarrow> gpc S' u = gpc S u \<and> result S' u = result S u \<and> held S' u = held S u \<and> old S' u = old S u"
    "group_leader (grp S') = group_leader (grp S)" "group_size (grp S') = group_size (grp S)"
  using assms
  by (auto simp: gs_simps nk_thread_group_attach_state_def nk_thread_group_detach_state_def
      split: gpc.splits if_splits option.splits prod.splits)

lemma changing_facts:
  assumes "changing n ld new c0 S"
  shows "\<not> entering (gpc S ld)" "glock S" "group_constraints (gst S) = new"
    "changing_fail (gst S) = 0 \<or> changing_fail (gst S) = 1" "roll_back_to_old_fail (gst S) = 0 \<or> roll_back_to_old_fail (gst S) = 1"
    "changing_count (gst S) = of_nat (n - card {t. t < n \<and> counted (gpc S t)})"
    "u < n \<Longrightarrow> thread_ok new (changing_fail (gst S)) (roll_back_to_old_fail (gst S)) (gpc S u) (result S u) (held S u) (old S u) (c0 u)"
    "u < n \<Longrightarrow> gpc S u \<noteq> GUnlock" "u < n \<Longrightarrow> u \<noteq> ld \<Longrightarrow> gpc S u \<noteq> GLock \<and> gpc S u \<noteq> GSet"
    "u < n \<Longrightarrow> v < n \<Longrightarrow> gpc S u = GReset \<Longrightarrow> v \<noteq> u \<Longrightarrow> gpc S v = GDone"
  using assms unfolding changing_def last_out_def by ((elim conjE, assumption) | (elim conjE, blast))+

text \<open>A step of thread \<open>t\<close> while the threads change that does not touch the count.\<close>

lemma changing_keep:
  assumes c: "changing n ld new c0 S" and t: "t < n"
    and fr: "\<And>u. u \<noteq> t \<Longrightarrow> gpc S' u = gpc S u"
    and same: "glock S' = glock S" "group_constraints (gst S') = group_constraints (gst S)"
      "changing_count (gst S') = changing_count (gst S)"
    and flags: "changing_fail (gst S') = 0 \<or> changing_fail (gst S') = 1"
      "roll_back_to_old_fail (gst S') = 0 \<or> roll_back_to_old_fail (gst S') = 1"
    and p: "\<not> counted (gpc S t)" "\<not> counted (gpc S' t)" "\<not> entering (gpc S' t)"
    and oks: "\<And>u. u < n \<Longrightarrow> thread_ok new (changing_fail (gst S')) (roll_back_to_old_fail (gst S')) (gpc S' u) (result S' u) (held S' u) (old S' u) (c0 u)"
  shows "changing n ld new c0 S'"
proof -
  have q: "gpc S' t \<noteq> GUnlock" "gpc S' t \<noteq> GDone" "gpc S' t \<noteq> GReset" "gpc S t \<noteq> GDone" "gpc S' t \<noteq> GLock" "gpc S' t \<noteq> GSet"
    using p by (auto simp: counted_def entering_def)
  have "counted (gpc S' u) = counted (gpc S u)" for u using fr [of u] p(1,2) by (cases "u = t") auto
  then have card: "changing_count (gst S') = of_nat (n - card {u. u < n \<and> counted (gpc S' u)})"
    using changing_facts(6) [OF c] same(3) by simp
  note other = changing_facts(8,9) [OF c]
  have places: "\<forall>u < n. gpc S' u \<noteq> GUnlock \<and> (u \<noteq> ld \<longrightarrow> gpc S' u \<noteq> GLock \<and> gpc S' u \<noteq> GSet)"
  proof (intro allI impI)
    fix u assume "u < n"
    then show "gpc S' u \<noteq> GUnlock \<and> (u \<noteq> ld \<longrightarrow> gpc S' u \<noteq> GLock \<and> gpc S' u \<noteq> GSet)"
      using fr [of u] q other [of u] by (cases "u = t") simp_all
  qed
  have "gpc S' u \<noteq> GReset" if "u < n" for u
    using fr [of u] q(3,4) changing_facts(10) [OF c that t] by (cases "u = t") auto
  then have reset: "last_out n S'" by (simp add: last_out_def)
  have e: "\<not> entering (gpc S' ld)" using changing_facts(1) [OF c] p(3) fr [of ld] by (cases "ld = t") auto
  have g: "glock S'" "group_constraints (gst S') = new" using changing_facts(2,3) [OF c] same(1,2) by simp_all
  have u: "\<exists>u < n. gpc S' u \<noteq> GDone" using t q(2) by blast
  have o: "\<forall>u < n. thread_ok new (changing_fail (gst S')) (roll_back_to_old_fail (gst S')) (gpc S' u) (result S' u) (held S' u) (old S' u) (c0 u)"
    using oks by blast
  show ?thesis
    unfolding changing_def by (intro conjI e g flags card places u reset o)
qed

lemma own_ok:
  assumes st: "nk_group_sched_change_constraints_step wait idle tnum new stp out t S = Some S'"
    and T: "thread_ok new (changing_fail (gst S)) (roll_back_to_old_fail (gst S)) (gpc S t) (result S t) (held S t) (old S t) c0"
    and c: "group_constraints (gst S) = new" "changing_fail (gst S) = 0 \<or> changing_fail (gst S) = 1"
      "roll_back_to_old_fail (gst S) = 0 \<or> roll_back_to_old_fail (gst S) = 1"
    and p: "gpc S t \<noteq> GLock" "gpc S t \<noteq> GSet" "gpc S t \<noteq> GDec" "gpc S t \<noteq> GReset" "gpc S t \<noteq> GFlag" "gpc S t \<noteq> GRollFlag"
      "gpc S t \<noteq> GUnlock"
    and k: "\<And>k. gpc S t = GBar k \<Longrightarrow> k = 1 \<or> k = 2 \<or> k = 3"
  shows "thread_ok new (changing_fail (gst S)) (roll_back_to_old_fail (gst S)) (gpc S' t) (result S' t) (held S' t) (old S' t) c0"
proof (cases "gpc S t")
  case (GBar k)
  then obtain b where "S' = goto t (if idle b t then after_barrier k else GBar k) (S\<lparr>barr := b\<rparr>)"
    using st by (auto simp: nk_group_sched_change_constraints_step_def split: option.splits)
  then show ?thesis using T k [OF GBar] GBar by (auto simp: thread_ok_def finishing_def after_barrier_def goto_def)
next
  case GChange
  then show ?thesis using T st c(1) by (cases out; cases "fst out = 0") (auto simp: gs_simps thread_ok_def finishing_def)
next
  case GRoll
  then show ?thesis using T st by (cases out; cases "fst out = 0") (auto simp: gs_simps thread_ok_def finishing_def)
next
  case GDefault
  then show ?thesis using T st by (cases out; cases "fst out = 0") (auto simp: gs_simps thread_ok_def finishing_def)
next
  case GFail
  then show ?thesis using T st c(2) by (cases "changing_fail (gst S) = 0") (auto simp: gs_simps thread_ok_def finishing_def)
next
  case GOld
  then show ?thesis using T st c(3) by (cases "roll_back_to_old_fail (gst S) = 0") (auto simp: gs_simps thread_ok_def finishing_def)
next
  case GTest
  then show ?thesis using T st c(2) by (cases "changing_fail (gst S) = 0") (auto simp: gs_simps thread_ok_def finishing_def)
next
  case GEntry
  then show ?thesis using T st by (cases "nk_thread_group_check_leader (tnum t) (grp S) = 1") (auto simp: gs_simps thread_ok_def finishing_def)
qed (use p st in \<open>simp_all add: nk_group_sched_change_constraints_step_def\<close>)

text \<open>The last thread to leave finds out what all have agreed on.\<close>

lemma agreed_at_reset:
  assumes c: "changing n ld new c0 S" and t: "t < n" and p: "gpc S t = GReset"
  shows "agreed n new c0 S"
proof -
  note C = changing_facts [OF c]
  have f: "finishing (gpc S u)" if "u < n" for u
    using C(10) [OF t that p] p by (cases "u = t") (auto simp: finishing_def)
  have T: "thread_ok new (changing_fail (gst S)) (roll_back_to_old_fail (gst S)) (gpc S u) (result S u) (held S u) (old S u) (c0 u)"
    if "u < n" for u by (rule C(7) [OF that])
  show ?thesis
  proof (cases "changing_fail (gst S) = 0")
    case True
    then have "result S u = 0 \<and> held S u = new" if "u < n" for u
      using T [OF that] f [OF that] by (auto simp: thread_ok_def)
    then show ?thesis by (simp add: agreed_def)
  next
    case False
    then have r: "result S u = -1" "result S u \<noteq> 0" if "u < n" for u
      using T [OF that] f [OF that] by (auto simp: thread_ok_def)
    show ?thesis
    proof (cases "roll_back_to_old_fail (gst S) = 0")
      case True
      then have "held S u = c0 u" if "u < n" for u
        using T [OF that] f [OF that] r(2) [OF that] unfolding thread_ok_def by metis
      then show ?thesis using r(1) by (simp add: agreed_def)
    next
      case False
      then have "held S u = roll_back_constraints" if "u < n" for u
        using T [OF that] f [OF that] r(2) [OF that] C(5) unfolding thread_ok_def by metis
      then show ?thesis using r(1) by (simp add: agreed_def)
    qed
  qed
qed

lemma changing_reset:
  assumes c: "changing n ld new c0 S" and t: "t < n" and p: "gpc S t = GReset"
    and st: "nk_group_sched_change_constraints_step wait idle tnum new stp out t S = Some S'"
  shows "settled n new c0 S'"
proof -
  note C = changing_facts [OF c]
  have S': "S' = goto t GUnlock (S\<lparr>grp := snd (nk_thread_group_detach_state (grp S)), gst := group_sched_reset_state (gst S)\<rparr>)"
    using st p by (simp add: gs_simps)
  have u: "gpc S' u = (if u = t then GUnlock else GDone)" if "u < n" for u
    using C(10) [OF t that p] by (simp add: S' goto_def)
  have "agreed n new c0 S'"
    using agreed_at_reset [OF c t p] by (simp add: agreed_def S' goto_def)
  moreover have "glock S'" "gst S' = group_sched_reset_state (gst S')"
    using C(2) by (simp_all add: S' goto_def group_sched_reset_state_def)
  ultimately show ?thesis using u t unfolding settled_def by auto
qed

lemma of_nat_u64_eq:
  assumes "j < 2 ^ 64" "k < 2 ^ 64"
  shows "(of_nat j :: u64) = of_nat k \<longleftrightarrow> j = k"
proof
  assume "(of_nat j :: u64) = of_nat k"
  then have "unat (of_nat j :: u64) = unat (of_nat k :: u64)" by simp
  then show "j = k" using assms by (simp add: unat_of_nat)
qed simp

text \<open>A thread takes itself off the count.\<close>

lemma changing_dec:
  assumes c: "changing n ld new c0 S" and t: "t < n" and p: "gpc S t = GDec" and n: "n < 2 ^ 32"
    and st: "nk_group_sched_change_constraints_step wait idle tnum new stp out t S = Some S'"
  shows "changing n ld new c0 S'"
proof -
  note C = changing_facts [OF c]
  define D where "D = {u. u < n \<and> counted (gpc S u)}"
  have D: "finite D" "D \<subseteq> {..<n}" "t \<notin> D" using p by (auto simp: D_def counted_def)
  have "card (insert t D) \<le> card {..<n}" using D t by (intro card_mono) auto
  then have lt: "card D < n" using D by simp
  have cnt: "changing_count (gst S) - 1 = of_nat (n - Suc (card D))"
    using C(6) lt by (simp add: D_def [symmetric] of_nat_diff)
  have z: "changing_count (gst S) - 1 = 0 \<longleftrightarrow> n = Suc (card D)"
  proof -
    have "n - Suc (card D) < 2 ^ 64" using n by simp
    then have h: "(of_nat (n - Suc (card D)) :: u64) = 0 \<longleftrightarrow> n - Suc (card D) = 0"
      using of_nat_u64_eq [of "n - Suc (card D)" 0] by simp
    show ?thesis unfolding cnt h using lt by linarith
  qed
  have S': "S' = goto t (if n = Suc (card D) then GReset else GDone) (S\<lparr>gst := (gst S)\<lparr>changing_count := of_nat (n - Suc (card D))\<rparr>\<rparr>)"
  proof -
    have "S' = goto t (if changing_count (gst S) - 1 = 0 then GReset else GDone) (S\<lparr>gst := (gst S)\<lparr>changing_count := changing_count (gst S) - 1\<rparr>\<rparr>)"
      using st p by (simp add: nk_group_sched_change_constraints_step_def Let_def)
    then show ?thesis unfolding z unfolding cnt .
  qed
  then have g: "gst S' = (gst S)\<lparr>changing_count := of_nat (n - Suc (card D))\<rparr>" "glock S' = glock S"
    "gpc S' u = (if u = t then if n = Suc (card D) then GReset else GDone else gpc S u)"
    "result S' = result S" "held S' = held S" "old S' = old S" for u by (simp_all add: goto_def)
  have set: "{u. u < n \<and> counted (gpc S' u)} = insert t D"
    using t by (auto simp: g(3) D_def counted_def)
  have all_done: "gpc S u = GDone" if "n = Suc (card D)" "u < n" "u \<noteq> t" for u
  proof -
    have "insert t D = {..<n}" using D t that(1) by (intro card_subset_eq) auto
    then have "counted (gpc S u)" using that(2,3) by (auto simp: D_def)
    then show ?thesis using C(8) [OF that(2)] C(10) [OF that(2) t] that(3) p by (auto simp: counted_def)
  qed
  have "last_out n S'"
    unfolding last_out_def
  proof (intro allI impI)
    fix u v assume u: "u < n" "gpc S' u = GReset" "v < n" "v \<noteq> u"
    have "u = t" using u(2) C(10) [OF u(1) t] p by (cases "u = t") (auto simp: g(3))
    then show "gpc S' v = GDone" using u all_done [OF _ u(3)] by (simp add: g(3) split: if_splits)
  qed
  moreover have "\<exists>u < n. gpc S' u \<noteq> GDone"
  proof (cases "n = Suc (card D)")
    case True
    then show ?thesis using t by (intro exI [of _ t]) (simp add: g(3))
  next
    case False
    have "insert t D \<noteq> {..<n}"
    proof
      assume "insert t D = {..<n}"
      then have "card (insert t D) = n" by simp
      then show False using D False by simp
    qed
    then obtain v where "v < n" "v \<notin> insert t D" using D(2) t by blast
    then show ?thesis by (intro exI [of _ v]) (auto simp: g(3) D_def counted_def)
  qed
  moreover have "thread_ok new (changing_fail (gst S')) (roll_back_to_old_fail (gst S')) (gpc S' u) (result S' u) (held S' u) (old S' u) (c0 u)"
    if "u < n" for u
    using C(7) [OF that] p by (cases "u = t") (simp_all add: g thread_ok_def finishing_def)
  moreover have "gpc S' u \<noteq> GUnlock \<and> (u \<noteq> ld \<longrightarrow> gpc S' u \<noteq> GLock \<and> gpc S' u \<noteq> GSet)" if "u < n" for u
    using C(8,9) [OF that] by (simp add: g(3))
  moreover have "\<not> entering (gpc S' ld)" using C(1) by (simp add: g(3) entering_def)
  moreover have "changing_count (gst S') = of_nat (n - card {u. u < n \<and> counted (gpc S' u)})"
    unfolding set using D by (simp add: g(1))
  ultimately show ?thesis
    unfolding changing_def using C(2-5) by (intro conjI) (simp_all add: g(1,2))
qed

lemma settled_step:
  assumes c: "settled n new c0 S" and t: "t < n"
    and st: "nk_group_sched_change_constraints_step wait idle tnum new stp out t S = Some S'"
  shows "settled n new c0 S'"
proof -
  have P: "gpc S u = GDone \<or> gpc S u = GUnlock" if "u < n" for u using c that by (simp add: settled_def)
  have p: "gpc S t = GUnlock" using P [OF t] st by (auto simp: nk_group_sched_change_constraints_step_def)
  then have S': "S' = goto t GDone (S\<lparr>glock := False\<rparr>)" using st by (simp add: gs_simps)
  have u: "gpc S' u = GDone" if "u < n" for u
    using P [OF that] c p t that by (auto simp: S' goto_def settled_def)
  have "agreed n new c0 S'" "gst S' = group_sched_reset_state (gst S')"
    using c by (auto simp: S' goto_def agreed_def settled_def)
  then show ?thesis using u by (auto simp: settled_def S' goto_def)
qed

section \<open>How long it takes\<close>

definition weight_of :: "gpc \<Rightarrow> nat" where
  "weight_of p =
     (case p of GEntry \<Rightarrow> 17 | GLock \<Rightarrow> 16 | GSet \<Rightarrow> 15 | GTest \<Rightarrow> 13 | GChange \<Rightarrow> 12 | GFlag \<Rightarrow> 11 | GFail \<Rightarrow> 9 | GRoll \<Rightarrow> 8
      | GRollFlag \<Rightarrow> 7 | GOld \<Rightarrow> 5 | GDefault \<Rightarrow> 4 | GDec \<Rightarrow> 3 | GReset \<Rightarrow> 2 | GUnlock \<Rightarrow> 1 | GDone \<Rightarrow> 0 | GPanic \<Rightarrow> 0
      | GBar k \<Rightarrow> if k = 1 then 14 else if k = 2 then 10 else 6)"

section \<open>The contract of the barrier\<close>

text \<open>
  What the protocol needs of a barrier for \<open>n\<close> threads: \<open>arr\<close> and \<open>dep\<close> count a thread's arrivals
  and departures, \<open>steps_left\<close> bounds the steps of a wait, and nobody departs before all have
  arrived. When nobody inside can take a step, a thread inside waits for one that is outside.
\<close>

locale barrier_contract =
  fixes n :: nat
    and ok :: "'b \<Rightarrow> bool"
    and wait :: "nat \<Rightarrow> 'b \<Rightarrow> 'b option"
    and idle :: "'b \<Rightarrow> nat \<Rightarrow> bool"
    and arr :: "'b \<Rightarrow> nat \<Rightarrow> nat"
    and dep :: "'b \<Rightarrow> nat \<Rightarrow> nat"
    and steps_left :: "'b \<Rightarrow> nat \<Rightarrow> nat"
  assumes ok_step: "\<lbrakk>ok b; t < n; wait t b = Some b'\<rbrakk> \<Longrightarrow> ok b'"
    and others: "\<lbrakk>wait t b = Some b'; u \<noteq> t\<rbrakk> \<Longrightarrow> idle b' u = idle b u \<and> dep b' u = dep b u \<and> steps_left b' u = steps_left b u"
    and safe: "\<lbrakk>ok b; t < n; u < n\<rbrakk> \<Longrightarrow> dep b t \<le> arr b u"
    and idle_eq: "\<lbrakk>ok b; t < n; idle b t\<rbrakk> \<Longrightarrow> arr b t = dep b t"
    and arr_bound: "\<lbrakk>ok b; t < n\<rbrakk> \<Longrightarrow> arr b t \<le> dep b t + 1"
    and enters: "\<lbrakk>wait t b = Some b'; idle b t\<rbrakk> \<Longrightarrow> \<not> idle b' t \<and> dep b' t = dep b t"
    and leaves: "\<lbrakk>wait t b = Some b'; \<not> idle b t\<rbrakk> \<Longrightarrow> dep b' t = (if idle b' t then dep b t + 1 else dep b t)"
    and may_enter: "idle b t \<Longrightarrow> wait t b \<noteq> None"
    and stuck_waits: "\<lbrakk>ok b; t < n; \<not> idle b t; \<forall>u < n. \<not> idle b u \<longrightarrow> wait u b = None\<rbrakk> \<Longrightarrow> \<exists>u < n. idle b u \<and> arr b u < arr b t"
    and left_bound: "steps_left b t \<le> 9"
    and left_less: "\<lbrakk>wait t b = Some b'; \<not> idle b t; \<not> idle b' t\<rbrakk> \<Longrightarrow> steps_left b' t < steps_left b t"
begin

text \<open>Each thread has passed as many barriers, since the start with \<open>r\<close>, as the place it is at says.\<close>

definition placed_at :: "nat \<Rightarrow> 'b gsys \<Rightarrow> nat \<Rightarrow> bool" where
  "placed_at r S t \<longleftrightarrow> dep (barr S) t = r + barriers (gpc S t) (result S t) \<and>
     (\<not> in_barrier (gpc S t) \<longrightarrow> idle (barr S) t) \<and> (\<forall>k. gpc S t = GBar k \<longrightarrow> k = 1 \<or> k = 2 \<or> k = 3)"

definition in_place :: "nat \<Rightarrow> 'b gsys \<Rightarrow> bool" where
  "in_place r S \<longleftrightarrow> ok (barr S) \<and> (\<forall>t < n. placed_at r S t)"

lemma placed_together:
  assumes "in_place r S" "t < n" "u < n" "\<not> in_barrier (gpc S u)"
  shows "barriers (gpc S t) (result S t) \<le> barriers (gpc S u) (result S u)"
proof -
  have p: "ok (barr S)" "placed_at r S t" "placed_at r S u" using assms(1-3) by (simp_all add: in_place_def)
  then have "dep (barr S) t \<le> dep (barr S) u"
    using safe [OF p(1) assms(2,3)] idle_eq [OF p(1) assms(3)] assms(4) by (simp add: placed_at_def)
  then show ?thesis using p(2,3) by (simp add: placed_at_def)
qed

lemma in_place_step:
  assumes "in_place r S" "t < n" "nk_group_sched_change_constraints_step wait idle tnum new st out t S = Some S'"
  shows "in_place r S'"
proof -
  have p: "ok (barr S)" "placed_at r S u" if "u < n" for u using assms(1) that by (simp_all add: in_place_def)
  note P = p(2) [OF assms(2)] and K = p(1) [OF assms(2)]
  show ?thesis
  proof (cases "in_barrier (gpc S t)")
    case True
    then obtain k where k: "gpc S t = GBar k" by (auto simp: in_barrier_def)
    then obtain b where b: "wait t (barr S) = Some b" "S' = goto t (if idle b t then after_barrier k else GBar k) (S\<lparr>barr := b\<rparr>)"
      using assms(3) by (auto simp: nk_group_sched_change_constraints_step_def split: option.splits)
    have o: "placed_at r S' u" if "u < n" "u \<noteq> t" for u
      using p(2) [OF that(1)] others [OF b(1) that(2)] that(2) by (simp add: placed_at_def b(2) goto_def)
    have m: "placed_at r S' t"
      using P enters [OF b(1)] leaves [OF b(1)] k
      by (cases "idle (barr S) t") (auto simp: placed_at_def b(2) goto_def after_barrier_def barriers_def in_barrier_def)
    have "placed_at r S' u" if "u < n" for u
    proof (cases "u = t")
      case True
      then show ?thesis using m by (rule ssubst)
    qed (rule o [OF that])
    moreover have "barr S' = b" by (simp add: b(2) goto_def)
    ultimately show ?thesis
      using ok_step [OF K assms(2) b(1)] by (simp add: in_place_def)
  next
    case False
    then have B: "barr S' = barr S" "idle (barr S) t"
      using assms(3) P by (auto simp: gs_simps in_barrier_def placed_at_def split: gpc.splits if_splits prod.splits)
    have m: "placed_at r S' t"
      using P assms(3) False B(2) unfolding placed_at_def B(1)
      by (cases "gpc S t") (auto simp: gs_simps barriers_def in_barrier_def split: if_splits prod.splits)
    have o: "placed_at r S' u" if "u < n" "u \<noteq> t" for u
      using p(2) [OF that(1)] step_frame(1) [OF assms(3) that(2)] B(1) by (simp add: placed_at_def)
    have "placed_at r S' u" if "u < n" for u
    proof (cases "u = t")
      case True
      then show ?thesis using m by (rule ssubst)
    qed (rule o [OF that])
    then show ?thesis using K B(1) by (simp add: in_place_def)
  qed
qed

text \<open>Until the leader has posted the constraints, nobody passes the first barrier.\<close>

lemma gathering_step:
  assumes g: "gathering n ld c0 S" and pl: "in_place r S" and t: "t < n" and ld: "ld < n"
    and lead: "\<forall>u < n. nk_thread_group_check_leader (tnum u) (grp S) = 1 \<longleftrightarrow> u = ld"
    and sz: "group_size (grp S) = of_nat n"
    and st: "nk_group_sched_change_constraints_step wait idle tnum new stp out t S = Some S'"
  shows "gathering n ld c0 S' \<or> changing n ld new c0 S'"
proof -
  note F = step_frame(1) [OF st] and pl' = in_place_step [OF pl t st]
  have G: "gpc S u = GEntry \<or> gpc S u = GBar 1 \<or> u = ld" "if gpc S u = GEntry then held S u = c0 u else old S u = c0 u"
    if "u < n" for u using g that by (auto simp: gathering_def)
  have L: "entering (gpc S ld)" "glock S \<longleftrightarrow> gpc S ld = GSet" using g by (auto simp: gathering_def)
  show ?thesis
  proof (cases "t = ld")
    case False
    have l: "entering (gpc S' ld)" "\<not> in_barrier (gpc S' ld)" "barriers (gpc S' ld) x = 0" for x
      using L(1) F [of ld] False by (auto simp: entering_def in_barrier_def barriers_def)
    have "gpc S' t \<noteq> GTest"
      using placed_together [OF pl' t ld l(2)] l(3) by (auto simp: barriers_def)
    then have "gpc S' t = GBar 1 \<and> old S' t = c0 t" "glock S' = glock S"
      using G [OF t] False st lead t
      by (auto simp: gs_simps after_barrier_def split: option.splits if_splits)
    moreover from this have "gpc S' u = GEntry \<or> gpc S' u = GBar 1 \<or> u = ld" "if gpc S' u = GEntry then held S' u = c0 u else old S' u = c0 u"
      if "u < n" for u using F [of u] G [OF that] by (cases "u = t"; simp)+
    ultimately have "gathering n ld c0 S'"
      unfolding gathering_def using l(1) L(2) F [of ld] False by simp
    then show ?thesis by blast
  next
    case True
    have o: "gpc S' u = gpc S u" "held S' u = held S u" "old S' u = old S u" "gpc S u = GEntry \<or> gpc S u = GBar 1"
      if "u < n" "u \<noteq> ld" for u
      using F [of u] G(1) [OF that(1)] that(2) True by auto
    consider "gpc S ld = GEntry" | "gpc S ld = GLock" | "gpc S ld = GSet" using L(1) by (auto simp: entering_def)
    then show ?thesis
    proof cases
      case 3
      have S': "S' = goto ld (GBar 1) (S\<lparr>gst := group_sched_set_state (grp S) new (gst S),
          grp := snd (nk_thread_group_attach_state stp (grp S))\<rparr>)"
        using st 3 True by (simp add: gs_simps)
      have q: "gpc S' u = GEntry \<or> gpc S' u = GBar 1" if "u < n" for u
        using o [OF that] by (cases "u = ld") (auto simp: S' goto_def)
      then have none: "{u. u < n \<and> counted (gpc S' u)} = {}" by (fastforce simp: counted_def)
      have g: "gst S' = group_sched_set_state (grp S) new (gst S)" "glock S'" "\<not> entering (gpc S' ld)"
        using L(2) 3 by (auto simp: S' goto_def entering_def)
      have "thread_ok new 0 0 (gpc S' u) (result S' u) (held S' u) (old S' u) (c0 u)" if "u < n" for u
        using q [OF that] G(2) [OF that] 3 by (auto simp: thread_ok_def finishing_def S' goto_def split: if_splits)
      moreover have "gpc S' u \<noteq> GUnlock \<and> (u \<noteq> ld \<longrightarrow> gpc S' u \<noteq> GLock \<and> gpc S' u \<noteq> GSet)" if "u < n" for u
        using q [OF that] by auto
      moreover have "\<exists>u < n. gpc S' u \<noteq> GDone" using q [OF ld] ld by fastforce
      moreover have "last_out n S'" unfolding last_out_def using q by fastforce
      ultimately have "changing n ld new c0 S'"
        unfolding changing_def none g(1) group_sched_set_state_def nk_thread_group_get_size_def using sz g(2,3)
        by (intro conjI) simp_all
      then show ?thesis by blast
    next
      case 1
      then have S': "gpc S' ld = GLock" "old S' ld = c0 ld" "glock S' = glock S"
        using st True lead ld G(2) [OF ld] by (auto simp: gs_simps)
      then have "gpc S' u = GEntry \<or> gpc S' u = GBar 1 \<or> u = ld" "if gpc S' u = GEntry then held S' u = c0 u else old S' u = c0 u"
        if "u < n" for u using o [OF that] G(2) [OF that] by (cases "u = ld"; simp)+
      then have "gathering n ld c0 S'"
        unfolding gathering_def using L(2) 1 S'(1,3) by (simp add: entering_def)
      then show ?thesis by blast
    next
      case 2
      then have S': "gpc S' ld = GSet" "old S' ld = c0 ld" "glock S'"
        using st True G(2) [OF ld] by (auto simp: gs_simps split: if_splits)
      then have "gpc S' u = GEntry \<or> gpc S' u = GBar 1 \<or> u = ld" "if gpc S' u = GEntry then held S' u = c0 u else old S' u = c0 u"
        if "u < n" for u using o [OF that] G(2) [OF that] by (cases "u = ld"; simp)+
      then have "gathering n ld c0 S'"
        unfolding gathering_def using S'(1,3) by (simp add: entering_def)
      then show ?thesis by blast
    qed
  qed
qed

lemma changing_plain:
  assumes c: "changing n ld new c0 S" and pl: "in_place r S" and t: "t < n"
    and lead: "\<forall>u < n. nk_thread_group_check_leader (tnum u) (grp S) = 1 \<longleftrightarrow> u = ld"
    and st: "nk_group_sched_change_constraints_step wait idle tnum new stp out t S = Some S'"
    and p: "gpc S t \<noteq> GDec" "gpc S t \<noteq> GReset"
  shows "changing n ld new c0 S'"
proof -
  note F = step_frame(1) [OF st] and C = changing_facts [OF c]
  note T = C(7) [OF t]
  have nt: "gpc S t \<noteq> GLock" "gpc S t \<noteq> GSet" "gpc S t = GEntry \<Longrightarrow> t \<noteq> ld"
    using C(1) C(9) [OF t] by (auto simp: entering_def)
  have k: "k = 1 \<or> k = 2 \<or> k = 3" if "gpc S t = GBar k" for k
    using pl t that by (auto simp: in_place_def placed_at_def)
  have sep: "barriers (gpc S u) (result S u) \<le> barriers (gpc S t) (result S t)" if "\<not> in_barrier (gpc S t)" "u < n" for u
    using placed_together [OF pl that(2) t that(1)] .
  consider "gpc S t = GFlag" | "gpc S t = GRollFlag" | "gpc S t \<noteq> GFlag" "gpc S t \<noteq> GRollFlag" by blast
  then show ?thesis
  proof cases
    case 1
    then have S': "S' = goto t (GBar 2) (S\<lparr>gst := (gst S)\<lparr>changing_fail := 1\<rparr>\<rparr>)"
      using st C(4) by (auto simp: gs_simps cmpswap_def)
    have "\<not> (finishing (gpc S u) \<and> result S u = 0)" if "u < n" for u
      using sep [OF _ that] 1 by (auto simp: barriers_def finishing_def in_barrier_def)
    then have "thread_ok new 1 (roll_back_to_old_fail (gst S)) (gpc S' u) (result S' u) (held S' u) (old S' u) (c0 u)" if "u < n" for u
      using C(7) [OF that] T 1 that by (cases "u = t") (auto simp: thread_ok_def S' goto_def finishing_def)
    then show ?thesis
      using 1 C(5) by (intro changing_keep [OF c t]) (auto simp: S' goto_def counted_def entering_def)
  next
    case 2
    then have S': "S' = goto t (GBar 3) (S\<lparr>gst := (gst S)\<lparr>roll_back_to_old_fail := 1\<rparr>\<rparr>)"
      using st C(5) by (auto simp: gs_simps cmpswap_def)
    have "\<not> (finishing (gpc S u) \<and> result S u \<noteq> 0)" if "u < n" for u
      using sep [OF _ that] 2 by (auto simp: barriers_def finishing_def in_barrier_def)
    then have "thread_ok new (changing_fail (gst S)) 1 (gpc S' u) (result S' u) (held S' u) (old S' u) (c0 u)" if "u < n" for u
      using C(7) [OF that] T 2 that by (cases "u = t") (auto simp: thread_ok_def S' goto_def finishing_def)
    then show ?thesis
      using 2 C(4) by (intro changing_keep [OF c t]) (auto simp: S' goto_def counted_def entering_def)
  next
    case 3
    have g: "gst S' = gst S" "glock S' = glock S"
      using st p nt 3 C(8) [OF t] by (cases "gpc S t"; auto simp: gs_simps split: if_splits option.splits prod.splits)+
    have q: "\<not> counted (gpc S t)" "\<not> counted (gpc S' t)" "\<not> entering (gpc S' t)"
      using st p nt 3 C(8) [OF t] lead t
      by (cases "gpc S t"; auto simp: gs_simps counted_def entering_def after_barrier_def split: if_splits option.splits prod.splits)+
    have "thread_ok new (changing_fail (gst S)) (roll_back_to_old_fail (gst S)) (gpc S' t) (result S' t) (held S' t) (old S' t) (c0 t)"
      by (rule own_ok [OF st T C(3,4,5) nt(1,2) p 3 C(8) [OF t] k])
    then have "thread_ok new (changing_fail (gst S')) (roll_back_to_old_fail (gst S')) (gpc S' u) (result S' u) (held S' u) (old S' u) (c0 u)"
      if "u < n" for u
      using F [of u] C(7) [OF that] g by (cases "u = t") auto
    then show ?thesis
      using F g q C(4,5) by (intro changing_keep [OF c t]) auto
  qed
qed

text \<open>The invariant of the protocol: the barriers passed, the leader, the size and one of the three phases.\<close>

definition protocol_inv :: "nat \<Rightarrow> nat \<Rightarrow> (nat \<Rightarrow> u64) \<Rightarrow> nk_sched_constraints \<Rightarrow> (nat \<Rightarrow> nk_sched_constraints) \<Rightarrow> 'b gsys \<Rightarrow> bool" where
  "protocol_inv r ld tnum new c0 S \<longleftrightarrow> in_place r S \<and>
     (\<forall>u < n. nk_thread_group_check_leader (tnum u) (grp S) = 1 \<longleftrightarrow> u = ld) \<and> group_size (grp S) = of_nat n \<and>
     (gathering n ld c0 S \<or> changing n ld new c0 S \<or> settled n new c0 S)"

lemma protocol_inv_step:
  assumes i: "protocol_inv r ld tnum new c0 S" and n: "ld < n" "n < 2 ^ 32"
    and st: "group_change_step wait idle tnum new stp n S S'"
  shows "protocol_inv r ld tnum new c0 S'"
proof -
  obtain t out where t: "t < n" "nk_group_sched_change_constraints_step wait idle tnum new stp out t S = Some S'"
    using st by (auto simp: group_change_step_def)
  have I: "in_place r S" "\<forall>u < n. nk_thread_group_check_leader (tnum u) (grp S) = 1 \<longleftrightarrow> u = ld" "group_size (grp S) = of_nat n"
    "gathering n ld c0 S \<or> changing n ld new c0 S \<or> settled n new c0 S" using i by (auto simp: protocol_inv_def)
  have "gathering n ld c0 S' \<or> changing n ld new c0 S' \<or> settled n new c0 S'"
    using I(4)
  proof (elim disjE)
    assume "gathering n ld c0 S"
    then show ?thesis using gathering_step [OF _ I(1) t(1) n(1) I(2,3) t(2)] by blast
  next
    assume "changing n ld new c0 S"
    then show ?thesis
      using changing_dec [OF _ t(1) _ n(2) t(2)] changing_reset [OF _ t(1) _ t(2)] changing_plain [OF _ I(1) t(1) I(2) t(2)]
      by blast
  next
    assume "settled n new c0 S"
    then show ?thesis using settled_step [OF _ t] by blast
  qed
  then show ?thesis
    using in_place_step [OF I(1) t] I(2,3) step_frame(2,3) [OF t(2)]
    by (simp add: protocol_inv_def nk_thread_group_check_leader_def)
qed

lemma protocol_inv_run:
  assumes "protocol_inv r ld tnum new c0 S" "ld < n" "n < 2 ^ 32" "(group_change_step wait idle tnum new stp n ^^ k) S S'"
  shows "protocol_inv r ld tnum new c0 S'"
  using assms(4)
proof (induction k arbitrary: S')
  case (Suc k)
  then obtain S1 where "(group_change_step wait idle tnum new stp n ^^ k) S S1" "group_change_step wait idle tnum new stp n S1 S'" by auto
  then show ?case using Suc.IH protocol_inv_step [OF _ assms(2,3)] by blast
qed (use assms(1) in simp)

text \<open>The steps a thread has left.\<close>

definition todo :: "'b gsys \<Rightarrow> nat \<Rightarrow> nat" where
  "todo S t = 11 * weight_of (gpc S t) +
     (if in_barrier (gpc S t) then if idle (barr S) t then 10 else steps_left (barr S) t else 0)"

lemma todo_bound: "todo S t \<le> 187"
  using left_bound [of "barr S" t] by (auto simp: todo_def weight_of_def in_barrier_def split: gpc.splits)

lemma todo_others:
  assumes "nk_group_sched_change_constraints_step wait idle tnum new stp out t S = Some S'" "u \<noteq> t"
  shows "todo S' u = todo S u"
proof (cases "in_barrier (gpc S t)")
  case True
  then obtain b where "wait t (barr S) = Some b" "barr S' = b"
    using assms(1) by (auto simp: in_barrier_def gs_simps split: option.splits)
  then show ?thesis using others assms(2) step_frame(1) [OF assms] by (simp add: todo_def)
next
  case False
  then have "barr S' = barr S"
    using assms(1) by (cases "gpc S t") (auto simp: gs_simps in_barrier_def split: if_splits prod.splits)
  then show ?thesis using step_frame(1) [OF assms] by (simp add: todo_def)
qed

lemma todo_own:
  assumes "nk_group_sched_change_constraints_step wait idle tnum new stp out t S = Some S'"
    and k: "\<And>k. gpc S t = GBar k \<Longrightarrow> k = 1 \<or> k = 2 \<or> k = 3"
  shows "todo S' t < todo S t"
proof (cases "gpc S t")
  case (GBar k)
  then obtain b where b: "wait t (barr S) = Some b" "S' = goto t (if idle b t then after_barrier k else GBar k) (S\<lparr>barr := b\<rparr>)"
    using assms(1) by (auto simp: gs_simps split: option.splits)
  have l: "steps_left b t < 10" using left_bound [of b t] by simp
  have w: "weight_of (after_barrier k) < weight_of (GBar k)" "\<not> in_barrier (after_barrier k)"
    using k [OF GBar] by (auto simp: weight_of_def after_barrier_def in_barrier_def)
  show ?thesis
    using GBar w l enters [OF b(1)] left_less [OF b(1)] by (auto simp: todo_def b(2) goto_def in_barrier_def)
next
  case GChange
  then show ?thesis using assms(1) left_bound [of "barr S" t]
    by (cases out; cases "fst out = 0") (auto simp: gs_simps todo_def weight_of_def in_barrier_def)
next
  case GRoll
  then show ?thesis using assms(1) left_bound [of "barr S" t]
    by (cases out; cases "fst out = 0") (auto simp: gs_simps todo_def weight_of_def in_barrier_def)
next
  case GDefault
  then show ?thesis using assms(1) by (cases out; cases "fst out = 0") (auto simp: gs_simps todo_def weight_of_def in_barrier_def)
qed (use assms(1) left_bound [of "barr S" t] in
    \<open>auto simp: gs_simps todo_def weight_of_def in_barrier_def split: if_splits\<close>)

lemma todo_decreases:
  assumes "in_place r S" "group_change_step wait idle tnum new stp n S S'"
  shows "(\<Sum>t < n. todo S' t) < (\<Sum>t < n. todo S t)"
proof -
  obtain t out where t: "t < n" "nk_group_sched_change_constraints_step wait idle tnum new stp out t S = Some S'"
    using assms(2) by (auto simp: group_change_step_def)
  have "k = 1 \<or> k = 2 \<or> k = 3" if "gpc S t = GBar k" for k
    using assms(1) t(1) that by (auto simp: in_place_def placed_at_def)
  then have "todo S' t < todo S t" by (rule todo_own [OF t(2)])
  moreover have "todo S' u \<le> todo S u" for u
    using todo_others [OF t(2), of u] calculation by (cases "u = t") auto
  ultimately show ?thesis using t(1) by (intro sum_strict_mono_ex1) auto
qed

lemma run_bounded:
  assumes "protocol_inv r ld tnum new c0 S" "ld < n" "n < 2 ^ 32" "(group_change_step wait idle tnum new stp n ^^ k) S S'"
  shows "k \<le> 187 * n"
proof -
  have "k + (\<Sum>t < n. todo S' t) \<le> (\<Sum>t < n. todo S t)"
    using assms(4)
  proof (induction k arbitrary: S')
    case (Suc k)
    then obtain S1 where S1: "(group_change_step wait idle tnum new stp n ^^ k) S S1" "group_change_step wait idle tnum new stp n S1 S'" by auto
    then have "in_place r S1" using protocol_inv_run [OF assms(1-3)] by (auto simp: protocol_inv_def)
    then show ?case using Suc.IH [OF S1(1)] todo_decreases [OF _ S1(2)] by fastforce
  qed simp
  moreover have "(\<Sum>t < n. todo S t) \<le> (\<Sum>t < n. 187)" by (rule sum_mono) (rule todo_bound)
  ultimately show ?thesis by simp
qed

lemma stuck_places:
  assumes "nk_group_sched_change_constraints_step wait idle tnum new stp (0, c) t S = None"
  shows "gpc S t = GLock \<and> glock S \<or> (\<exists>k. gpc S t = GBar k \<and> wait t (barr S) = None) \<or> gpc S t = GDone \<or> gpc S t = GPanic"
  using assms by (cases "gpc S t") (auto simp: nk_group_sched_change_constraints_step_def Let_def split: if_splits option.splits)

text \<open>No deadlock: when no thread can take a step, all are done or have panicked.\<close>

lemma stuck_done:
  assumes i: "protocol_inv r ld tnum new c0 S" and s: "\<nexists>S'. group_change_step wait idle tnum new stp n S S'" and t: "t < n"
  shows "gpc S t = GDone \<or> gpc S t = GPanic"
proof -
  have I: "in_place r S" "gathering n ld c0 S \<or> changing n ld new c0 S \<or> settled n new c0 S" using i by (auto simp: protocol_inv_def)
  have P: "gpc S u = GLock \<and> glock S \<or> (\<exists>k. gpc S u = GBar k \<and> wait u (barr S) = None) \<or> gpc S u = GDone \<or> gpc S u = GPanic"
    if "u < n" for u
    using stuck_places [of tnum new stp _ u S] s that unfolding group_change_step_def by (metis not_None_eq)
  have nolock: "\<not> (gpc S u = GLock \<and> glock S)" if "u < n" for u
    using I(2)
  proof (elim disjE)
    assume g: "gathering n ld c0 S"
    then have "(glock S \<longleftrightarrow> gpc S ld = GSet)" "gpc S u = GEntry \<or> gpc S u = GBar 1 \<or> u = ld"
      using that by (auto simp: gathering_def)
    then show ?thesis by auto
  next
    assume c: "changing n ld new c0 S"
    then show ?thesis using changing_facts(1,9) [OF c] that by (cases "u = ld") (auto simp: entering_def)
  next
    assume "settled n new c0 S"
    then show ?thesis using that by (auto simp: settled_def)
  qed
  have placed: "ok (barr S)" "placed_at r S u" if "u < n" for u using I(1) that by (auto simp: in_place_def)
  show ?thesis
  proof (rule ccontr)
    assume "\<not> ?thesis"
    then obtain k where k: "gpc S t = GBar k" "wait t (barr S) = None" using P [OF t] nolock [OF t] by blast
    have "\<not> idle (barr S) t" using may_enter k(2) by metis
    moreover have "wait u (barr S) = None" if "u < n" "\<not> idle (barr S) u" for u
    proof -
      have "in_barrier (gpc S u)" using placed(2) [OF that(1)] that(2) by (auto simp: placed_at_def)
      then show ?thesis using P [OF that(1)] by (auto simp: in_barrier_def)
    qed
    ultimately obtain u where u: "u < n" "idle (barr S) u" "arr (barr S) u < arr (barr S) t"
      using stuck_waits [OF placed(1) [OF t] t] by blast
    have d: "gpc S u = GDone \<or> gpc S u = GPanic" using P [OF u(1)] nolock [OF u(1)] may_enter [OF u(2)] by metis
    have k3: "k = 1 \<or> k = 2 \<or> k = 3" using placed(2) [OF t] k(1) by (auto simp: placed_at_def)
    have "dep (barr S) t = r + (k - 1)" using placed(2) [OF t] k(1) by (simp add: placed_at_def barriers_def)
    moreover have "dep (barr S) u = r + barriers (gpc S u) (result S u)" using placed(2) [OF u(1)] by (simp add: placed_at_def)
    ultimately have "barriers (gpc S u) (result S u) < k"
      using u(3) idle_eq [OF placed(1) [OF t] u(1,2)] arr_bound [OF placed(1) [OF t] t] k3 by linarith
    then have 3: "k = 3" "gpc S u = GDone" "result S u = 0"
      using d k3 by (auto simp: barriers_def split: if_splits)
    then have c: "changing n ld new c0 S"
      using I(2) t k(1) u(1) by (auto simp: gathering_def settled_def entering_def)
    show False
      using changing_facts(7) [OF c t] changing_facts(7) [OF c u(1)] 3 k(1) by (auto simp: thread_ok_def finishing_def)
  qed
qed

lemma protocol_settles:
  assumes i: "protocol_inv r ld tnum new c0 S" and n: "ld < n" and a: "\<forall>t < n. gpc S t = GDone"
  shows "settled n new c0 S \<and> \<not> glock S"
proof -
  have "\<not> gathering n ld c0 S" using a n by (auto simp: gathering_def entering_def)
  moreover have "\<not> changing n ld new c0 S" using a by (auto simp: changing_def)
  ultimately have "settled n new c0 S" using i by (auto simp: protocol_inv_def)
  then show ?thesis using a by (auto simp: settled_def)
qed

end

end
