(* ===== verification/Group_Change.thy ===== *)
theory Group_Change
  imports Group_Sched
begin

text \<open>
  The group admission protocol over the group barrier. The group barrier keeps the contract the
  protocol was verified against, and so all threads of a group agree on their constraints and the
  protocol ends.
\<close>

section \<open>The group barrier keeps the contract\<close>

lemma phase_idle:
  assumes "barrier_inv n s" "t < n"
  shows "pc s t = BIdle \<Longrightarrow> entered s t = passed s t" "entered s t \<le> passed s t + 1"
proof -
  obtain r where "(\<exists>W. arriving n r W s) \<or> notifying n r s \<or> (\<exists>L. leaving n r L s) \<or> closing n r s"
    using assms(1) by (auto simp: barrier_inv_def)
  then consider W where "arriving n r W s" | "notifying n r s" | L where "leaving n r L s" | "closing n r s" by metis
  then have "(pc s t = BIdle \<longrightarrow> entered s t = passed s t) \<and> entered s t \<le> passed s t + 1"
  proof cases
    case (1 W)
    then show ?thesis using arriving_pc [OF 1 assms(2)] by (cases "t \<in> W") (auto simp: before_def inside_def)
  next
    case 2
    then obtain l where "pc s l = BNotify" "inside r s t" "t \<noteq> l \<longrightarrow> pc s t = BSpin"
      using assms(2) by (auto simp: notifying_def)
    then show ?thesis by (cases "t = l") (auto simp: inside_def)
  next
    case (3 L)
    then have "if t \<in> L then outside r s t else inside r s t \<and> (pc s t = BSpin \<or> pc s t = BInc)"
      using assms(2) by (simp add: leaving_def)
    then show ?thesis by (cases "t \<in> L") (auto simp: outside_def inside_def)
  next
    case 4
    then obtain l where l: "inside r s l" "pc s l = BReset \<or> pc s l = BRelease" "t \<noteq> l \<longrightarrow> outside r s t"
      using assms(2) unfolding closing_def by blast
    then show ?thesis by (cases "t = l") (auto simp: outside_def inside_def)
  qed
  then show "pc s t = BIdle \<Longrightarrow> entered s t = passed s t" "entered s t \<le> passed s t + 1" by blast+
qed

definition usable :: "nat \<Rightarrow> bsys \<Rightarrow> bool" where
  "usable n b \<longleftrightarrow> 0 < n \<and> n < 2 ^ 32 \<and> runs thread_group_barrier_wait_step n (fresh n) b"

definition outside_barrier :: "bsys \<Rightarrow> nat \<Rightarrow> bool" where
  "outside_barrier b t \<longleftrightarrow> pc b t = BIdle"

lemma usable_inv: "usable n b \<Longrightarrow> barrier_inv n b"
  using reachable_inv by (auto simp: usable_def)

lemma wait_entry:
  assumes "wait_step reset t b = Some b'" "pc b t = BIdle"
  shows "pc b' t = BLock \<and> passed b' = passed b"
  using assms by (auto simp: wait_simps)

lemma wait_return:
  assumes "wait_step reset t b = Some b'" "pc b t \<noteq> BIdle"
  shows "passed b' t = (if pc b' t = BIdle then passed b t + 1 else passed b t)"
  using assms by (auto simp: wait_simps split: bpc.splits if_splits)

interpretation gb: barrier_contract n "usable n" thread_group_barrier_wait_step outside_barrier entered passed "\<lambda>b t. rank (pc b t)" for n
proof
  fix b b' t u
  show "usable n b'" if "usable n b" "t < n" "thread_group_barrier_wait_step t b = Some b'"
    using that by (auto simp: usable_def intro: runs_step)
  show "outside_barrier b' u = outside_barrier b u \<and> passed b' u = passed b u \<and> rank (pc b' u) = rank (pc b u)"
    if "thread_group_barrier_wait_step t b = Some b'" "u \<noteq> t"
    using that wait_pc(1) [of True t b b' u] wait_counts(2) [of True t b b']
    by (simp add: thread_group_barrier_wait_step_def outside_barrier_def)
  show "passed b t \<le> entered b u" if "usable n b" "t < n" "u < n"
    using abs_safe [OF runs_abstract [of n b]] that by (auto simp: usable_def abs_of_def)
  show "entered b t = passed b t" if "usable n b" "t < n" "outside_barrier b t"
    using phase_idle(1) [OF usable_inv] that by (simp add: outside_barrier_def)
  show "entered b t \<le> passed b t + 1" if "usable n b" "t < n"
    using phase_idle(2) [OF usable_inv] that by blast
  show "\<not> outside_barrier b' t \<and> passed b' t = passed b t" if "thread_group_barrier_wait_step t b = Some b'" "outside_barrier b t"
    using wait_entry [of True t b b'] that by (simp add: thread_group_barrier_wait_step_def outside_barrier_def)
  show "passed b' t = (if outside_barrier b' t then passed b t + 1 else passed b t)"
    if "thread_group_barrier_wait_step t b = Some b'" "\<not> outside_barrier b t"
    using wait_return [of True t b b'] that by (simp add: thread_group_barrier_wait_step_def outside_barrier_def)
  show "thread_group_barrier_wait_step t b \<noteq> None" if "outside_barrier b t"
    using that by (simp add: thread_group_barrier_wait_step_def outside_barrier_def wait_step_def Let_def)
  show "\<exists>u < n. outside_barrier b u \<and> entered b u < entered b t"
    if "usable n b" "t < n" "\<not> outside_barrier b t" "\<forall>u < n. \<not> outside_barrier b u \<longrightarrow> thread_group_barrier_wait_step u b = None"
  proof -
    have "\<nexists>s'. inner n b s'" using that(4) by (auto simp: inner_def outside_barrier_def)
    then show ?thesis using stuck_arriving [OF usable_inv [OF that(1)] _ that(2)] that(3) by (auto simp: outside_barrier_def)
  qed
  show "rank (pc b t) \<le> 9" by (rule rank_le)
  show "rank (pc b' t) < rank (pc b t)"
    if "thread_group_barrier_wait_step t b = Some b'" "\<not> outside_barrier b t" "\<not> outside_barrier b' t"
    using wait_pc(2) [of True t b b'] that by (simp add: thread_group_barrier_wait_step_def outside_barrier_def)
qed

section \<open>From the call to the returns\<close>

text \<open>
  The members of a group, numbered from 0, are about to call the change: nobody is in the barrier
  or holds the lock, and thread \<open>ld\<close> is the leader.
\<close>

definition ready :: "nat \<Rightarrow> nat \<Rightarrow> (nat \<Rightarrow> u64) \<Rightarrow> bsys gsys \<Rightarrow> bool" where
  "ready n ld tnum S \<longleftrightarrow> usable n (barr S) \<and> ld < n \<and> (\<forall>t < n. gpc S t = GEntry \<and> outside_barrier (barr S) t) \<and> \<not> glock S \<and>
     (\<forall>t < n. nk_thread_group_check_leader (tnum t) (grp S) = 1 \<longleftrightarrow> t = ld) \<and> group_size (grp S) = of_nat n"

abbreviation change_step :: "(nat \<Rightarrow> u64) \<Rightarrow> nk_sched_constraints \<Rightarrow> ptr \<Rightarrow> nat \<Rightarrow> bsys gsys \<Rightarrow> bsys gsys \<Rightarrow> bool" where
  "change_step \<equiv> group_change_step thread_group_barrier_wait_step outside_barrier"

lemma ready_inv:
  assumes "ready n ld tnum S"
  shows "gb.protocol_inv n (passed (barr S) 0) ld tnum new (held S) S"
proof -
  have u: "usable n (barr S)" and i: "outside_barrier (barr S) t" "gpc S t = GEntry" if "t < n" for t
    using assms that by (auto simp: ready_def)
  have n: "0 < n" using assms by (auto simp: ready_def)
  have e: "passed (barr S) t = passed (barr S) 0" if "t < n" for t
    using gb.safe [OF u [OF n] that n] gb.safe [OF u [OF n] n that] gb.idle_eq [OF u [OF n] that i(1) [OF that]]
      gb.idle_eq [OF u [OF n] n i(1) [OF n]] by linarith
  have "gb.placed_at (passed (barr S) 0) S t" if "t < n" for t
    unfolding gb.placed_at_def e [OF that] i(2) [OF that] using i(1) [OF that] by (simp add: barriers_def)
  then have "gb.in_place n (passed (barr S) 0) S" using u [OF n] by (simp add: gb.in_place_def)
  moreover have "gathering n ld (held S) S"
    using assms by (auto simp: gathering_def ready_def entering_def)
  ultimately show ?thesis using assms by (simp add: gb.protocol_inv_def ready_def)
qed

section \<open>Schedules\<close>

text \<open>The run in which the threads of a list take a step each, with the given outcomes of changes.\<close>

fun change_list :: "(nat \<Rightarrow> u64) \<Rightarrow> nk_sched_constraints \<Rightarrow> ptr \<Rightarrow> ((int \<times> nk_sched_constraints) \<times> nat) list \<Rightarrow> bsys gsys \<Rightarrow>
    bsys gsys option" where
  "change_list tnum new stp [] S = Some S"
| "change_list tnum new stp ((out, t) # os) S =
     (case nk_group_sched_change_constraints_step thread_group_barrier_wait_step outside_barrier tnum new stp out t S of
        None \<Rightarrow> None | Some S' \<Rightarrow> change_list tnum new stp os S')"

lemma change_list_run:
  "change_list tnum new stp os S = Some S' \<Longrightarrow> \<forall>x \<in> set os. snd x < n \<Longrightarrow> (change_step tnum new stp n ^^ length os) S S'"
proof (induction os arbitrary: S)
  case (Cons x os)
  obtain out t where x: "x = (out, t)" by (cases x)
  then obtain S1 where S1: "nk_group_sched_change_constraints_step thread_group_barrier_wait_step outside_barrier tnum new stp out t S = Some S1"
      "change_list tnum new stp os S1 = Some S'"
    using Cons.prems(1) by (auto split: option.splits)
  have "t < n" using Cons.prems(2) x by simp
  then have "change_step tnum new stp n S S1" using S1(1) unfolding group_change_step_def by blast
  moreover have "(change_step tnum new stp n ^^ length os) S1 S'" using Cons.IH [OF S1(2)] Cons.prems(2) by simp
  ultimately show ?case using relpowp_Suc_I2 by (metis length_Cons)
qed simp

text \<open>A group of one thread, its leader, that asks for new constraints.\<close>

definition lone_group :: "bsys gsys" where
  "lone_group = \<lparr>gst = zero_group_state, glock = False, grp = zero_group\<lparr>group_leader := 7, group_size := 1\<rparr>,
     barr = fresh 1, gpc = (\<lambda>_. GEntry), held = (\<lambda>_. aperiodic_constraints 5), old = (\<lambda>_. aperiodic_constraints 0),
     result = (\<lambda>_. 0)\<rparr>"

definition lone_call :: "int \<Rightarrow> nat \<Rightarrow> bsys gsys option" where
  "lone_call rc k = change_list (\<lambda>_. 7) (aperiodic_constraints 9) 8 (replicate k ((rc, aperiodic_constraints 3), 0)) lone_group"

lemma lone_ready: "ready 1 0 (\<lambda>_. 7) lone_group"
  by (auto simp: ready_def lone_group_def usable_def outside_barrier_def fresh_def at_start_def zero_group_def
      nk_thread_group_check_leader_def intro: runs_refl)

lemma lone_call_done: "case lone_call 0 25 of None \<Rightarrow> False | Some S \<Rightarrow> gpc S 0 = GDone \<and> result S 0 = 0"
  by code_simp

lemma lone_call_run:
  assumes "lone_call rc k = Some S"
  shows "(change_step (\<lambda>_. 7) (aperiodic_constraints 9) 8 1 ^^ k) lone_group S"
  using change_list_run [of "\<lambda>_. 7" "aperiodic_constraints 9" 8 "replicate k ((rc, aperiodic_constraints 3), 0)" lone_group S 1] assms
  by (simp add: lone_call_def)

section \<open>Properties\<close>

text \<open>
  C1. The members of a group agree: in every interleaving of a group change of any number of
  threads, whatever calls to change constraints succeed or fail, when all threads have returned
  then either all return 0 and have the new constraints, or all return -1 and have the constraints
  they came with, or all return -1 and have the default constraints; the lock is free, the shared
  state is reset and the group is ready for the next change.
\<close>
theorem group_change_agrees:
  assumes "ready n ld tnum S" "(change_step tnum new stp n ^^ k) S S'" "\<forall>t < n. gpc S' t = GDone"
  shows "((\<forall>t < n. result S' t = 0 \<and> held S' t = new) \<or>
      (\<forall>t < n. result S' t = -1 \<and> held S' t = held S t) \<or>
      (\<forall>t < n. result S' t = -1 \<and> held S' t = roll_back_constraints)) \<and>
    gst S' = group_sched_reset_state (gst S') \<and> ready n ld tnum (S'\<lparr>gpc := \<lambda>_. GEntry\<rparr>)"
proof -
  have n: "ld < n" "n < 2 ^ 32" using assms(1) by (auto simp: ready_def usable_def)
  have i: "gb.protocol_inv n (passed (barr S) 0) ld tnum new (held S) S'"
    by (rule gb.protocol_inv_run [OF ready_inv [OF assms(1)] n assms(2)])
  have s: "settled n new (held S) S'" "\<not> glock S'" using gb.protocol_settles [OF i n(1) assms(3)] by auto
  have "usable n (barr S')" "\<forall>t < n. outside_barrier (barr S') t"
    using i assms(3) by (auto simp: gb.protocol_inv_def gb.in_place_def gb.placed_at_def in_barrier_def)
  then have "ready n ld tnum (S'\<lparr>gpc := \<lambda>_. GEntry\<rparr>)"
    using i n(1) s(2) by (simp add: ready_def gb.protocol_inv_def)
  then show ?thesis using s(1) by (auto simp: settled_def agreed_def)
qed

theorem group_change_agrees_witness:
  "\<exists>S. (change_step (\<lambda>_. 7) (aperiodic_constraints 9) 8 1 ^^ 25) lone_group S \<and> gpc S 0 = GDone \<and>
    held S 0 = aperiodic_constraints 9"
proof -
  obtain S where S: "lone_call 0 25 = Some S" "gpc S 0 = GDone" "result S 0 = 0"
    using lone_call_done by (cases "lone_call 0 25") auto
  then have "\<forall>t < 1. gpc S t = GDone" by simp
  then show ?thesis
    using group_change_agrees [OF lone_ready lone_call_run [OF S(1)]] lone_call_run [OF S(1)] S(2,3) by auto
qed

text \<open>
  C12. A group change ends: from the call on, a run takes at most 187 steps per thread, and when no
  thread can take a step, every thread has returned or has panicked because not even the default
  constraints were accepted. There is no deadlock between the lock, the barriers and the roll back.
\<close>
theorem group_change_ends:
  assumes "ready n ld tnum S" "(change_step tnum new stp n ^^ k) S S'"
  shows "k \<le> 187 * n \<and> ((\<nexists>S''. change_step tnum new stp n S' S'') \<longrightarrow> (\<forall>t < n. gpc S' t = GDone \<or> gpc S' t = GPanic))"
proof -
  have n: "ld < n" "n < 2 ^ 32" using assms(1) by (auto simp: ready_def usable_def)
  show ?thesis
    using gb.run_bounded [OF ready_inv [OF assms(1)] n assms(2)]
      gb.stuck_done [OF gb.protocol_inv_run [OF ready_inv [OF assms(1)] n assms(2)]] by blast
qed

theorem group_change_ends_witness:
  "\<exists>S. (change_step (\<lambda>_. 7) (aperiodic_constraints 9) 8 1 ^^ 25) lone_group S \<and> 25 \<le> 187 * (1 :: nat)"
proof -
  obtain S where S: "lone_call 0 25 = Some S"
    using lone_call_done by (cases "lone_call 0 25") auto
  then show ?thesis
    using group_change_ends [OF lone_ready lone_call_run [OF S]] lone_call_run [OF S] by blast
qed

end
