(* ===== verification/Buddy.thy ===== *)
theory Buddy
  imports Prelude
begin

text \<open>
  The buddy system allocator (src/nautilus/mm/buddy.c): pools, the tag bit of every minimum-sized
  block, the free list of every order, allocation with splitting, release with coalescing and
  the sanity check. The header \<open>struct block\<close> that the code overlays on a free block is its
  address on a free list and its order in \<open>border\<close>. Blocks partition the pool: those on
  the free lists, and those in the hands of the callers, which the code does not record and the
  invariant carries as a set. Addresses and sizes are natural numbers: a pool lies below the end
  of the address space, so that no address computation of the code wraps. For an address below the
  base of the pool the code subtracts with wrap-around and then asserts that the resulting index is
  in range; here that is the failed assertion at once.
\<close>

unbundle bit_operations_syntax

section \<open>Pools and blocks\<close>

text \<open>
  \<open>avail\<close> is the array of list heads, each list from its first entry on; \<open>tag_bits\<close> is the
  bitmap; \<open>border\<close> is the member \<open>order\<close> of the block structure at an address.
\<close>

record buddy_mempool =
  base_addr :: nat
  pool_order :: nat
  min_order :: nat
  num_blocks :: nat
  tag_bits :: "nat \<Rightarrow> bool"
  avail :: "nat \<Rightarrow> ptr list"
  border :: "ptr \<Rightarrow> nat"

definition sizeof_block :: nat where
  "sizeof_block = 24"

definition block_to_id :: "buddy_mempool \<Rightarrow> ptr \<Rightarrow> nat result" where
  "block_to_id mp block =
    (if block < base_addr mp then Inl FailedAssert
     else let block_id = (block - base_addr mp) div 2 ^ min_order mp
          in assert_that (block_id < num_blocks mp) (Inr block_id))"

definition mark_available :: "buddy_mempool \<Rightarrow> ptr \<Rightarrow> buddy_mempool result" where
  "mark_available mp block =
    bindr (block_to_id mp block) (\<lambda>i. Inr (mp\<lparr>tag_bits := (tag_bits mp)(i := True)\<rparr>))"

definition mark_allocated :: "buddy_mempool \<Rightarrow> ptr \<Rightarrow> buddy_mempool result" where
  "mark_allocated mp block =
    bindr (block_to_id mp block) (\<lambda>i. Inr (mp\<lparr>tag_bits := (tag_bits mp)(i := False)\<rparr>))"

definition is_available :: "buddy_mempool \<Rightarrow> ptr \<Rightarrow> bool result" where
  "is_available mp block = bindr (block_to_id mp block) (\<lambda>i. Inr (tag_bits mp i))"

definition find_buddy :: "buddy_mempool \<Rightarrow> ptr \<Rightarrow> nat \<Rightarrow> ptr result" where
  "find_buddy mp block order =
    assert_that (base_addr mp \<le> block)
      (Inr (((block - base_addr mp) XOR 2 ^ order) + base_addr mp))"

text \<open>
  \<open>list_del\<close> takes a block off the list it is on, whichever that is; \<open>list_add\<close> puts one at
  the head of the list of an order; the assignment to the member \<open>order\<close> of a block.
\<close>

definition block_del :: "buddy_mempool \<Rightarrow> ptr \<Rightarrow> buddy_mempool" where
  "block_del mp block = mp\<lparr>avail := \<lambda>o'. remove1 block (avail mp o')\<rparr>"

definition block_add :: "buddy_mempool \<Rightarrow> ptr \<Rightarrow> nat \<Rightarrow> buddy_mempool" where
  "block_add mp block order = mp\<lparr>avail := (avail mp)(order := block # avail mp order)\<rparr>"

definition set_order :: "buddy_mempool \<Rightarrow> ptr \<Rightarrow> nat \<Rightarrow> buddy_mempool" where
  "set_order mp block order = mp\<lparr>border := (border mp)(block := order)\<rparr>"

section \<open>Initialisation\<close>

text \<open>
  The boot allocator may fail at each of three calls: the pool, its list heads and its bitmap.
  The result is \<open>None\<close> where the code returns NULL. A block structure takes 24 bytes, so the
  smallest order that holds one is 5.
\<close>

definition fix_min_order :: "nat \<Rightarrow> nat" where
  "fix_min_order min_o = (if 2 ^ min_o < sizeof_block then 5 else min_o)"

definition buddy_init :: "bool \<Rightarrow> bool \<Rightarrow> bool \<Rightarrow> (ptr \<Rightarrow> nat) \<Rightarrow> nat \<Rightarrow> nat \<Rightarrow> nat \<Rightarrow> buddy_mempool option" where
  "buddy_init pool_ok heads_ok bits_ok memory base pool_o min_o =
    (let min_o = fix_min_order min_o in
     if min_o > pool_o then None
     else if \<not> pool_ok then None
     else if \<not> heads_ok then None
     else if \<not> bits_ok then None
     else Some \<lparr>base_addr = base, pool_order = pool_o, min_order = min_o,
                num_blocks = 2 ^ pool_o div 2 ^ min_o, tag_bits = (\<lambda>_. False),
                avail = (\<lambda>_. []), border = memory\<rparr>)"

section \<open>Allocation\<close>

text \<open>The loop that gives back the upper halves of a block larger than requested.\<close>

fun buddy_trim :: "buddy_mempool \<Rightarrow> ptr \<Rightarrow> nat \<Rightarrow> nat \<Rightarrow> buddy_mempool result" where
  "buddy_trim mp block order 0 = Inr mp"
| "buddy_trim mp block order (Suc j) =
    (if order < Suc j then
       let buddy_block = block + 2 ^ j in
       bindr (mark_available (set_order mp buddy_block j) buddy_block) (\<lambda>mp.
         buddy_trim (block_add mp buddy_block j) block order j)
     else Inr mp)"

text \<open>The loop over the free lists from the requested order on.\<close>

function buddy_search :: "buddy_mempool \<Rightarrow> nat \<Rightarrow> nat \<Rightarrow> (ptr \<times> buddy_mempool) result" where
  "buddy_search mp order j =
    (if j \<le> pool_order mp then
       (case avail mp j of
          [] \<Rightarrow> buddy_search mp order (Suc j)
        | block # _ \<Rightarrow>
            bindr (mark_allocated (block_del mp block) block) (\<lambda>mp.
            bindr (buddy_trim mp block order j) (\<lambda>mp. Inr (block, mp))))
     else Inr (NULL, mp))"
  by pat_completeness auto
termination
  by (relation "measure (\<lambda>(mp, _, j). Suc (pool_order mp) - j)") auto

declare buddy_search.simps [simp del]

definition buddy_alloc :: "buddy_mempool \<Rightarrow> nat \<Rightarrow> (ptr \<times> buddy_mempool) result" where
  "buddy_alloc mp order =
    (if order > pool_order mp then Inr (NULL, mp)
     else let order = (if order < min_order mp then min_order mp else order)
          in buddy_search mp order order)"

section \<open>Release\<close>

text \<open>
  The coalescing loop: while the buddy of the block is free and of the same order, the two
  become one block of the next order. \<open>pool\<close> is the order of the pool.
\<close>

function buddy_coalesce ::
    "nat \<Rightarrow> buddy_mempool \<Rightarrow> ptr \<Rightarrow> nat \<Rightarrow> (buddy_mempool \<times> ptr \<times> nat) result" where
  "buddy_coalesce pool mp block order =
    (if order < pool then
       bindr (find_buddy mp block order) (\<lambda>buddy.
       bindr (is_available mp buddy) (\<lambda>av.
         if \<not> av then Inr (mp, block, order)
         else if border mp buddy \<noteq> order then Inr (mp, block, order)
         else let mp = block_del mp buddy;
                  block = (if buddy < block then buddy else block)
              in buddy_coalesce pool (set_order mp block (Suc order)) block (Suc order)))
     else Inr (mp, block, order))"
  by pat_completeness auto
termination
  by (relation "measure (\<lambda>(pool, _, _, order). pool - order)") auto

declare buddy_coalesce.simps [simp del]

definition buddy_free :: "buddy_mempool \<Rightarrow> ptr \<Rightarrow> nat \<Rightarrow> buddy_mempool result" where
  "buddy_free mp addr order =
    assert_that (order \<le> pool_order mp) (
    assert_that (2 ^ order dvd addr) (
    let order = (if order < min_order mp then min_order mp else order) in
    assert_that (base_addr mp \<le> addr \<and> addr < base_addr mp + 2 ^ pool_order mp) (
    assert_that (order \<le> pool_order mp) (
    bindr (is_available mp addr) (\<lambda>av.
    assert_that (\<not> av) (
    bindr (buddy_coalesce (pool_order mp) mp addr order) (\<lambda>(mp, block, order).
    bindr (mark_available (set_order mp block order) block) (\<lambda>mp.
    let mp = block_add mp block order in
    if border mp block = 2 ^ 64 - 1 then Inl (Panic ''Block order'') else Inr mp))))))))"

section \<open>Sanity check and statistics\<close>

record buddy_pool_stats =
  start_addr :: nat
  end_addr :: nat
  total_blocks_free :: nat
  total_bytes_free :: nat
  min_alloc_size :: nat
  max_alloc_size :: nat

text \<open>The entries of one list counted until the first that is wrong; the result code with them.\<close>

fun sanity_list :: "buddy_mempool \<Rightarrow> nat \<Rightarrow> ptr list \<Rightarrow> nat \<Rightarrow> int \<Rightarrow> (nat \<times> int) result" where
  "sanity_list mp i [] num rc = Inr (num, rc)"
| "sanity_list mp i (block # bs) num rc =
    (if block < base_addr mp \<or> block \<ge> base_addr mp + 2 ^ pool_order mp then Inr (num, rc OR -1)
     else if border mp block \<noteq> i then Inr (num, rc OR -1)
     else bindr (is_available mp block) (\<lambda>av.
       if \<not> av then Inr (num, rc OR -1) else sanity_list mp i bs (Suc num) rc))"

function sanity_lists ::
    "buddy_mempool \<Rightarrow> nat \<Rightarrow> int \<Rightarrow> buddy_pool_stats \<Rightarrow> (int \<times> buddy_pool_stats) result" where
  "sanity_lists mp i rc s =
    (if i \<le> pool_order mp then
       bindr (sanity_list mp i (avail mp i) 0 rc) (\<lambda>(num, rc).
         sanity_lists mp (Suc i) rc
           (s\<lparr>min_alloc_size := (if min_alloc_size s = 0 then 2 ^ min_order mp else min_alloc_size s),
              max_alloc_size := (if num > 0 then 2 ^ i else max_alloc_size s),
              total_blocks_free := total_blocks_free s + num,
              total_bytes_free := total_bytes_free s + num * 2 ^ i\<rparr>))
     else Inr (rc, s))"
  by pat_completeness auto
termination
  by (relation "measure (\<lambda>(mp, i, _). Suc (pool_order mp) - i)") auto

declare sanity_lists.simps [simp del]

definition buddy_check :: "buddy_mempool \<Rightarrow> (int \<times> buddy_pool_stats) result" where
  "buddy_check mp =
    sanity_lists mp (min_order mp) 0
      \<lparr>start_addr = base_addr mp, end_addr = base_addr mp + 2 ^ pool_order mp,
       total_blocks_free = 0, total_bytes_free = 0, min_alloc_size = 0, max_alloc_size = 0\<rparr>"

definition buddy_stats :: "buddy_mempool \<Rightarrow> buddy_pool_stats result" where
  "buddy_stats mp = bindr (buddy_check mp) (\<lambda>(_, s). Inr s)"

definition buddy_sanity_check :: "buddy_mempool \<Rightarrow> int result" where
  "buddy_sanity_check mp = bindr (buddy_check mp) (\<lambda>(rc, _). Inr rc)"

section \<open>Blocks that tile a pool\<close>

text \<open>
  A block is its address and order. A set of blocks tiles the pool of order \<open>p\<close> at \<open>b\<close> when
  each is of an order from \<open>m\<close> to \<open>p\<close>, aligned to its size relative to \<open>b\<close> and inside
  the pool, no two overlap, and together they cover it.
\<close>

definition region :: "ptr \<times> nat \<Rightarrow> nat set" where
  "region B = {fst B ..< fst B + 2 ^ snd B}"

definition block_ok :: "nat \<Rightarrow> nat \<Rightarrow> nat \<Rightarrow> ptr \<times> nat \<Rightarrow> bool" where
  "block_ok b p m B \<longleftrightarrow> m \<le> snd B \<and> snd B \<le> p \<and> b \<le> fst B \<and> 2 ^ snd B dvd fst B - b
    \<and> fst B + 2 ^ snd B \<le> b + 2 ^ p"

definition tiles :: "nat \<Rightarrow> nat \<Rightarrow> nat \<Rightarrow> (ptr \<times> nat) set \<Rightarrow> bool" where
  "tiles b p m S \<longleftrightarrow> (\<forall>B\<in>S. block_ok b p m B)
    \<and> (\<forall>B\<in>S. \<forall>C\<in>S. B \<noteq> C \<longrightarrow> region B \<inter> region C = {})
    \<and> {b ..< b + 2 ^ p} \<subseteq> \<Union> (region ` S)"

lemma start_in_region [simp]: "a \<in> region (a, q)"
  by (simp add: region_def)

lemma tiles_ok: "tiles b p m S \<Longrightarrow> B \<in> S \<Longrightarrow> block_ok b p m B"
  by (simp add: tiles_def)

lemma tiles_disjoint:
  "tiles b p m S \<Longrightarrow> B \<in> S \<Longrightarrow> C \<in> S \<Longrightarrow> B \<noteq> C \<Longrightarrow> region B \<inter> region C = {}"
  by (simp add: tiles_def)

lemma tiles_same_point:
  "tiles b p m S \<Longrightarrow> B \<in> S \<Longrightarrow> C \<in> S \<Longrightarrow> x \<in> region B \<Longrightarrow> x \<in> region C \<Longrightarrow> B = C"
  using tiles_disjoint [of b p m S B C] by auto

lemma tiles_same_start: "tiles b p m S \<Longrightarrow> (a, q) \<in> S \<Longrightarrow> (a, r) \<in> S \<Longrightarrow> q = r"
  using tiles_same_point [of b p m S "(a, q)" "(a, r)" a] by simp

lemma tiles_cover:
  assumes "tiles b p m S" "b \<le> x" "x < b + 2 ^ p"
  obtains a q where "(a, q) \<in> S" "x \<in> region (a, q)"
proof -
  have "x \<in> \<Union> (region ` S)" using assms by (auto simp: tiles_def)
  then show ?thesis using that by auto
qed

lemma tiles_replace:
  assumes t: "tiles b p m S" and T: "T \<subseteq> S"
    and ok: "\<And>B. B \<in> T' \<Longrightarrow> block_ok b p m B"
    and disj: "\<And>B C. B \<in> T' \<Longrightarrow> C \<in> T' \<Longrightarrow> B \<noteq> C \<Longrightarrow> region B \<inter> region C = {}"
    and same: "\<Union> (region ` T') = \<Union> (region ` T)"
  shows "tiles b p m (S - T \<union> T')"
proof -
  have mixed: "region B \<inter> region C = {}" if "B \<in> S - T" "C \<in> T'" for B C
  proof -
    have "region B \<inter> region D = {}" if "D \<in> T" for D
      using tiles_disjoint [OF t, of B D] that \<open>B \<in> S - T\<close> T by blast
    then have "region B \<inter> \<Union> (region ` T) = {}" by blast
    then show ?thesis using same \<open>C \<in> T'\<close> by blast
  qed
  have cover: "\<Union> (region ` (S - T \<union> T')) = \<Union> (region ` S)"
    using same T by blast
  show ?thesis
    unfolding tiles_def cover
  proof (intro conjI ballI impI)
    fix B assume "B \<in> S - T \<union> T'"
    then show "block_ok b p m B" using ok tiles_ok [OF t] by blast
  next
    fix B C assume "B \<in> S - T \<union> T'" "C \<in> S - T \<union> T'" "B \<noteq> C"
    then show "region B \<inter> region C = {}"
      using mixed [of B C] mixed [of C B] disj [of B C] tiles_disjoint [OF t, of B C] by blast
  next
    show "{b..<b + 2 ^ p} \<subseteq> \<Union> (region ` S)" using t by (simp add: tiles_def)
  qed
qed

text \<open>Membership in an aligned block is equality of the quotients.\<close>

lemma in_region_iff:
  assumes "b \<le> a" "2 ^ q dvd a - b" "b \<le> x"
  shows "x \<in> region (a, q) \<longleftrightarrow> (x - b) div 2 ^ q = (a - b) div 2 ^ q"
proof -
  obtain k where k: "a - b = k * 2 ^ q" using assms(2) by (metis dvd_def mult.commute)
  have d: "(0 :: nat) < 2 ^ q" by simp
  have "x \<in> region (a, q) \<longleftrightarrow> a - b \<le> x - b \<and> x - b < (a - b) + 2 ^ q"
    using assms(1,3) unfolding region_def atLeastLessThan_iff fst_conv snd_conv by linarith
  also have "\<dots> \<longleftrightarrow> k \<le> (x - b) div 2 ^ q \<and> (x - b) div 2 ^ q < Suc k"
    unfolding less_eq_div_iff_mult_less_eq [OF d] div_less_iff_less_mult [OF d] k by (simp add: add.commute)
  also have "\<dots> \<longleftrightarrow> (x - b) div 2 ^ q = k" by linarith
  also have "k = (a - b) div 2 ^ q" unfolding k by simp
  finally show ?thesis .
qed

lemma split_region: "region (a, Suc j) = region (a, j) \<union> region (a + 2 ^ j, j)"
  by (auto simp: region_def)

lemma halves_disjoint: "region (a, j) \<inter> region (a + 2 ^ j, j) = {}"
  by (auto simp: region_def)

lemma halves_ok:
  assumes "block_ok b p m (a, Suc j)" "m \<le> j"
  shows "block_ok b p m (a, j)" "block_ok b p m (a + 2 ^ j, j)"
proof -
  have "2 ^ Suc j dvd a - b"
    using assms(1) by (simp add: block_ok_def)
  then have "2 ^ j dvd a - b"
    by (rule dvd_trans [OF le_imp_power_dvd, rotated]) simp
  moreover have "a + 2 ^ j - b = (a - b) + 2 ^ j"
    using assms(1) by (simp add: block_ok_def)
  then have "2 ^ j dvd a + 2 ^ j - b"
    using \<open>2 ^ j dvd a - b\<close> by simp
  ultimately show "block_ok b p m (a, j)" "block_ok b p m (a + 2 ^ j, j)"
    using assms by (auto simp: block_ok_def)
qed

lemma tiles_split:
  assumes t: "tiles b p m S" and B: "(a, Suc j) \<in> S" and m: "m \<le> j"
  shows "tiles b p m (S - {(a, Suc j)} \<union> {(a, j), (a + 2 ^ j, j)})"
proof (rule tiles_replace [OF t])
  show "\<Union> (region ` {(a, j), (a + 2 ^ j, j)}) = \<Union> (region ` {(a, Suc j)})"
    by (simp add: split_region)
  show "region B \<inter> region C = {}"
    if "B \<in> {(a, j), (a + 2 ^ j, j)}" "C \<in> {(a, j), (a + 2 ^ j, j)}" "B \<noteq> C" for B C
    using that halves_disjoint [of a j] by (auto simp: Int_commute)
  show "block_ok b p m B" if "B \<in> {(a, j), (a + 2 ^ j, j)}" for B
    using that halves_ok [OF tiles_ok [OF t B] m] by auto
qed (use B in simp)

lemma tiles_join:
  assumes t: "tiles b p m S" and B: "(a, j) \<in> S" "(a + 2 ^ j, j) \<in> S"
    and al: "2 ^ Suc j dvd a - b" and p: "j < p"
  shows "tiles b p m (S - {(a, j), (a + 2 ^ j, j)} \<union> {(a, Suc j)})"
proof (rule tiles_replace [OF t])
  show "\<Union> (region ` {(a, Suc j)}) = \<Union> (region ` {(a, j), (a + 2 ^ j, j)})"
    by (simp add: split_region)
  show "block_ok b p m B" if "B \<in> {(a, Suc j)}" for B
    using that al p tiles_ok [OF t B(1)] tiles_ok [OF t B(2)] by (auto simp: block_ok_def)
qed (use B in auto)

text \<open>The address that differs from that of a block in the bit of its order.\<close>

lemma buddy_same_parent:
  fixes n :: nat
  assumes "j < q"
  shows "(n XOR 2 ^ j) div 2 ^ q = n div 2 ^ q"
proof -
  have "drop_bit q (n XOR 2 ^ j) = drop_bit q n XOR drop_bit q (2 ^ j)" by simp
  also have "drop_bit q (2 ^ j :: nat) = 0" using assms by (simp add: drop_bit_eq_div)
  finally show ?thesis by (simp add: drop_bit_eq_div)
qed

lemma buddy_aligned:
  fixes n :: nat
  assumes "2 ^ j dvd n"
  shows "2 ^ j dvd n XOR 2 ^ j"
proof -
  have "take_bit j n = 0" using assms by (simp add: take_bit_eq_mod)
  then have "take_bit j (n XOR 2 ^ j) = 0" by (simp add: take_bit_xor)
  then show ?thesis by (simp add: take_bit_eq_mod dvd_eq_mod_eq_0)
qed

lemma buddy_cases:
  fixes n :: nat
  assumes "2 ^ j dvd n"
  shows "(2 ^ Suc j dvd n \<and> n XOR 2 ^ j = n + 2 ^ j)
    \<or> (2 ^ j \<le> n \<and> 2 ^ Suc j dvd n - 2 ^ j \<and> n XOR 2 ^ j = n - 2 ^ j)"
proof -
  obtain k where k: "n = 2 ^ j * k" using assms by (rule dvdE)
  obtain l where l: "n XOR 2 ^ j = 2 ^ j * l" using buddy_aligned [OF assms] by (rule dvdE)
  have half: "(2 ^ j * x) div 2 ^ Suc j = x div 2" for x :: nat
    by simp
  have "k div 2 = l div 2"
    using buddy_same_parent [of j "Suc j" n] unfolding l unfolding k half by simp
  moreover have "bit (n XOR 2 ^ j) j \<noteq> bit n j"
    by (simp add: bit_xor_iff bit_exp_iff)
  then have "k \<noteq> l" using k l by metis
  ultimately have "even k \<and> l = Suc k \<or> odd k \<and> k = Suc l" by presburger
  then show ?thesis
  proof (elim disjE conjE)
    assume e: "even k" "l = Suc k"
    have "2 ^ Suc j dvd n" using e(1) unfolding k by (simp add: mult.commute mult_dvd_mono)
    moreover have "n XOR 2 ^ j = n + 2 ^ j" unfolding l unfolding k e(2) by simp
    ultimately show ?thesis by simp
  next
    assume o: "odd k" "k = Suc l"
    have n: "n = 2 ^ j * l + 2 ^ j" unfolding k o(2) by simp
    have "even l" using o by simp
    then have "2 ^ Suc j dvd 2 ^ j * l" by (simp add: mult.commute mult_dvd_mono)
    then have "2 ^ Suc j dvd n - 2 ^ j" unfolding n by simp
    moreover have "n XOR 2 ^ j = n - 2 ^ j" unfolding l unfolding n by simp
    moreover have "2 ^ j \<le> n" unfolding n by simp
    ultimately show ?thesis by simp
  qed
qed

lemma tiles_buddy_start:
  assumes t: "tiles b p m S" and B: "(a, j) \<in> S" and j: "j < p"
  obtains r where "(((a - b) XOR 2 ^ j) + b, r) \<in> S" "r \<le> j"
proof -
  define x where "x = ((a - b) XOR 2 ^ j) + b"
  have ok: "b \<le> a" "2 ^ j dvd a - b" "a + 2 ^ j \<le> b + 2 ^ p"
    using tiles_ok [OF t B] by (auto simp: block_ok_def)
  have par: "(x - b) div 2 ^ q = (a - b) div 2 ^ q" if "j < q" for q
    unfolding x_def using buddy_same_parent [OF that, of "a - b"] by simp
  have "a - b < 2 ^ p" using ok zero_less_power [of "2 :: nat" j] by linarith
  then have "(x - b) div 2 ^ p = 0" using par [OF j] by simp
  then have "x - b < 2 ^ p" by (simp add: div_eq_0_iff)
  then have "b \<le> x" "x < b + 2 ^ p" by (simp_all add: x_def)
  then obtain y q where yq: "(y, q) \<in> S" "x \<in> region (y, q)" using tiles_cover [OF t] by metis
  have oky: "b \<le> y" "2 ^ q dvd y - b" using tiles_ok [OF t yq(1)] by (auto simp: block_ok_def)
  have div: "(x - b) div 2 ^ q = (y - b) div 2 ^ q"
    using in_region_iff [OF oky \<open>b \<le> x\<close>] yq(2) by simp
  have q: "q \<le> j"
  proof (rule ccontr)
    assume "\<not> q \<le> j"
    then have "a \<in> region (y, q)" using in_region_iff [OF oky \<open>b \<le> a\<close>] div par [of q] by simp
    then show False using tiles_same_point [OF t yq(1) B, of a] \<open>\<not> q \<le> j\<close> by simp
  qed
  have "2 ^ j dvd x - b" using buddy_aligned [OF ok(2)] by (simp add: x_def)
  then have "2 ^ q dvd x - b" using q by (meson dvd_trans le_imp_power_dvd)
  then have "x - b = y - b" using div oky(2) by (metis dvd_mult_div_cancel)
  then have "x = y" using \<open>b \<le> x\<close> oky(1) by simp
  then show thesis using that yq(1) q by (simp add: x_def)
qed

section \<open>The invariant of a pool\<close>

text \<open>
  \<open>pool_inv mp A C\<close>: the free blocks, the blocks \<open>A\<close> held by the callers and the blocks
  \<open>C\<close> that an operation has in hand tile the pool. The tag bit at the start of a free block
  is set and its header holds its order; the tag bit at the start of a held block is clear. The
  tag bits inside blocks are unconstrained: the code leaves them set when it merges.
\<close>

definition free_blocks :: "buddy_mempool \<Rightarrow> (ptr \<times> nat) set" where
  "free_blocks mp = {(a, q). a \<in> set (avail mp q)}"

definition tag_at :: "buddy_mempool \<Rightarrow> ptr \<Rightarrow> bool" where
  "tag_at mp a = tag_bits mp ((a - base_addr mp) div 2 ^ min_order mp)"

definition pool_shape :: "buddy_mempool \<Rightarrow> bool" where
  "pool_shape mp \<longleftrightarrow> min_order mp \<le> pool_order mp \<and> pool_order mp < 64
    \<and> num_blocks mp = 2 ^ (pool_order mp - min_order mp)"

definition pool_inv :: "buddy_mempool \<Rightarrow> (ptr \<times> nat) set \<Rightarrow> (ptr \<times> nat) set \<Rightarrow> bool" where
  "pool_inv mp A C \<longleftrightarrow> pool_shape mp
    \<and> (\<forall>q. distinct (avail mp q))
    \<and> free_blocks mp \<inter> A = {} \<and> free_blocks mp \<inter> C = {} \<and> A \<inter> C = {}
    \<and> tiles (base_addr mp) (pool_order mp) (min_order mp) (free_blocks mp \<union> A \<union> C)
    \<and> (\<forall>a q. (a, q) \<in> free_blocks mp \<longrightarrow> tag_at mp a \<and> border mp a = q)
    \<and> (\<forall>a q. (a, q) \<in> A \<longrightarrow> \<not> tag_at mp a)"

abbreviation same_pool :: "buddy_mempool \<Rightarrow> buddy_mempool \<Rightarrow> bool" where
  "same_pool mp mp' \<equiv> base_addr mp' = base_addr mp \<and> pool_order mp' = pool_order mp
    \<and> min_order mp' = min_order mp \<and> num_blocks mp' = num_blocks mp"

lemma pool_invD:
  assumes "pool_inv mp A C"
  shows "pool_shape mp" "\<And>q. distinct (avail mp q)" "free_blocks mp \<inter> A = {}"
    "free_blocks mp \<inter> C = {}" "A \<inter> C = {}"
    "tiles (base_addr mp) (pool_order mp) (min_order mp) (free_blocks mp \<union> A \<union> C)"
    "\<And>a q. (a, q) \<in> free_blocks mp \<Longrightarrow> tag_at mp a"
    "\<And>a q. (a, q) \<in> free_blocks mp \<Longrightarrow> border mp a = q"
    "\<And>a q. (a, q) \<in> A \<Longrightarrow> \<not> tag_at mp a"
  using assms unfolding pool_inv_def by blast+

lemma pool_block_ok:
  assumes "pool_inv mp A C" "B \<in> free_blocks mp \<union> A \<union> C"
  shows "block_ok (base_addr mp) (pool_order mp) (min_order mp) B"
  using tiles_ok [OF pool_invD(6) [OF assms(1)] assms(2)] .

lemma block_to_id_ok:
  assumes s: "pool_shape mp" and B: "block_ok (base_addr mp) (pool_order mp) (min_order mp) (a, q)"
  shows "block_to_id mp a = Inr ((a - base_addr mp) div 2 ^ min_order mp)"
proof -
  have p: "(2 :: nat) ^ pool_order mp = 2 ^ (pool_order mp - min_order mp) * 2 ^ min_order mp"
    using s by (simp add: pool_shape_def flip: power_add)
  have "a - base_addr mp < 2 ^ pool_order mp"
    using B zero_less_power [of "2 :: nat" q] unfolding block_ok_def fst_conv snd_conv by linarith
  then have "(a - base_addr mp) div 2 ^ min_order mp < num_blocks mp"
    using s unfolding p by (simp add: pool_shape_def less_mult_imp_div_less)
  then show ?thesis using B by (simp add: block_to_id_def block_ok_def)
qed

lemma id_inj:
  assumes "block_ok b p m (a, q)" "block_ok b p m (a', q')"
    and "(a - b) div 2 ^ m = (a' - b) div 2 ^ m"
  shows "a = a'"
proof -
  have "2 ^ m dvd a - b" "2 ^ m dvd a' - b" "b \<le> a" "b \<le> a'"
    using assms(1,2) by (auto simp: block_ok_def intro: dvd_trans [OF le_imp_power_dvd])
  then have "a - b = a' - b" using assms(3) by (metis dvd_mult_div_cancel)
  then show ?thesis using \<open>b \<le> a\<close> \<open>b \<le> a'\<close> by simp
qed

text \<open>The tag bit of a block, written.\<close>

definition put_tag :: "buddy_mempool \<Rightarrow> ptr \<Rightarrow> bool \<Rightarrow> buddy_mempool" where
  "put_tag mp a v =
    mp\<lparr>tag_bits := (tag_bits mp)((a - base_addr mp) div 2 ^ min_order mp := v)\<rparr>"

lemma mark_ok:
  assumes "pool_shape mp" "block_ok (base_addr mp) (pool_order mp) (min_order mp) (a, q)"
  shows "mark_available mp a = Inr (put_tag mp a True)"
    and "mark_allocated mp a = Inr (put_tag mp a False)"
    and "is_available mp a = Inr (tag_at mp a)"
  using block_to_id_ok [OF assms]
  by (simp_all add: mark_available_def mark_allocated_def is_available_def put_tag_def tag_at_def)

lemma pool_fields [simp]:
  "base_addr (block_del mp a) = base_addr mp" "pool_order (block_del mp a) = pool_order mp"
  "min_order (block_del mp a) = min_order mp" "num_blocks (block_del mp a) = num_blocks mp"
  "border (block_del mp a) = border mp" "tag_at (block_del mp a) = tag_at mp"
  "base_addr (block_add mp a q) = base_addr mp" "pool_order (block_add mp a q) = pool_order mp"
  "min_order (block_add mp a q) = min_order mp" "num_blocks (block_add mp a q) = num_blocks mp"
  "border (block_add mp a q) = border mp" "tag_at (block_add mp a q) = tag_at mp"
  "base_addr (set_order mp a q) = base_addr mp" "pool_order (set_order mp a q) = pool_order mp"
  "min_order (set_order mp a q) = min_order mp" "num_blocks (set_order mp a q) = num_blocks mp"
  "border (set_order mp a q) = (border mp)(a := q)" "tag_at (set_order mp a q) = tag_at mp"
  "avail (set_order mp a q) = avail mp"
  "base_addr (put_tag mp a v) = base_addr mp" "pool_order (put_tag mp a v) = pool_order mp"
  "min_order (put_tag mp a v) = min_order mp" "num_blocks (put_tag mp a v) = num_blocks mp"
  "border (put_tag mp a v) = border mp" "avail (put_tag mp a v) = avail mp"
  by (simp_all add: block_del_def block_add_def set_order_def put_tag_def tag_at_def fun_eq_iff)

lemma pool_shape_fields [simp]:
  "pool_shape (block_del mp a) = pool_shape mp" "pool_shape (block_add mp a q) = pool_shape mp"
  "pool_shape (set_order mp a q) = pool_shape mp" "pool_shape (put_tag mp a v) = pool_shape mp"
  by (simp_all add: pool_shape_def)

lemma free_blocks_fields [simp]:
  "free_blocks (set_order mp a q) = free_blocks mp" "free_blocks (put_tag mp a v) = free_blocks mp"
  "free_blocks (block_add mp a q) = insert (a, q) (free_blocks mp)"
  by (auto simp: free_blocks_def block_add_def split: if_splits)

lemma free_blocks_del:
  assumes inv: "pool_inv mp A C" and B: "(a, j) \<in> free_blocks mp"
  shows "free_blocks (block_del mp a) = free_blocks mp - {(a, j)}"
proof -
  have "q = j" if "a \<in> set (avail mp q)" for q
    using tiles_same_start [OF pool_invD(6) [OF inv], of a q j] B that by (auto simp: free_blocks_def)
  then show ?thesis
    using pool_invD(2) [OF inv] by (auto simp: free_blocks_def block_del_def)
qed

lemma distinct_del [simp]: "(\<And>q. distinct (avail mp q)) \<Longrightarrow> distinct (avail (block_del mp a) q)"
  by (simp add: block_del_def)

lemma distinct_add:
  "(\<And>q. distinct (avail mp q)) \<Longrightarrow> (a, j) \<notin> free_blocks mp \<Longrightarrow> distinct (avail (block_add mp a j) q)"
  by (simp add: block_add_def free_blocks_def)

lemma put_tag_at:
  assumes "block_ok (base_addr mp) (pool_order mp) (min_order mp) (a, q)"
    and "block_ok (base_addr mp) (pool_order mp) (min_order mp) (x, r)"
  shows "tag_at (put_tag mp a v) x = (if x = a then v else tag_at mp x)"
  using id_inj [OF assms] by (auto simp: tag_at_def put_tag_def)

text \<open>The steps of the operations: taking a free block, splitting, merging, returning a block.\<close>

lemma take_block:
  assumes inv: "pool_inv mp A {}" and B: "(a, j) \<in> free_blocks mp"
  shows "pool_inv (put_tag (block_del mp a) a False) A {(a, j)}"
    and "\<not> tag_at (put_tag (block_del mp a) a False) a"
proof -
  let ?mp = "put_tag (block_del mp a) a False"
  note D = pool_invD [OF inv]
  have F: "free_blocks ?mp = free_blocks mp - {(a, j)}" by (simp add: free_blocks_del [OF inv B])
  have all: "free_blocks mp - {(a, j)} \<union> A \<union> {(a, j)} = free_blocks mp \<union> A \<union> {}" using B by auto
  have ok: "block_ok (base_addr mp) (pool_order mp) (min_order mp) (x, q)"
    if "(x, q) \<in> free_blocks mp \<union> A" for x q
    using pool_block_ok [OF inv, of "(x, q)"] that by simp
  have other: "x \<noteq> a" if "(x, q) \<in> free_blocks mp - {(a, j)}" for x q
    using tiles_same_start [OF D(6), of a q j] that B by auto
  have tag: "tag_at ?mp x = (if x = a then False else tag_at mp x)"
    if "(x, q) \<in> free_blocks mp \<union> A" for x q
    using put_tag_at [of "block_del mp a" a j x q False] ok [OF that] ok [of a j] B by simp
  have free: "tag_at ?mp x \<and> border mp x = q" if "(x, q) \<in> free_blocks mp - {(a, j)}" for x q
    using tag [of x q] other [OF that] that D(7,8) by auto
  have held: "\<not> tag_at ?mp x" if "(x, q) \<in> A" for x q
    using tag [of x q] D(9) [OF that] that by auto
  show "pool_inv ?mp A {(a, j)}"
    unfolding pool_inv_def F pool_fields pool_shape_fields all
    using D(1-6) B free held by auto
  show "\<not> tag_at ?mp a" using tag [of a j] B by simp
qed

lemma split_block:
  assumes inv: "pool_inv mp A {(a, Suc j)}" and j: "min_order mp \<le> j"
    and mp': "mp' = block_add (put_tag (set_order mp (a + 2 ^ j) j) (a + 2 ^ j) True) (a + 2 ^ j) j"
  shows "mark_available (set_order mp (a + 2 ^ j) j) (a + 2 ^ j)
      = Inr (put_tag (set_order mp (a + 2 ^ j) j) (a + 2 ^ j) True)"
    and "pool_inv mp' A {(a, j)}"
    and "tag_at mp' a = tag_at mp a"
proof -
  let ?b = "a + 2 ^ j"
  let ?ok = "block_ok (base_addr mp) (pool_order mp) (min_order mp)"
  note D = pool_invD [OF inv]
  have ok: "?ok (a, Suc j)" using pool_block_ok [OF inv] by simp
  note oks = halves_ok [OF ok j]
  show m: "mark_available (set_order mp ?b j) ?b = Inr (put_tag (set_order mp ?b j) ?b True)"
    using mark_ok(1) [of "set_order mp ?b j" ?b j] oks(2) D(1) by simp
  have tag: "tag_at mp' x = (if x = ?b then True else tag_at mp x)" if "?ok (x, q)" for x q
    unfolding mp' using put_tag_at [of "set_order mp ?b j" ?b j x q True] oks(2) that by simp
  show "tag_at mp' a = tag_at mp a" using tag [OF oks(1)] by simp
  have notb: "x \<noteq> ?b" if "(x, q) \<in> free_blocks mp \<union> A" for x q
  proof
    assume "x = ?b"
    then have "(x, q) = (a, Suc j)"
      using tiles_same_point [OF D(6), of "(x, q)" "(a, Suc j)" ?b] that
      by (simp add: split_region)
    then show False using that D(4,5) by auto
  qed
  have nota: "(a, j) \<notin> free_blocks mp \<union> A"
    using tiles_same_start [OF D(6), of a j "Suc j"] by auto
  have all: "insert (?b, j) (free_blocks mp) \<union> A \<union> {(a, j)}
      = free_blocks mp \<union> A \<union> {(a, Suc j)} - {(a, Suc j)} \<union> {(a, j), (?b, j)}"
    using D(4,5) by auto
  have t: "tiles (base_addr mp) (pool_order mp) (min_order mp)
      (insert (?b, j) (free_blocks mp) \<union> A \<union> {(a, j)})"
    unfolding all using tiles_split [OF D(6) _ j, of a] by simp
  have d: "distinct (avail mp' q)" for q
    unfolding mp' using distinct_add [of "put_tag (set_order mp ?b j) ?b True" ?b j q] D(2) notb [of ?b j]
    by auto
  have F: "free_blocks mp' = insert (?b, j) (free_blocks mp)" by (simp add: mp')
  have okx: "?ok (x, q)" if "(x, q) \<in> free_blocks mp \<union> A" for x q
    using pool_block_ok [OF inv, of "(x, q)"] that by auto
  have free: "tag_at mp' x \<and> border mp' x = q" if "(x, q) \<in> insert (?b, j) (free_blocks mp)" for x q
  proof (cases "(x, q) = (?b, j)")
    case True
    then show ?thesis using tag [OF oks(2)] by (simp add: mp')
  next
    case False
    then have x: "(x, q) \<in> free_blocks mp" using that by auto
    then show ?thesis using tag [OF okx, of x q] notb [of x q] D(7,8) [OF x] by (simp add: mp')
  qed
  have held: "\<not> tag_at mp' x" if "(x, q) \<in> A" for x q
    using tag [OF okx [of x q]] notb [of x q] D(9) [OF that] that by simp
  have fields: "pool_shape mp'" "base_addr mp' = base_addr mp" "pool_order mp' = pool_order mp"
    "min_order mp' = min_order mp"
    using D(1) by (simp_all add: mp')
  show "pool_inv mp' A {(a, j)}"
    unfolding pool_inv_def F fields(2-4) using fields(1) d t free held D(3) notb [of ?b j] nota by auto
qed

lemma merge_blocks:
  assumes inv: "pool_inv mp A {(a, j)}" and j: "j < pool_order mp"
    and x: "x = ((a - base_addr mp) XOR 2 ^ j) + base_addr mp" and B: "(x, j) \<in> free_blocks mp"
    and l: "l = (if x < a then x else a)"
  shows "pool_inv (set_order (block_del mp x) l (Suc j)) A {(l, Suc j)}"
proof -
  let ?b = "base_addr mp"
  let ?mp = "set_order (block_del mp x) l (Suc j)"
  note D = pool_invD [OF inv]
  have ok: "?b \<le> a" "2 ^ j dvd a - ?b"
    using pool_block_ok [OF inv, of "(a, j)"] by (auto simp: block_ok_def)
  have lo: "{(l, j), (l + 2 ^ j, j)} = {(a, j), (x, j)} \<and> 2 ^ Suc j dvd l - ?b"
    using buddy_cases [OF ok(2)]
  proof (elim disjE conjE)
    assume u: "2 ^ Suc j dvd a - ?b" "(a - ?b) XOR 2 ^ j = a - ?b + 2 ^ j"
    have "x = a + 2 ^ j" using u(2) ok(1) by (simp add: x)
    then show ?thesis using u(1) by (simp add: l)
  next
    assume u: "2 ^ j \<le> a - ?b" "2 ^ Suc j dvd a - ?b - 2 ^ j" "(a - ?b) XOR 2 ^ j = a - ?b - 2 ^ j"
    have "a = x + 2 ^ j" using u(1,3) ok(1) by (simp add: x)
    then show ?thesis using u(2) ok(1) by (auto simp: l)
  qed
  have F: "free_blocks ?mp = free_blocks mp - {(x, j)}" by (simp add: free_blocks_del [OF inv B])
  have in_l: "(l, j) \<in> free_blocks mp \<union> A \<union> {(a, j)}" "(l + 2 ^ j, j) \<in> free_blocks mp \<union> A \<union> {(a, j)}"
    using lo B by auto
  have all: "free_blocks mp - {(x, j)} \<union> A \<union> {(l, Suc j)}
      = free_blocks mp \<union> A \<union> {(a, j)} - {(l, j), (l + 2 ^ j, j)} \<union> {(l, Suc j)}"
    using lo D(3,4,5) B by auto
  have t: "tiles ?b (pool_order mp) (min_order mp) (free_blocks mp - {(x, j)} \<union> A \<union> {(l, Suc j)})"
    unfolding all using tiles_join [OF D(6) in_l _ j] lo by simp
  have notl: "(l, Suc j) \<notin> free_blocks mp \<union> A"
    using tiles_same_start [OF D(6) in_l(1), of "Suc j"] by auto
  have start: "y \<noteq> l" if "(y, q) \<in> free_blocks mp - {(x, j)}" for y q
  proof
    assume "y = l"
    then have "q = j" using tiles_same_start [OF D(6) in_l(1), of q] that by simp
    then show False using that lo \<open>y = l\<close> D(4) by auto
  qed
  have free: "tag_at mp y \<and> border ?mp y = q" if "(y, q) \<in> free_blocks mp - {(x, j)}" for y q
    using start [OF that] D(7,8) [of y q] that by simp
  show ?thesis
    unfolding pool_inv_def F using D(1-5,9) t free notl by auto
qed

lemma return_block:
  assumes inv: "pool_inv mp A {(a, j)}"
  shows "mark_available (set_order mp a j) a = Inr (put_tag (set_order mp a j) a True)"
    and "pool_inv (block_add (put_tag (set_order mp a j) a True) a j) A {}"
proof -
  let ?mp = "block_add (put_tag (set_order mp a j) a True) a j"
  let ?ok = "block_ok (base_addr mp) (pool_order mp) (min_order mp)"
  note D = pool_invD [OF inv]
  have ok: "?ok (a, j)" using pool_block_ok [OF inv] by simp
  show "mark_available (set_order mp a j) a = Inr (put_tag (set_order mp a j) a True)"
    using mark_ok(1) [of "set_order mp a j" a j] ok D(1) by simp
  have tag: "tag_at ?mp x = (if x = a then True else tag_at mp x)" if "?ok (x, q)" for x q
    using put_tag_at [of "set_order mp a j" a j x q True] ok that by simp
  have okx: "?ok (x, q)" if "(x, q) \<in> free_blocks mp \<union> A" for x q
    using pool_block_ok [OF inv, of "(x, q)"] that by auto
  have nota: "x \<noteq> a" if "(x, q) \<in> free_blocks mp \<union> A" for x q
    using tiles_same_start [OF D(6), of a q j] that D(4,5) by auto
  have F: "free_blocks ?mp = insert (a, j) (free_blocks mp)" by simp
  have all: "insert (a, j) (free_blocks mp) \<union> A \<union> {} = free_blocks mp \<union> A \<union> {(a, j)}" by auto
  have free: "tag_at ?mp x \<and> border ?mp x = q" if "(x, q) \<in> insert (a, j) (free_blocks mp)" for x q
  proof (cases "x = a")
    case True
    then show ?thesis using tag [OF ok] that nota [of x q] by auto
  next
    case False
    then show ?thesis using tag [OF okx, of x q] D(7,8) [of x q] that by auto
  qed
  have held: "\<not> tag_at ?mp x" if "(x, q) \<in> A" for x q
    using tag [OF okx, of x q] nota [of x q] D(9) [OF that] that by auto
  have d: "distinct (avail ?mp q)" for q
    using distinct_add [of "put_tag (set_order mp a j) a True" a j q] D(2,4) by auto
  show "pool_inv ?mp A {}"
    unfolding pool_inv_def F all pool_fields using D(1,3,5,6) d free held by auto
qed

lemma hand_over:
  assumes "pool_inv mp A {B}" "\<not> tag_at mp (fst B)"
  shows "pool_inv mp (insert B A) {}"
proof -
  have "free_blocks mp \<union> insert B A \<union> {} = free_blocks mp \<union> A \<union> {B}" by auto
  then show ?thesis
    using assms unfolding pool_inv_def by (cases B) auto
qed

lemma take_back:
  assumes "pool_inv mp A {}" "B \<in> A"
  shows "pool_inv mp (A - {B}) {B}"
proof -
  have "free_blocks mp \<union> (A - {B}) \<union> {B} = free_blocks mp \<union> A \<union> {}" using assms(2) by auto
  then show ?thesis
    using assms unfolding pool_inv_def by auto
qed

section \<open>The operations keep the invariant\<close>

text \<open>A pool is coalesced when no two buddies are both free.\<close>

definition buddy_of :: "buddy_mempool \<Rightarrow> ptr \<Rightarrow> nat \<Rightarrow> ptr" where
  "buddy_of mp a j = ((a - base_addr mp) XOR 2 ^ j) + base_addr mp"

definition coalesced :: "buddy_mempool \<Rightarrow> bool" where
  "coalesced mp \<longleftrightarrow> (\<forall>a j. (a, j) \<in> free_blocks mp \<longrightarrow> j < pool_order mp
    \<longrightarrow> (buddy_of mp a j, j) \<notin> free_blocks mp)"

lemma buddy_of_buddy: "base_addr mp \<le> a \<Longrightarrow> buddy_of mp (buddy_of mp a j) j = a"
  by (simp add: buddy_of_def xor.assoc)

lemma buddy_of_ne: "base_addr mp \<le> a \<Longrightarrow> buddy_of mp a j \<noteq> a"
proof
  assume a: "base_addr mp \<le> a" "buddy_of mp a j = a"
  then have "(a - base_addr mp) XOR 2 ^ j = a - base_addr mp" unfolding buddy_of_def by linarith
  then have "bit ((a - base_addr mp) XOR 2 ^ j) j = bit (a - base_addr mp) j" by simp
  then show False by (simp add: bit_xor_iff bit_exp_iff)
qed

lemma buddy_of_lower:
  assumes "2 ^ Suc j dvd a - base_addr mp" "base_addr mp \<le> a"
  shows "buddy_of mp a j = a + 2 ^ j"
proof -
  have "2 ^ j dvd a - base_addr mp" using assms(1) by (rule dvd_trans [OF le_imp_power_dvd, rotated]) simp
  moreover have "\<not> 2 ^ Suc j dvd a - base_addr mp - 2 ^ j" if "2 ^ j \<le> a - base_addr mp"
  proof
    assume "2 ^ Suc j dvd a - base_addr mp - 2 ^ j"
    then have "2 ^ Suc j dvd (a - base_addr mp) - (a - base_addr mp - 2 ^ j)"
      using assms(1) by (rule dvd_diff_nat [rotated])
    moreover have "(a - base_addr mp) - (a - base_addr mp - 2 ^ j) = 2 ^ j" using that by linarith
    ultimately have "(2 :: nat) ^ Suc j dvd 2 ^ j" by metis
    then have "Suc j \<le> j" by (rule power_dvd_imp_le) simp
    then show False by simp
  qed
  ultimately show ?thesis using buddy_cases assms(2) by (fastforce simp: buddy_of_def)
qed

lemma coalesced_add:
  assumes "coalesced mp" "free_blocks mp' = insert (a, j) (free_blocks mp)" "same_pool mp mp'"
    and "(buddy_of mp a j, j) \<notin> free_blocks mp \<or> j = pool_order mp" "base_addr mp \<le> a"
    and "\<And>x q. (x, q) \<in> free_blocks mp \<Longrightarrow> base_addr mp \<le> x"
  shows "coalesced mp'"
proof -
  have b: "buddy_of mp' x q = buddy_of mp x q" for x q using assms(3) by (simp add: buddy_of_def)
  show ?thesis
    unfolding coalesced_def b
  proof (intro allI impI notI)
    fix x q
    assume x: "(x, q) \<in> free_blocks mp'" "q < pool_order mp'" "(buddy_of mp x q, q) \<in> free_blocks mp'"
    show False
    proof (cases "(x, q) = (a, j)")
      case True
      then show False using x assms(2-5) buddy_of_ne [of mp a j] by auto
    next
      case False
      then have "(x, q) \<in> free_blocks mp" using x(1) assms(2) by auto
      moreover from this have "buddy_of mp x q = a \<Longrightarrow> buddy_of mp a q = x"
        using buddy_of_buddy assms(6) by blast
      ultimately show False using x assms(1-4) by (auto simp: coalesced_def)
    qed
  qed
qed

lemma coalesced_subset:
  assumes "coalesced mp" "free_blocks mp' \<subseteq> free_blocks mp" "same_pool mp mp'"
  shows "coalesced mp'"
  using assms by (fastforce simp: coalesced_def buddy_of_def)

lemma pool_base: "pool_inv mp A C \<Longrightarrow> (x, q) \<in> free_blocks mp \<union> A \<union> C \<Longrightarrow> base_addr mp \<le> x"
  using pool_block_ok [of mp A C "(x, q)"] by (simp add: block_ok_def)

lemma buddy_trim_ok:
  assumes "pool_inv mp A {(a, j)}" "min_order mp \<le> order" "order \<le> j" "\<not> tag_at mp a"
  shows "\<exists>mp'. buddy_trim mp a order j = Inr mp' \<and> pool_inv mp' A {(a, order)}
    \<and> \<not> tag_at mp' a \<and> same_pool mp mp' \<and> (coalesced mp \<longrightarrow> coalesced mp')"
  using assms
proof (induction j arbitrary: mp)
  case 0
  then show ?case by auto
next
  case (Suc j)
  show ?case
  proof (cases "order = Suc j")
    case True
    then show ?thesis using Suc.prems by auto
  next
    case False
    then have o: "order \<le> j" using Suc.prems(3) by simp
    then have m: "min_order mp \<le> j" using Suc.prems(2) by simp
    let ?b = "a + 2 ^ j"
    let ?mp = "block_add (put_tag (set_order mp ?b j) ?b True) ?b j"
    note S = split_block [OF Suc.prems(1) m refl]
    have ok: "base_addr mp \<le> a" "2 ^ Suc j dvd a - base_addr mp"
      using pool_block_ok [OF Suc.prems(1), of "(a, Suc j)"] by (auto simp: block_ok_def)
    have bb: "buddy_of mp ?b j = a"
      using buddy_of_buddy [OF ok(1), of j] buddy_of_lower [OF ok(2,1)] by simp
    have "(a, j) \<notin> free_blocks mp" using pool_invD(4) [OF S(2)] by auto
    then have co: "coalesced mp \<Longrightarrow> coalesced ?mp"
      using coalesced_add [of mp ?mp ?b j] bb ok(1) pool_base [OF Suc.prems(1)] by auto
    obtain mp' where "buddy_trim ?mp a order j = Inr mp'" "pool_inv mp' A {(a, order)}"
      "\<not> tag_at mp' a" "same_pool ?mp mp'" "coalesced ?mp \<longrightarrow> coalesced mp'"
      using Suc.IH [OF S(2) _ o] S(3) Suc.prems(2,4) by auto
    then show ?thesis using o S(1) co by auto
  qed
qed

lemma buddy_coalesce_ok:
  assumes "pool_inv mp A {(a, j)}" "j \<le> pool_order mp"
  shows "\<exists>mp' a' j'. buddy_coalesce (pool_order mp) mp a j = Inr (mp', a', j')
    \<and> pool_inv mp' A {(a', j')} \<and> same_pool mp mp' \<and> j' \<le> pool_order mp
    \<and> (coalesced mp \<longrightarrow> coalesced mp' \<and> ((buddy_of mp' a' j', j') \<notin> free_blocks mp' \<or> j' = pool_order mp))"
  using assms
proof (induction "pool_order mp - j" arbitrary: mp a j)
  case 0
  then have "buddy_coalesce (pool_order mp) mp a j = Inr (mp, a, j)" by (subst buddy_coalesce.simps) simp
  then show ?case using 0 by simp
next
  case (Suc n)
  then have j: "j < pool_order mp" by simp
  let ?x = "buddy_of mp a j"
  define l where "l = (if ?x < a then ?x else a)"
  define mp1 where "mp1 = set_order (block_del mp ?x) l (Suc j)"
  note D = pool_invD [OF Suc.prems(1)]
  have ba: "base_addr mp \<le> a" using pool_base [OF Suc.prems(1), of a j] by simp
  obtain r where r: "(?x, r) \<in> free_blocks mp \<union> A \<union> {(a, j)}" "r \<le> j"
    using tiles_buddy_start [OF D(6), of a j] j by (auto simp: buddy_of_def)
  then have r': "(?x, r) \<in> free_blocks mp \<union> A" using buddy_of_ne [OF ba, of j] by auto
  have av: "is_available mp ?x = Inr (tag_at mp ?x)"
    using mark_ok(3) [OF D(1) pool_block_ok [OF Suc.prems(1) r(1)]] .
  have free: "(?x, j) \<in> free_blocks mp" if "tag_at mp ?x" "border mp ?x = j"
    using r' D(8,9) that by auto
  have step: "buddy_coalesce (pool_order mp) mp a j =
      (if tag_at mp ?x \<and> border mp ?x = j then buddy_coalesce (pool_order mp) mp1 l (Suc j)
       else Inr (mp, a, j))"
    by (subst buddy_coalesce.simps)
      (use j ba av in \<open>simp add: find_buddy_def Let_def l_def mp1_def flip: buddy_of_def\<close>)
  show ?case
  proof (cases "tag_at mp ?x \<and> border mp ?x = j")
    case True
    then have f: "(?x, j) \<in> free_blocks mp" using free by simp
    have inv: "pool_inv mp1 A {(l, Suc j)}"
      unfolding mp1_def using merge_blocks [OF Suc.prems(1) j _ f l_def] by (simp add: buddy_of_def)
    have same: "same_pool mp mp1" by (simp add: mp1_def)
    have co: "coalesced mp \<Longrightarrow> coalesced mp1"
      using coalesced_subset [of mp mp1] free_blocks_del [OF Suc.prems(1) f] by (simp add: mp1_def)
    have "n = pool_order mp1 - Suc j" "Suc j \<le> pool_order mp1" using Suc.hyps(2) j same by simp_all
    from Suc.hyps(1) [OF this(1) inv this(2)] show ?thesis
      unfolding step if_P [OF True] using same co by auto
  next
    case False
    then have "(?x, j) \<notin> free_blocks mp" using D(7,8) by blast
    then show ?thesis using Suc.prems unfolding step if_not_P [OF False] by simp
  qed
qed

lemma buddy_search_ok:
  assumes "pool_inv mp A {}" "min_order mp \<le> order" "order \<le> j" "\<forall>q. NULL \<notin> set (avail mp q)"
  shows "\<exists>a mp'. buddy_search mp order j = Inr (a, mp') \<and> same_pool mp mp'
    \<and> (coalesced mp \<longrightarrow> coalesced mp')
    \<and> (if a = NULL then mp' = mp \<and> (\<forall>q \<ge> j. avail mp q = [])
       else pool_inv mp' (insert (a, order) A) {} \<and> (a, order) \<notin> A
         \<and> (\<exists>q \<ge> j. a \<in> set (avail mp q)))"
  using assms
proof (induction "Suc (pool_order mp) - j" arbitrary: j)
  case 0
  then have j: "pool_order mp < j" by simp
  have "avail mp q = []" if "j \<le> q" for q
  proof (rule ccontr)
    assume "avail mp q \<noteq> []"
    then have "(hd (avail mp q), q) \<in> free_blocks mp" by (simp add: free_blocks_def)
    then show False using pool_block_ok [OF assms(1), of "(hd (avail mp q), q)"] j that by (simp add: block_ok_def)
  qed
  then show ?case using j by (subst buddy_search.simps) simp
next
  case (Suc n)
  then have j: "j \<le> pool_order mp" by simp
  show ?case
  proof (cases "avail mp j")
    case Nil
    have "\<forall>q \<ge> j. avail mp q = []" if "\<forall>q \<ge> Suc j. avail mp q = []"
      using that Nil by (metis le_antisym not_less_eq_eq)
    then show ?thesis
      using Suc.hyps(1) [of "Suc j"] Suc.hyps(2) Suc.prems j Nil
      by (subst buddy_search.simps) (fastforce dest: Suc_leD split: if_splits)
  next
    case (Cons a as)
    then have a: "(a, j) \<in> free_blocks mp" "a \<in> set (avail mp j)" by (simp_all add: free_blocks_def)
    let ?mp = "put_tag (block_del mp a) a False"
    note T = take_block [OF Suc.prems(1) a(1)]
    have m: "mark_allocated (block_del mp a) a = Inr ?mp"
      using mark_ok(2) [of "block_del mp a" a j] pool_block_ok [OF Suc.prems(1), of "(a, j)"]
        pool_invD(1) [OF Suc.prems(1)] a by simp
    have co: "coalesced mp \<Longrightarrow> coalesced ?mp"
      using coalesced_subset [of mp ?mp] free_blocks_del [OF Suc.prems(1) a(1)] by simp
    obtain mp' where "buddy_trim ?mp a order j = Inr mp'" "pool_inv mp' A {(a, order)}"
      "\<not> tag_at mp' a" "same_pool ?mp mp'" "coalesced ?mp \<longrightarrow> coalesced mp'"
      using buddy_trim_ok [OF T(1) _ Suc.prems(3) T(2)] Suc.prems(2) by auto
    moreover from this have "pool_inv mp' (insert (a, order) A) {}" "(a, order) \<notin> A"
      using hand_over [of mp' A "(a, order)"] pool_invD(5) [of mp' A "{(a, order)}"] by auto
    moreover have "a \<noteq> NULL" using Suc.prems(4) a(2) by metis
    ultimately show ?thesis
      using j Cons m co a(2) by (subst buddy_search.simps) auto
  qed
qed

lemma buddy_alloc_search:
  "order \<le> pool_order mp \<Longrightarrow>
    buddy_alloc mp order = buddy_search mp (max order (min_order mp)) (max order (min_order mp))"
  by (simp add: buddy_alloc_def max_def Let_def)

lemma buddy_free_ok:
  assumes inv: "pool_inv mp A {}" and B: "(a, q) \<in> A" and q: "q = max order (min_order mp)"
    and al: "2 ^ order dvd a" and o: "order \<le> pool_order mp"
  shows "\<exists>mp'. buddy_free mp a order = Inr mp' \<and> pool_inv mp' (A - {(a, q)}) {} \<and> same_pool mp mp'
    \<and> (coalesced mp \<longrightarrow> coalesced mp')"
proof -
  note D = pool_invD [OF inv]
  have ok: "block_ok (base_addr mp) (pool_order mp) (min_order mp) (a, q)"
    using pool_block_ok [OF inv, of "(a, q)"] B by simp
  have qp: "q \<le> pool_order mp" using ok by (simp add: block_ok_def)
  have range: "base_addr mp \<le> a" "a < base_addr mp + 2 ^ pool_order mp"
    using ok zero_less_power [of "2 :: nat" q] unfolding block_ok_def fst_conv snd_conv by linarith+
  have av: "is_available mp a = Inr False" using mark_ok(3) [OF D(1) ok] D(9) [OF B] by simp
  obtain mp1 b r where C: "buddy_coalesce (pool_order mp) mp a q = Inr (mp1, b, r)"
    "pool_inv mp1 (A - {(a, q)}) {(b, r)}" "same_pool mp mp1" "r \<le> pool_order mp"
    "coalesced mp \<longrightarrow> coalesced mp1 \<and> ((buddy_of mp1 b r, r) \<notin> free_blocks mp1 \<or> r = pool_order mp)"
    using buddy_coalesce_ok [OF take_back [OF inv B] qp] by auto
  let ?mp = "block_add (put_tag (set_order mp1 b r) b True) b r"
  note R = return_block [OF C(2)]
  have "r < 2 ^ 64 - 1" using C(4) D(1) by (simp add: pool_shape_def)
  moreover have "(if order < min_order mp then min_order mp else order) = q" using q by simp
  ultimately have "buddy_free mp a order = Inr ?mp"
    using o al range av C(1) qp R(1) by (simp add: buddy_free_def Let_def)
  moreover have "coalesced ?mp" if "coalesced mp"
    using coalesced_add [of mp1 ?mp b r] C(3,5) that pool_base [OF C(2)] by auto
  ultimately show ?thesis using R(2) C(3) by simp
qed

section \<open>The free blocks are determined by the held ones\<close>

lemma no_block_inside:
  assumes inv: "pool_inv mp A {}" and co: "coalesced mp"
    and Y: "block_ok (base_addr mp) (pool_order mp) (min_order mp) (y, r)"
    and disj: "\<And>B. B \<in> A \<Longrightarrow> region (y, r) \<inter> region B = {}"
    and B: "(a, j) \<in> free_blocks mp" "a \<in> region (y, r)" "j < r"
  shows False
proof -
  let ?b = "base_addr mp"
  define P where "P q \<longleftrightarrow> (\<exists>x. (x, q) \<in> free_blocks mp \<and> x \<in> region (y, r) \<and> q < r)" for q
  have "P j" using B by (auto simp: P_def)
  define q where "q = (LEAST q. P q)"
  have least: "P q" "\<And>s. P s \<Longrightarrow> q \<le> s"
    unfolding q_def using \<open>P j\<close> by (auto intro: LeastI Least_le)
  obtain x where x: "(x, q) \<in> free_blocks mp" "x \<in> region (y, r)" "q < r" using least(1) by (auto simp: P_def)
  have ry: "?b \<le> y" "2 ^ r dvd y - ?b" "r \<le> pool_order mp" using Y by (auto simp: block_ok_def)
  have bx: "?b \<le> x" using pool_base [OF inv, of x q] x by simp
  let ?z = "buddy_of mp x q"
  have "(?z - ?b) div 2 ^ r = (x - ?b) div 2 ^ r"
    using buddy_same_parent [OF x(3), of "x - ?b"] by (simp add: buddy_of_def)
  moreover have "?b \<le> ?z" by (simp add: buddy_of_def)
  ultimately have z: "?z \<in> region (y, r)"
    using x(2) in_region_iff [OF ry(1,2) bx] in_region_iff [OF ry(1,2), of ?z] by simp
  obtain s where s: "(?z, s) \<in> free_blocks mp \<union> A \<union> {}" "s \<le> q"
    using tiles_buddy_start [OF pool_invD(6) [OF inv], of x q] x ry(3) by (auto simp: buddy_of_def)
  have "(?z, s) \<notin> A" using disj [of "(?z, s)"] z start_in_region [of ?z s] by blast
  then have f: "(?z, s) \<in> free_blocks mp" using s(1) by auto
  then have "P s" using z s(2) x(3) by (auto simp: P_def)
  then have "s = q" using least(2) s(2) by (simp add: le_antisym)
  then show False using f co x(1,3) ry(3) by (auto simp: coalesced_def)
qed

lemma free_blocks_subset:
  assumes inv: "pool_inv mp A {}" "pool_inv mp' A {}" and co: "coalesced mp" "coalesced mp'"
    and same: "same_pool mp mp'"
  shows "free_blocks mp \<subseteq> free_blocks mp'"
proof
  fix B assume "B \<in> free_blocks mp"
  then obtain a j where B: "B = (a, j)" "(a, j) \<in> free_blocks mp" by (cases B) auto
  note t = pool_invD(6) [OF inv(1)] and t' = pool_invD(6) [OF inv(2)]
  have ok: "block_ok (base_addr mp) (pool_order mp) (min_order mp) (a, j)"
    using pool_block_ok [OF inv(1)] B by blast
  then have "base_addr mp \<le> a" "a < base_addr mp + 2 ^ pool_order mp"
    using zero_less_power [of "2 :: nat" j] unfolding block_ok_def fst_conv snd_conv by linarith+
  then obtain y r where Y: "(y, r) \<in> free_blocks mp' \<union> A \<union> {}" "a \<in> region (y, r)"
    using tiles_cover [OF t', of a] same by metis
  have "(y, r) \<notin> A"
  proof
    assume "(y, r) \<in> A"
    then have "(y, r) = (a, j)" using tiles_same_point [OF t, of "(y, r)" "(a, j)" a] B(2) Y(2) by simp
    then show False using \<open>(y, r) \<in> A\<close> B(2) pool_invD(3) [OF inv(1)] by auto
  qed
  then have Y': "(y, r) \<in> free_blocks mp'" using Y(1) by simp
  have oky: "block_ok (base_addr mp) (pool_order mp) (min_order mp) (y, r)"
    using pool_block_ok [OF inv(2), of "(y, r)"] Y(1) same by simp
  have disj: "region C \<inter> region D = {}" if "C \<in> free_blocks mp" "D \<in> A" for C D
    using tiles_disjoint [OF t, of C D] that pool_invD(3) [OF inv(1)] by auto
  have disj': "region C \<inter> region D = {}" if "C \<in> free_blocks mp'" "D \<in> A" for C D
    using tiles_disjoint [OF t', of C D] that pool_invD(3) [OF inv(2)] by auto
  have "\<not> j < r" using no_block_inside [OF inv(1) co(1) oky disj' [OF Y'] B(2) Y(2)] by auto
  then have rj: "r \<le> j" by simp
  have "a - base_addr mp = y - base_addr mp"
  proof -
    have "2 ^ r dvd a - base_addr mp" "2 ^ r dvd y - base_addr mp" "base_addr mp \<le> y"
      using ok oky rj by (auto simp: block_ok_def intro: dvd_trans [OF le_imp_power_dvd])
    moreover from this have "(a - base_addr mp) div 2 ^ r = (y - base_addr mp) div 2 ^ r"
      using in_region_iff [of "base_addr mp" y r a] Y(2) ok by (simp add: block_ok_def)
    ultimately show ?thesis by (metis dvd_mult_div_cancel)
  qed
  then have ya: "y = a" using ok oky unfolding block_ok_def fst_conv by linarith
  have "\<not> r < j"
    using no_block_inside [OF inv(2) co(2) _ disj [OF B(2)], of a r] ok same Y' ya by auto
  then show "B \<in> free_blocks mp'" using rj Y' ya B(1) by simp
qed

text \<open>After the release of an allocated block the pool has the free blocks it had before.\<close>

lemma alloc_free_blocks:
  assumes "pool_inv mp A {}" "coalesced mp" "pool_inv mp2 A {}" "coalesced mp2" "same_pool mp mp2"
  shows "free_blocks mp2 = free_blocks mp"
  using free_blocks_subset [OF assms(1,3,2,4)] free_blocks_subset [OF assms(3,1,4,2)] assms(5) by auto

section \<open>The bytes of a pool\<close>

definition bytes :: "(ptr \<times> nat) set \<Rightarrow> nat" where
  "bytes S = (\<Sum>B\<in>S. 2 ^ snd B)"

lemma tiles_finite: "tiles b p m S \<Longrightarrow> finite S"
  by (rule finite_subset [of _ "{b .. b + 2 ^ p} \<times> {..p}"])
    (fastforce simp: tiles_def block_ok_def)+

lemma tiles_bytes:
  assumes t: "tiles b p m S"
  shows "bytes S = 2 ^ p"
proof -
  have "bytes S = (\<Sum>B\<in>S. card (region B))" by (simp add: bytes_def region_def)
  also have "\<dots> = card (\<Union> (region ` S))"
    by (rule card_UN_disjoint [symmetric])
      (use tiles_finite [OF t] tiles_disjoint [OF t] in \<open>auto simp: region_def\<close>)
  also have "\<Union> (region ` S) = {b ..< b + 2 ^ p}"
    using t by (fastforce simp: tiles_def block_ok_def region_def)
  finally show ?thesis by simp
qed

lemma free_bytes:
  assumes inv: "pool_inv mp A {}"
  shows "(\<Sum>q = min_order mp..pool_order mp. length (avail mp q) * 2 ^ q) + bytes A = 2 ^ pool_order mp"
proof -
  let ?L = "SIGMA q : {min_order mp..pool_order mp}. set (avail mp q)"
  note D = pool_invD [OF inv]
  have ord: "min_order mp \<le> q \<and> q \<le> pool_order mp" if "a \<in> set (avail mp q)" for a q
    using pool_block_ok [OF inv, of "(a, q)"] that by (simp add: free_blocks_def block_ok_def)
  have F: "free_blocks mp = prod.swap ` ?L"
    using ord by (force simp: free_blocks_def)
  have "bytes (free_blocks mp) = (\<Sum>B\<in>?L. 2 ^ fst B)"
    unfolding F bytes_def by (subst sum.reindex) (auto simp: inj_on_def)
  also have "\<dots> = (\<Sum>q = min_order mp..pool_order mp. \<Sum>a\<in>set (avail mp q). 2 ^ q)"
    by (subst sum.Sigma) (auto simp: case_prod_unfold)
  also have "\<dots> = (\<Sum>q = min_order mp..pool_order mp. length (avail mp q) * 2 ^ q)"
    by (simp add: distinct_card [OF D(2)])
  finally have "bytes (free_blocks mp) = (\<Sum>q = min_order mp..pool_order mp. length (avail mp q) * 2 ^ q)" .
  moreover have "bytes (free_blocks mp \<union> A) = bytes (free_blocks mp) + bytes A"
    unfolding bytes_def using tiles_finite [OF D(6)] D(3) by (intro sum.union_disjoint) auto
  ultimately show ?thesis using tiles_bytes [OF D(6)] by simp
qed

lemma sanity_list_ok:
  assumes "pool_inv mp A {}" "set bs \<subseteq> set (avail mp i)"
  shows "sanity_list mp i bs num rc = Inr (num + length bs, rc)"
  using assms(2)
proof (induction bs arbitrary: num)
  case (Cons a bs)
  then have a: "(a, i) \<in> free_blocks mp" by (simp add: free_blocks_def)
  note D = pool_invD [OF assms(1)]
  have ok: "block_ok (base_addr mp) (pool_order mp) (min_order mp) (a, i)"
    using pool_block_ok [OF assms(1)] a by blast
  then have "base_addr mp \<le> a" "a < base_addr mp + 2 ^ pool_order mp"
    using zero_less_power [of "2 :: nat" i] unfolding block_ok_def fst_conv snd_conv by linarith+
  then show ?case using Cons mark_ok(3) [OF D(1) ok] D(7,8) [OF a] by simp
qed simp

lemma sanity_lists_ok:
  assumes "pool_inv mp A {}" "i \<le> Suc (pool_order mp)"
  shows "\<exists>s'. sanity_lists mp i rc s = Inr (rc, s')
    \<and> total_bytes_free s' = total_bytes_free s + (\<Sum>q = i..pool_order mp. length (avail mp q) * 2 ^ q)
    \<and> total_blocks_free s' = total_blocks_free s + (\<Sum>q = i..pool_order mp. length (avail mp q))"
  using assms(2)
proof (induction "Suc (pool_order mp) - i" arbitrary: i s)
  case 0
  then show ?case by (subst sanity_lists.simps) simp
next
  case (Suc n)
  then have i: "i \<le> pool_order mp" by simp
  let ?s = "s\<lparr>min_alloc_size := (if min_alloc_size s = 0 then 2 ^ min_order mp else min_alloc_size s),
      max_alloc_size := (if length (avail mp i) > 0 then 2 ^ i else max_alloc_size s),
      total_blocks_free := total_blocks_free s + length (avail mp i),
      total_bytes_free := total_bytes_free s + length (avail mp i) * 2 ^ i\<rparr>"
  have "sanity_lists mp i rc s = sanity_lists mp (Suc i) rc ?s"
    by (subst sanity_lists.simps) (simp add: i sanity_list_ok [OF assms(1)])
  then show ?case
    using Suc.hyps(1) [of "Suc i" ?s] Suc.hyps(2) i
    by (fastforce simp: sum.atLeast_Suc_atMost [OF i])
qed

section \<open>Properties\<close>

text \<open>
  C4. Allocation is safe and complete: on a well-formed pool of which address zero is not free,
  \<open>buddy_alloc\<close> of an order that fits never faults. Either it returns NULL, changes nothing, and
  no free list from the rounded order on has a block; or it returns a block of that order which
  overlaps no block held before, and the pool stays well-formed with the new block held.
\<close>

theorem buddy_alloc_correct:
  assumes "pool_inv mp A {}" "\<forall>q. NULL \<notin> set (avail mp q)" "order \<le> pool_order mp"
  defines "q \<equiv> max order (min_order mp)"
  shows "\<exists>a mp'. buddy_alloc mp order = Inr (a, mp')
    \<and> (a = NULL \<longrightarrow> mp' = mp \<and> (\<forall>r \<ge> q. avail mp r = []))
    \<and> (a \<noteq> NULL \<longrightarrow> pool_inv mp' (insert (a, q) A) {} \<and> (\<forall>B \<in> A. region (a, q) \<inter> region B = {}))"
proof -
  have e: "buddy_alloc mp order = buddy_search mp q q"
    using assms(3) by (simp add: buddy_alloc_search q_def)
  obtain a mp' where r: "buddy_search mp q q = Inr (a, mp')"
    "if a = NULL then mp' = mp \<and> (\<forall>r \<ge> q. avail mp r = [])
     else pool_inv mp' (insert (a, q) A) {} \<and> (a, q) \<notin> A \<and> (\<exists>r \<ge> q. a \<in> set (avail mp r))"
    using buddy_search_ok [OF assms(1) _ _ assms(2), of q q] by (auto simp: q_def)
  have "region (a, q) \<inter> region B = {}"
    if "pool_inv mp' (insert (a, q) A) {}" "(a, q) \<notin> A" "B \<in> A" for B
    using tiles_disjoint [OF pool_invD(6) [OF that(1)], of "(a, q)" B] that by auto
  then show ?thesis unfolding e using r by (auto split: if_splits)
qed

text \<open>A pool of 64 bytes at address 64 with its only block free, and the same with it held.\<close>

definition pool64 :: buddy_mempool where
  "pool64 = \<lparr>base_addr = 64, pool_order = 6, min_order = 5, num_blocks = 2,
     tag_bits = (\<lambda>i. i = 0), avail = (\<lambda>q. if q = 6 then [64] else []), border = (\<lambda>_. 6)\<rparr>"

definition pool64_held :: buddy_mempool where
  "pool64_held = pool64\<lparr>tag_bits := \<lambda>_. False, avail := \<lambda>_. []\<rparr>"

lemma pool64_tiles: "tiles 64 6 5 {(64, 6)}"
  by (simp add: tiles_def block_ok_def region_def)

lemma pool64_fields [simp]:
  "base_addr pool64 = 64" "pool_order pool64 = 6" "min_order pool64 = 5"
  "base_addr pool64_held = 64" "pool_order pool64_held = 6" "min_order pool64_held = 5"
  "avail pool64 q = (if q = 6 then [64] else [])" "free_blocks pool64 = {(64, 6)}"
  "free_blocks pool64_held = {}"
  by (auto simp: pool64_def pool64_held_def free_blocks_def)

lemma pool64_inv: "pool_inv pool64 {} {}"
  using pool64_tiles unfolding pool_inv_def
  by (auto simp: tag_at_def pool_shape_def) (simp_all add: pool64_def)

lemma pool64_held_inv: "pool_inv pool64_held {(64, 6)} {}"
  using pool64_tiles unfolding pool_inv_def
  by (auto simp: tag_at_def pool_shape_def) (simp_all add: pool64_def pool64_held_def)

theorem buddy_alloc_correct_witness:
  "\<exists>a mp'. buddy_alloc pool64 5 = Inr (a, mp')
    \<and> (a = NULL \<longrightarrow> mp' = pool64 \<and> (\<forall>r \<ge> 5. avail pool64 r = []))
    \<and> (a \<noteq> NULL \<longrightarrow> pool_inv mp' {(a, 5)} {})"
  using buddy_alloc_correct [OF pool64_inv, of 5] by simp

text \<open>
  C7. Release is safe: \<open>buddy_free\<close> of a block that a caller holds, with the order it was
  allocated with, on an address that is a multiple of the size, passes all assertions. The pool stays
  well-formed without the block among the held ones, and no two buddies are left free apart
  if none were before.
\<close>

theorem buddy_free_correct:
  assumes "pool_inv mp A {}" "(a, max order (min_order mp)) \<in> A" "2 ^ order dvd a" "order \<le> pool_order mp"
  shows "\<exists>mp'. buddy_free mp a order = Inr mp' \<and> pool_inv mp' (A - {(a, max order (min_order mp))}) {}
    \<and> (coalesced mp \<longrightarrow> coalesced mp')"
  using buddy_free_ok [OF assms(1,2) refl assms(3,4)] by blast

theorem buddy_free_correct_witness:
  "\<exists>mp'. buddy_free pool64_held 64 6 = Inr mp' \<and> pool_inv mp' ({(64, 6)} - {(64, 6)}) {}
    \<and> (coalesced pool64_held \<longrightarrow> coalesced mp')"
  using buddy_free_correct [OF pool64_held_inv, of 64 6] by simp

text \<open>
  C25. Allocating and releasing is a round trip: on a coalesced pool whose base address is a
  multiple of its size, freeing a block just allocated succeeds and leaves exactly the free blocks
  that there were before, whatever splitting the allocation did.
\<close>

theorem buddy_round_trip:
  assumes "pool_inv mp A {}" "coalesced mp" "\<forall>q. NULL \<notin> set (avail mp q)"
    and "2 ^ pool_order mp dvd base_addr mp"
    and "order \<le> pool_order mp" "buddy_alloc mp order = Inr (a, mp1)" "a \<noteq> NULL"
  shows "\<exists>mp2. buddy_free mp1 a order = Inr mp2 \<and> free_blocks mp2 = free_blocks mp \<and> pool_inv mp2 A {}"
proof -
  define q where "q = max order (min_order mp)"
  have "buddy_search mp q q = Inr (a, mp1)"
    using assms(5,6) by (simp add: buddy_alloc_search q_def)
  then have inv1: "pool_inv mp1 (insert (a, q) A) {}" "(a, q) \<notin> A" "same_pool mp mp1" "coalesced mp1"
    using buddy_search_ok [OF assms(1) _ _ assms(3), of q q] assms(2,7) by (auto simp: q_def)
  have ok: "block_ok (base_addr mp) (pool_order mp) (min_order mp) (a, q)"
    using pool_block_ok [OF inv1(1), of "(a, q)"] inv1(3) by simp
  have "2 ^ q dvd a - base_addr mp" using ok by (simp add: block_ok_def)
  then have "2 ^ order dvd a - base_addr mp"
    by (rule dvd_trans [OF le_imp_power_dvd, rotated]) (simp add: q_def)
  moreover have "2 ^ order dvd base_addr mp"
    using le_imp_power_dvd [OF assms(5)] assms(4) by (rule dvd_trans)
  ultimately have "2 ^ order dvd a - base_addr mp + base_addr mp" by (rule dvd_add)
  then have "2 ^ order dvd a" using ok by (simp add: block_ok_def)
  then obtain mp2 where "buddy_free mp1 a order = Inr mp2" "pool_inv mp2 (insert (a, q) A - {(a, q)}) {}"
    "same_pool mp1 mp2" "coalesced mp2"
    using buddy_free_ok [OF inv1(1), of a q order] inv1(3,4) assms(5) by (auto simp: q_def)
  moreover have "insert (a, q) A - {(a, q)} = A" using inv1(2) by simp
  ultimately show ?thesis using alloc_free_blocks [OF assms(1,2), of mp2] inv1(3) by auto
qed

lemma pool64_coalesced: "coalesced pool64"
  by (simp add: coalesced_def)

theorem buddy_round_trip_witness:
  "\<exists>mp2. buddy_free (projr (bindr (buddy_alloc pool64 5) (\<lambda>(_, mp). Inr mp))) 64 5 = Inr mp2
    \<and> free_blocks mp2 = {(64, 6)} \<and> pool_inv mp2 {} {}"
proof -
  have "(case buddy_alloc pool64 5 of Inl _ \<Rightarrow> 0 | Inr (a, _) \<Rightarrow> a) = 64" by code_simp
  then obtain mp1 where "buddy_alloc pool64 5 = Inr (64, mp1)"
    by (auto split: sum.splits prod.splits)
  then show ?thesis using buddy_round_trip [OF pool64_inv pool64_coalesced, of 5 64 mp1] by simp
qed

text \<open>
  C28. The check of a well-formed pool reports no error, and the free bytes it counts and the bytes of
  the held blocks add up to the size of the pool: no memory is lost.
\<close>

theorem buddy_check_conserves:
  assumes "pool_inv mp A {}"
  shows "\<exists>s. buddy_check mp = Inr (0, s) \<and> total_bytes_free s + bytes A = 2 ^ pool_order mp"
proof -
  have "min_order mp \<le> Suc (pool_order mp)" using pool_invD(1) [OF assms] by (simp add: pool_shape_def)
  from sanity_lists_ok [OF assms this] free_bytes [OF assms] show ?thesis
    unfolding buddy_check_def by fastforce
qed

theorem buddy_check_conserves_witness:
  "\<exists>s. buddy_check pool64_held = Inr (0, s) \<and> total_bytes_free s + bytes {(64, 6)} = 2 ^ 6"
  using buddy_check_conserves [OF pool64_held_inv] by simp

text \<open>
  C39. A pool whose base address is not a multiple of the size of a block it hands out cannot take that
  block back: the buddies are computed relative to the base, but \<open>buddy_free\<close> asserts that the
  address itself is a multiple of the size, so freeing what was just allocated fails the assertion.
\<close>

theorem unaligned_pool_free_asserts:
  assumes "pool_inv mp A {}" "\<forall>q. NULL \<notin> set (avail mp q)" "order \<le> pool_order mp"
    and "min_order mp \<le> order" "\<not> 2 ^ order dvd base_addr mp"
    and "buddy_alloc mp order = Inr (a, mp1)" "a \<noteq> NULL"
  shows "buddy_free mp1 a order = Inl FailedAssert"
proof -
  have "max order (min_order mp) = order" using assms(4) by simp
  then have "buddy_search mp order order = Inr (a, mp1)"
    using assms(3,6) by (simp add: buddy_alloc_search)
  then have inv1: "pool_inv mp1 (insert (a, order) A) {}" "same_pool mp mp1"
    using buddy_search_ok [OF assms(1,4) _ assms(2), of order] assms(7) by auto
  have ok: "base_addr mp \<le> a" "2 ^ order dvd a - base_addr mp"
    using pool_block_ok [OF inv1(1), of "(a, order)"] inv1(2) by (auto simp: block_ok_def)
  have "\<not> 2 ^ order dvd a"
  proof
    assume "2 ^ order dvd a"
    then have "2 ^ order dvd a - (a - base_addr mp)" using ok(2) by (rule dvd_diff_nat)
    then show False using assms(5) ok(1) by simp
  qed
  then show ?thesis using assms(3) inv1(2) by (simp add: buddy_free_def)
qed

text \<open>A pool of 64 bytes at address 32.\<close>

definition pool32 :: buddy_mempool where
  "pool32 = pool64\<lparr>base_addr := 32, avail := \<lambda>q. if q = 6 then [32] else []\<rparr>"

lemma pool32_tiles: "tiles 32 6 5 {(32, 6)}"
  by (simp add: tiles_def block_ok_def region_def)

lemma pool32_fields [simp]:
  "base_addr pool32 = 32" "pool_order pool32 = 6" "min_order pool32 = 5"
  "avail pool32 q = (if q = 6 then [32] else [])" "free_blocks pool32 = {(32, 6)}"
  by (auto simp: pool32_def free_blocks_def)

lemma pool32_inv: "pool_inv pool32 {} {}"
  using pool32_tiles unfolding pool_inv_def
  by (auto simp: tag_at_def pool_shape_def) (simp_all add: pool32_def pool64_def)

theorem unaligned_pool_free_asserts_witness:
  "bindr (buddy_alloc pool32 6) (\<lambda>(a, mp). buddy_free mp a 6) = Inl FailedAssert"
proof -
  have "(case buddy_alloc pool32 6 of Inl _ \<Rightarrow> 0 | Inr (a, _) \<Rightarrow> a) = 32" by code_simp
  then obtain mp1 where e: "buddy_alloc pool32 6 = Inr (32, mp1)"
    by (auto split: sum.splits prod.splits)
  have "\<not> 2 ^ 6 dvd base_addr pool32" "\<forall>q. NULL \<notin> set (avail pool32 q)"
    "6 \<le> pool_order pool32" "min_order pool32 \<le> 6"
    by simp_all
  then have "buddy_free mp1 32 6 = Inl FailedAssert"
    using unaligned_pool_free_asserts [OF pool32_inv, of 6 32 mp1] e by simp
  then show ?thesis by (simp add: e)
qed

end
