(* ===== verification/Kmem.thy ===== *)
theory Kmem
  imports Buddy
begin

text \<open>
  The kernel memory allocator (src/nautilus/mm/kmem.c): \<open>malloc\<close> and \<open>free\<close> over the buddy pools
  of the memory regions, in the order of distance from the calling CPU, with the hash table that
  maps the address of an allocated block to its order and pool. Each operation on a pool runs
  under the lock of the pool and each claim of a hash entry is one atomic instruction; a call
  is modelled as one step, so the count of allocated bytes, which the code updates outside the lock
  of the pool, is always in step with the pools. Physical and virtual addresses are the same, as in
  the default build, in which the kernel is not mapped at an offset.
\<close>

section \<open>Sizes and orders\<close>

definition MIN_ORDER :: nat where
  "MIN_ORDER = 5"

definition BLOAT :: nat where
  "BLOAT = 1024"

text \<open>
  The position of the highest bit set, counted from one. The shift count of the processor is taken
  modulo 64, which decides the value of a shift by 64, undefined in C.
\<close>

definition fls64 :: "u64 \<Rightarrow> nat" where
  "fls64 x = (case find (bit x) (rev [0..<64]) of Some i \<Rightarrow> Suc i | None \<Rightarrow> 0)"

definition ilog2 :: "u64 \<Rightarrow> nat" where
  "ilog2 n = fls64 n - 1"

definition roundup_pow_of_two :: "u64 \<Rightarrow> u64" where
  "roundup_pow_of_two n = push_bit (fls64 (n - 1) mod 64) 1"

definition malloc_order :: "u64 \<Rightarrow> nat" where
  "malloc_order n =
    (let order = ilog2 (roundup_pow_of_two n) in if order < MIN_ORDER then MIN_ORDER else order)"

section \<open>State\<close>

record kmem_block_hdr =
  hdr_addr :: ptr
  hdr_order :: nat
  hdr_zone :: ptr

record mem_region =
  region_base :: nat
  region_len :: nat
  mm_state :: ptr

text \<open>
  The pools and the regions are on heaps; \<open>ordered_regions\<close> is the list of the regions for a CPU,
  \<open>glob_zone_list\<close> the list of all regions with a pool.
\<close>

record kmem =
  pools :: "buddy_mempool heap"
  regions :: "mem_region heap"
  ordered_regions :: "nat \<Rightarrow> ptr list"
  glob_zone_list :: "ptr list"
  block_hash_entries :: "nat \<Rightarrow> kmem_block_hdr"
  block_hash_num_entries :: nat
  kmem_bytes_managed :: u64
  kmem_bytes_allocated :: u64

section \<open>The block hash table\<close>

definition primes :: "nat list" where
  "primes = [53, 97, 193, 389, 769, 1543, 3079, 6151, 12289, 24593, 49157, 98317, 196613, 393241,
     786433, 1572869, 3145739, 6291469, 12582917, 25165843, 50331653, 100663319, 201326611,
     402653189, 805306457, 1610612741]"

definition next_prime :: "nat \<Rightarrow> nat" where
  "next_prime n = (case find (\<lambda>p. p \<ge> n) primes of Some p \<Rightarrow> p | None \<Rightarrow> last primes)"

definition block_hash_init :: "bool \<Rightarrow> nat \<Rightarrow> kmem \<Rightarrow> int \<times> kmem" where
  "block_hash_init ok nbytes k =
    (let num_entries = next_prime (nbytes div 2 ^ MIN_ORDER div BLOAT) in
     if \<not> ok then (-1, k)
     else (0, k\<lparr>block_hash_entries := (\<lambda>_. \<lparr>hdr_addr = 0, hdr_order = 0, hdr_zone = 0\<rparr>),
                block_hash_num_entries := num_entries\<rparr>))"

definition block_hash_hash :: "kmem \<Rightarrow> ptr \<Rightarrow> nat" where
  "block_hash_hash k p =
    (let n = drop_bit MIN_ORDER (of_nat p) :: u64;
         n = n XOR drop_bit 1 n XOR push_bit 2 n XOR drop_bit 3 n XOR push_bit 5 n XOR drop_bit 7 n
           XOR push_bit 11 n XOR drop_bit 13 n XOR push_bit 17 n XOR drop_bit 19 n XOR push_bit 23 n
           XOR drop_bit 29 n XOR push_bit 31 n XOR drop_bit 37 n XOR push_bit 41 n XOR drop_bit 43 n
           XOR push_bit 47 n XOR push_bit 53 n XOR drop_bit 59 n XOR push_bit 61 n
     in unat n mod block_hash_num_entries k)"

text \<open>The two loops of a probe: from the hash to the end of the table, then from its start.\<close>

definition probe :: "kmem \<Rightarrow> ptr \<Rightarrow> nat list" where
  "probe k p = (let start = block_hash_hash k p in [start..<block_hash_num_entries k] @ [0..<start])"

definition block_hash_find_entry :: "kmem \<Rightarrow> ptr \<Rightarrow> nat option" where
  "block_hash_find_entry k p = find (\<lambda>i. hdr_addr (block_hash_entries k i) = p) (probe k p)"

definition set_entry :: "kmem \<Rightarrow> nat \<Rightarrow> kmem_block_hdr \<Rightarrow> kmem" where
  "set_entry k i e = k\<lparr>block_hash_entries := (block_hash_entries k)(i := e)\<rparr>"

text \<open>The compare-and-swap claims the first entry whose order is 0 by setting it to 1.\<close>

definition block_hash_alloc :: "kmem \<Rightarrow> ptr \<Rightarrow> (nat \<times> kmem) option" where
  "block_hash_alloc k p =
    (case find (\<lambda>i. hdr_order (block_hash_entries k i) = 0) (probe k p) of
       None \<Rightarrow> None
     | Some i \<Rightarrow> Some (i, set_entry k i ((block_hash_entries k i)\<lparr>hdr_order := 1\<rparr>)))"

definition block_hash_free_entry :: "kmem \<Rightarrow> nat \<Rightarrow> kmem" where
  "block_hash_free_entry k i = set_entry k i \<lparr>hdr_addr = 0, hdr_order = 0, hdr_zone = 0\<rparr>"

definition block_hash_free :: "kmem \<Rightarrow> ptr \<Rightarrow> int \<times> kmem" where
  "block_hash_free k p =
    (case block_hash_find_entry k p of
       None \<Rightarrow> (-1, k)
     | Some i \<Rightarrow> (0, block_hash_free_entry k i))"

section \<open>Regions and their pools\<close>

definition kmem_get_base_zone :: "kmem \<Rightarrow> ptr" where
  "kmem_get_base_zone k = hd (glob_zone_list k)"

fun region_by_addr :: "kmem \<Rightarrow> nat \<Rightarrow> ptr list \<Rightarrow> ptr result" where
  "region_by_addr k addr [] = Inr NULL"
| "region_by_addr k addr (r # rs) =
    bindr (load (regions k) r) (\<lambda>reg.
      if addr \<ge> region_base reg \<and> addr < region_base reg + region_len reg then Inr r
      else region_by_addr k addr rs)"

definition kmem_get_region_by_addr :: "kmem \<Rightarrow> nat \<Rightarrow> ptr result" where
  "kmem_get_region_by_addr k addr = region_by_addr k addr (glob_zone_list k)"

definition put_pool :: "kmem \<Rightarrow> ptr \<Rightarrow> buddy_mempool \<Rightarrow> kmem" where
  "put_pool k z mp = k\<lparr>pools := (pools k)(z \<mapsto> mp)\<rparr>"

text \<open>
  \<open>create_zone\<close> with the outcome of the pool's initialisation: \<open>new\<close> is the address of the pool
  when \<open>buddy_init\<close> gives one.
\<close>

definition create_zone ::
    "(nat \<Rightarrow> nat \<Rightarrow> nat \<Rightarrow> buddy_mempool option) \<Rightarrow> ptr \<Rightarrow> kmem \<Rightarrow> ptr \<Rightarrow> (ptr \<times> kmem) result" where
  "create_zone init new k r =
    bindr (load (regions k) r) (\<lambda>reg.
      let pool_o = ilog2 (roundup_pow_of_two (of_nat (region_len reg))) in
      if mm_state reg \<noteq> NULL then Inl (Panic ''Memory zone already exists for memory region'')
      else let k = k\<lparr>glob_zone_list := glob_zone_list k @ [r]\<rparr> in
        case init (region_base reg) pool_o MIN_ORDER of
          None \<Rightarrow> Inr (NULL, k)
        | Some mp \<Rightarrow> Inr (new, put_pool k new mp))"

text \<open>Adding memory: chunks of the largest size to which the start of the memory is aligned.\<close>

definition ctz :: "nat \<Rightarrow> nat" where
  "ctz n = (case find (\<lambda>i. bit n i) [0..<64] of Some i \<Rightarrow> i | None \<Rightarrow> 64)"

definition chunk_size :: "nat \<Rightarrow> nat \<Rightarrow> nat" where
  "chunk_size base sz =
    (let max_chunk_size = (if base \<noteq> 0 then 2 ^ ctz base else sz)
     in if max_chunk_size < sz then max_chunk_size else sz)"

fun add_chunks :: "buddy_mempool \<Rightarrow> nat \<Rightarrow> nat \<Rightarrow> nat \<Rightarrow> nat \<Rightarrow> buddy_mempool result" where
  "add_chunks mp addr chunk order 0 = Inr mp"
| "add_chunks mp addr chunk order (Suc n) =
    bindr (buddy_free mp addr order) (\<lambda>mp. add_chunks mp (addr + chunk) chunk order n)"

definition kmem_add_memory :: "kmem \<Rightarrow> ptr \<Rightarrow> nat \<Rightarrow> nat \<Rightarrow> kmem result" where
  "kmem_add_memory k r base sz =
    (let chunk = chunk_size base sz; order = ilog2 (of_nat chunk) in
     if chunk = 0 then Inl DivideError
     else bindr (load (regions k) r) (\<lambda>reg.
       let num_chunks = sz div chunk in
       if mm_state reg = NULL then Inl FailedAssert
       else bindr (load (pools k) (mm_state reg)) (\<lambda>mp.
         bindr (add_chunks mp base chunk order num_chunks) (\<lambda>mp.
           Inr ((put_pool k (mm_state reg) mp)
             \<lparr>kmem_bytes_managed := kmem_bytes_managed k + of_nat (chunk * num_chunks)\<rparr>)))))"

section \<open>Initialisation\<close>

text \<open>
  Every region large enough gets a pool; then every CPU gets the list of all regions, those of its own
  domain first and the others in the order of distance; then the hash table is set up. What the
  boot allocator and the firmware tables give is an argument: the outcome of the pool's initialisation
  and its address, the regions of the domains, the domain of a CPU and the domains adjacent to it in
  order, and the number of list entries that can be allocated for a CPU.
\<close>

fun init_zones ::
    "(ptr \<Rightarrow> nat \<Rightarrow> nat \<Rightarrow> nat \<Rightarrow> buddy_mempool option) \<Rightarrow> (ptr \<Rightarrow> ptr) \<Rightarrow> kmem \<Rightarrow> nat \<Rightarrow> ptr list
      \<Rightarrow> (nat \<times> kmem) result" where
  "init_zones init new k total_phys [] = Inr (total_phys, k)"
| "init_zones init new k total_phys (r # rs) =
    bindr (load (regions k) r) (\<lambda>ent.
      if region_len ent < 2 ^ MIN_ORDER then init_zones init new k total_phys rs
      else bindr (create_zone (init r) (new r) k r) (\<lambda>(z, k).
        let k = k\<lparr>regions := (regions k)(r \<mapsto> ent\<lparr>mm_state := z\<rparr>)\<rparr> in
        if z = NULL then Inl (Panic ''Could not create kmem zone for region'')
        else init_zones init new k (total_phys + region_len ent) rs))"

definition region_order :: "(nat \<Rightarrow> ptr list) \<Rightarrow> (nat \<Rightarrow> nat list) \<Rightarrow> nat \<Rightarrow> ptr list" where
  "region_order dom_regions adj d = dom_regions d @ concat (map dom_regions (adj d))"

fun order_regions ::
    "(nat \<Rightarrow> ptr list) \<Rightarrow> (nat \<Rightarrow> nat list) \<Rightarrow> (nat \<Rightarrow> nat) \<Rightarrow> (nat \<Rightarrow> nat) \<Rightarrow> kmem \<Rightarrow> nat list \<Rightarrow> int \<times> kmem" where
  "order_regions dom_regions adj cpu_domain room k [] = (0, k)"
| "order_regions dom_regions adj cpu_domain room k (i # is) =
    (let rs = region_order dom_regions adj (cpu_domain i);
         k = k\<lparr>ordered_regions := (ordered_regions k)(i := take (room i) rs)\<rparr>
     in if room i < length rs then (-1, k) else order_regions dom_regions adj cpu_domain room k is)"

definition nk_kmem_init ::
    "(ptr \<Rightarrow> nat \<Rightarrow> nat \<Rightarrow> nat \<Rightarrow> buddy_mempool option) \<Rightarrow> (ptr \<Rightarrow> ptr) \<Rightarrow> bool
      \<Rightarrow> nat \<Rightarrow> (nat \<Rightarrow> ptr list) \<Rightarrow> (nat \<Rightarrow> nat list) \<Rightarrow> nat \<Rightarrow> (nat \<Rightarrow> nat) \<Rightarrow> (nat \<Rightarrow> nat)
      \<Rightarrow> kmem \<Rightarrow> (int \<times> kmem) result" where
  "nk_kmem_init init new hash_ok num_domains dom_regions adj num_cpus cpu_domain room k =
    bindr (init_zones init new (k\<lparr>glob_zone_list := []\<rparr>) 0 (concat (map dom_regions [0..<num_domains])))
      (\<lambda>(total_phys, k).
        let (rc, k) = order_regions dom_regions adj cpu_domain room k [0..<num_cpus] in
        if rc \<noteq> 0 then Inr (-1, k)
        else let (rc, k) = block_hash_init hash_ok total_phys k in
          if rc \<noteq> 0 then Inr (-1, k) else Inr (0, k))"

section \<open>malloc and free\<close>

text \<open>
  The loop over the regions of the CPU. The lock of the pool is taken through its pointer, so a
  region without a pool faults.
\<close>

fun malloc_from :: "kmem \<Rightarrow> nat \<Rightarrow> ptr list \<Rightarrow> (ptr \<times> kmem) result" where
  "malloc_from k order [] = Inr (NULL, k)"
| "malloc_from k order (r # rs) =
    bindr (load (regions k) r) (\<lambda>reg.
    bindr (load (pools k) (mm_state reg)) (\<lambda>mp.
    bindr (buddy_alloc mp order) (\<lambda>(block, mp).
      let k = put_pool k (mm_state reg) mp in
      if block \<noteq> NULL then
        (case block_hash_alloc k block of
           None \<Rightarrow> bindr (buddy_free mp block order) (\<lambda>mp. malloc_from (put_pool k (mm_state reg) mp) order rs)
         | Some (i, k) \<Rightarrow>
             let k = set_entry k i \<lparr>hdr_addr = block, hdr_order = order, hdr_zone = mm_state reg\<rparr>
             in Inr (block, k\<lparr>kmem_bytes_allocated := kmem_bytes_allocated k + push_bit order 1\<rparr>))
      else malloc_from k order rs)))"

definition malloc :: "kmem \<Rightarrow> nat \<Rightarrow> u64 \<Rightarrow> (ptr \<times> kmem) result" where
  "malloc k cpu n = malloc_from k (malloc_order n) (ordered_regions k cpu)"

definition free :: "kmem \<Rightarrow> ptr \<Rightarrow> kmem result" where
  "free k addr =
    (if addr = NULL then Inr k
     else case block_hash_find_entry k addr of
       None \<Rightarrow> Inr k
     | Some i \<Rightarrow>
         let zone = hdr_zone (block_hash_entries k i); order = hdr_order (block_hash_entries k i) in
         bindr (load (pools k) zone) (\<lambda>mp.
         bindr (buddy_free mp addr order) (\<lambda>mp.
           let k = (put_pool k zone mp)\<lparr>kmem_bytes_allocated := kmem_bytes_allocated k - push_bit order 1\<rparr>
           in Inr (block_hash_free_entry k i))))"

section \<open>Statistics\<close>

record kmem_stats =
  total_num_pools :: nat
  k_total_blocks_free :: nat
  k_total_bytes_free :: nat
  k_min_alloc_size :: nat
  k_max_alloc_size :: nat
  num_pools :: nat
  max_pools :: nat
  pool_stats :: "buddy_pool_stats list"

fun kmem_stats_regions :: "kmem \<Rightarrow> kmem_stats \<Rightarrow> nat \<Rightarrow> ptr list \<Rightarrow> kmem_stats result" where
  "kmem_stats_regions k s cur [] = Inr (s\<lparr>total_num_pools := cur\<rparr>)"
| "kmem_stats_regions k s cur (r # rs) =
    bindr (load (regions k) r) (\<lambda>reg.
    bindr (load (pools k) (mm_state reg)) (\<lambda>mp.
    bindr (buddy_stats mp) (\<lambda>ps.
      let s = (if cur < max_pools s
               then s\<lparr>pool_stats := pool_stats s @ [ps], num_pools := num_pools s + 1\<rparr> else s);
          s = s\<lparr>k_total_blocks_free := k_total_blocks_free s + total_blocks_free ps,
                k_total_bytes_free := k_total_bytes_free s + total_bytes_free ps,
                k_min_alloc_size := min (k_min_alloc_size s) (min_alloc_size ps),
                k_max_alloc_size := max (k_max_alloc_size s) (max_alloc_size ps)\<rparr>
      in kmem_stats_regions k s (cur + 1) rs)))"

definition kmem_stats_get :: "kmem \<Rightarrow> nat \<Rightarrow> nat \<Rightarrow> kmem_stats result" where
  "kmem_stats_get k cpu maxp =
    kmem_stats_regions k
      \<lparr>total_num_pools = 0, k_total_blocks_free = 0, k_total_bytes_free = 0,
       k_min_alloc_size = 2 ^ 64 - 1, k_max_alloc_size = 0, num_pools = 0, max_pools = maxp,
       pool_stats = []\<rparr> 0 (ordered_regions k cpu)"

fun kmem_sanity_regions :: "kmem \<Rightarrow> int \<Rightarrow> ptr list \<Rightarrow> int result" where
  "kmem_sanity_regions k rc [] = Inr rc"
| "kmem_sanity_regions k rc (r # rs) =
    bindr (load (regions k) r) (\<lambda>reg.
    bindr (load (pools k) (mm_state reg)) (\<lambda>mp.
    bindr (buddy_sanity_check mp) (\<lambda>c. kmem_sanity_regions k (if c \<noteq> 0 then rc OR -1 else rc) rs)))"

definition kmem_sanity_check :: "kmem \<Rightarrow> nat \<Rightarrow> int result" where
  "kmem_sanity_check k cpu = kmem_sanity_regions k 0 (ordered_regions k cpu)"

section \<open>The order of a size\<close>

lemma find_rev_upt_Some:
  assumes "find P (rev [0..<n]) = Some i"
  shows "P i" "i < n" "\<And>j. i < j \<Longrightarrow> j < n \<Longrightarrow> \<not> P j"
  using assms by (induction n) (auto split: if_splits simp: less_Suc_eq)

lemma fls64_eq:
  assumes "bit x i" "\<And>j. i < j \<Longrightarrow> j < 64 \<Longrightarrow> \<not> bit x j"
  shows "fls64 x = Suc i"
proof -
  have i: "i < 64" using bit_imp_le_length [OF assms(1)] by simp
  then have "find (bit x) (rev [0..<64]) \<noteq> None" using assms(1) by (auto simp: find_None_iff)
  then obtain k where k: "find (bit x) (rev [0..<64]) = Some k" by blast
  note K = find_rev_upt_Some [OF k]
  have "k = i" using K assms i by (metis linorder_neqE_nat)
  then show ?thesis using k by (simp add: fls64_def)
qed

lemma fls64_pos:
  assumes "x \<noteq> 0"
  obtains i where "fls64 x = Suc i" "bit x i" "i < 64" "\<And>j. i < j \<Longrightarrow> \<not> bit x j"
proof -
  obtain b where "bit x b" using assms by (auto simp: bit_eq_iff)
  moreover from this have "b < 64" using bit_imp_le_length by fastforce
  ultimately have "find (bit x) (rev [0..<64]) \<noteq> None" by (auto simp: find_None_iff)
  then obtain i where i: "find (bit x) (rev [0..<64]) = Some i" by blast
  note I = find_rev_upt_Some [OF i]
  have "\<not> bit x j" if "i < j" for j
    using I(3) [OF that] bit_imp_le_length [of x j] by (cases "j < 64") auto
  then show thesis using that [of i] I(1,2) i by (simp add: fls64_def)
qed

lemma fls64_bounds:
  assumes "x \<noteq> 0"
  shows "unat x < 2 ^ fls64 x" "2 ^ (fls64 x - 1) \<le> unat x" "fls64 x \<le> 64" "0 < fls64 x"
proof -
  obtain i where i: "fls64 x = Suc i" "bit x i" "i < 64" "\<And>j. i < j \<Longrightarrow> \<not> bit x j"
    using fls64_pos [OF assms] by blast
  have "take_bit (Suc i) x = x" using i(4) by (auto simp: bit_eq_iff bit_take_bit_iff) (meson not_less_eq)
  then have "take_bit (Suc i) (unat x) = unat x" by (metis unsigned_take_bit_eq)
  then show "unat x < 2 ^ fls64 x" unfolding i(1) by (metis take_bit_nat_less_exp)
  have "bit (unat x) i" using i(2) by (simp add: bit_unsigned_iff)
  then have "odd (unat x div 2 ^ i)" by (simp add: bit_iff_odd)
  then have "unat x div 2 ^ i \<noteq> 0" by (metis even_zero)
  then show "2 ^ (fls64 x - 1) \<le> unat x" unfolding i(1) by (simp add: div_eq_0_iff not_less)
  show "fls64 x \<le> 64" "0 < fls64 x" using i by simp_all
qed

lemma fls64_0 [simp]: "fls64 0 = 0"
  by (simp add: fls64_def find_None_iff split: option.splits)

lemma ilog2_roundup: "ilog2 (roundup_pow_of_two n) = fls64 (n - 1) mod 64"
proof -
  have "fls64 (push_bit k 1) = Suc k" if "k < 64" for k
    using that by (intro fls64_eq) (auto simp: bit_exp_iff)
  then show ?thesis by (simp add: ilog2_def roundup_pow_of_two_def)
qed

lemma malloc_order_fits:
  assumes "0 < n" "unat n \<le> 2 ^ 63"
  shows "unat n \<le> 2 ^ malloc_order n"
    and "MIN_ORDER < malloc_order n \<Longrightarrow> 2 ^ (malloc_order n - 1) < unat n"
    and "MIN_ORDER \<le> malloc_order n" "malloc_order n < 64"
proof -
  have u: "unat (n - 1) = unat n - 1" "0 < unat n"
    using assms(1) by (simp_all add: unat_minus_one unat_gt_0 word_neq_0_conv)
  define f where "f = fls64 (n - 1)"
  have b: "f < 64 \<and> unat n \<le> 2 ^ f \<and> (0 < f \<longrightarrow> 2 ^ (f - 1) < unat n)"
  proof (cases "n - 1 = 0")
    case True
    then have "unat n = 1" using u by (simp add: unat_eq_0)
    then show ?thesis using True by (simp add: f_def)
  next
    case False
    note B = fls64_bounds [OF False, folded f_def]
    have "(2 :: nat) ^ (f - 1) < 2 ^ 63" using B(2) u assms(2) by linarith
    then have "f - 1 < 63" by (rule power_less_imp_less_exp [rotated]) simp
    then show ?thesis using B u by auto
  qed
  then have m: "malloc_order n = max MIN_ORDER f"
    by (simp add: malloc_order_def ilog2_roundup f_def Let_def max_def)
  show "unat n \<le> 2 ^ malloc_order n"
    unfolding m using b by (meson le_trans max.cobounded2 one_le_numeral power_increasing)
  show "MIN_ORDER < malloc_order n \<Longrightarrow> 2 ^ (malloc_order n - 1) < unat n"
    unfolding m using b by (auto simp: max_def split: if_splits)
  show "MIN_ORDER \<le> malloc_order n" "malloc_order n < 64"
    unfolding m using b by (auto simp: MIN_ORDER_def)
qed

section \<open>What the allocator relies on of a pool\<close>

text \<open>
  The contract of a pool that \<open>malloc\<close> and \<open>free\<close> use: an allocation gives NULL and changes
  nothing, or a block not held before; a held block can be released; held blocks lie in the
  range of the pool and do not overlap.
\<close>

locale zone =
  fixes ok :: "'z \<Rightarrow> (ptr \<times> nat) set \<Rightarrow> bool"
    and alloc :: "'z \<Rightarrow> nat \<Rightarrow> (ptr \<times> 'z) result"
    and release :: "'z \<Rightarrow> ptr \<Rightarrow> nat \<Rightarrow> 'z result"
    and extent :: "'z \<Rightarrow> nat set"
  assumes alloc_law: "ok z A \<Longrightarrow> MIN_ORDER \<le> q \<Longrightarrow> \<exists>a z'. alloc z q = Inr (a, z') \<and> extent z' = extent z
      \<and> (a = NULL \<longrightarrow> z' = z) \<and> (a \<noteq> NULL \<longrightarrow> ok z' (insert (a, q) A) \<and> (a, q) \<notin> A)"
    and release_law: "ok z A \<Longrightarrow> (a, q) \<in> A \<Longrightarrow> MIN_ORDER \<le> q \<Longrightarrow>
      \<exists>z'. release z a q = Inr z' \<and> extent z' = extent z \<and> ok z' (A - {(a, q)})"
    and in_extent: "ok z A \<Longrightarrow> B \<in> A \<Longrightarrow> region B \<subseteq> extent z"
    and apart: "ok z A \<Longrightarrow> B \<in> A \<Longrightarrow> C \<in> A \<Longrightarrow> B \<noteq> C \<Longrightarrow> region B \<inter> region C = {}"
begin

lemma same_start: "ok z A \<Longrightarrow> (a, q) \<in> A \<Longrightarrow> (a, r) \<in> A \<Longrightarrow> q = r"
  using apart [of z A "(a, q)" "(a, r)"] start_in_region [of a q] start_in_region [of a r] by blast

lemma give_back:
  assumes "ok z A" "MIN_ORDER \<le> q" "alloc z q = Inr (a, z1)" "a \<noteq> NULL"
  shows "\<exists>z2. release z1 a q = Inr z2 \<and> extent z2 = extent z \<and> ok z2 A"
proof -
  have "ok z1 (insert (a, q) A)" "(a, q) \<notin> A" "extent z1 = extent z"
    using alloc_law [OF assms(1,2)] assms(3,4) by auto
  then show ?thesis using release_law [of z1 "insert (a, q) A" a q] assms(2) by auto
qed

end

text \<open>
  The pools of the kernel: well-formed and coalesced, with the minimum order of the allocator, away from
  address zero and aligned to their size, so that the assertion on alignment holds for every block.
\<close>

definition zone_ok :: "buddy_mempool \<Rightarrow> (ptr \<times> nat) set \<Rightarrow> bool" where
  "zone_ok mp A \<longleftrightarrow> pool_inv mp A {} \<and> coalesced mp \<and> min_order mp = MIN_ORDER \<and> 0 < base_addr mp
    \<and> 2 ^ pool_order mp dvd base_addr mp"

definition pool_range :: "buddy_mempool \<Rightarrow> nat set" where
  "pool_range mp = {base_addr mp ..< base_addr mp + 2 ^ pool_order mp}"

lemma zone_ok_alloc:
  assumes z: "zone_ok mp A" and q: "MIN_ORDER \<le> q"
  shows "\<exists>a mp'. buddy_alloc mp q = Inr (a, mp') \<and> pool_range mp' = pool_range mp
    \<and> (a = NULL \<longrightarrow> mp' = mp) \<and> (a \<noteq> NULL \<longrightarrow> zone_ok mp' (insert (a, q) A) \<and> (a, q) \<notin> A)"
proof (cases "q \<le> pool_order mp")
  case False
  then show ?thesis by (simp add: buddy_alloc_def)
next
  case True
  have inv: "pool_inv mp A {}" using z by (simp add: zone_ok_def)
  have "NULL \<notin> set (avail mp r)" for r
    using pool_base [OF inv, of NULL r] z by (auto simp: free_blocks_def zone_ok_def)
  moreover have m: "max q (min_order mp) = q" using z q by (simp add: zone_ok_def)
  ultimately show ?thesis
    using buddy_search_ok [OF inv _ order_refl, of q] z q True
    by (fastforce simp: buddy_alloc_search [OF True] m zone_ok_def pool_range_def split: if_splits)
qed

lemma zone_ok_release:
  assumes z: "zone_ok mp A" and B: "(a, q) \<in> A" and q: "MIN_ORDER \<le> q"
  shows "\<exists>mp'. buddy_free mp a q = Inr mp' \<and> pool_range mp' = pool_range mp \<and> zone_ok mp' (A - {(a, q)})"
proof -
  have inv: "pool_inv mp A {}" and al: "2 ^ pool_order mp dvd base_addr mp"
    and mo: "min_order mp = MIN_ORDER" using z by (simp_all add: zone_ok_def)
  have ok: "base_addr mp \<le> a" "2 ^ q dvd a - base_addr mp" "q \<le> pool_order mp"
    using pool_block_ok [OF inv, of "(a, q)"] B by (auto simp: block_ok_def)
  have "2 ^ q dvd base_addr mp" using le_imp_power_dvd [OF ok(3)] al by (rule dvd_trans)
  then have "2 ^ q dvd a - base_addr mp + base_addr mp" using ok(2) by (rule dvd_add [rotated])
  then have "2 ^ q dvd a" using ok(1) by simp
  then obtain mp' where "buddy_free mp a q = Inr mp'" "pool_inv mp' (A - {(a, q)}) {}" "same_pool mp mp'"
    "coalesced mp'"
    using buddy_free_ok [OF inv B _ _ ok(3)] mo q z by (auto simp: zone_ok_def)
  then show ?thesis using z by (simp add: zone_ok_def pool_range_def)
qed

interpretation bz: zone zone_ok buddy_alloc buddy_free pool_range
proof
  fix mp A B C
  assume z: "zone_ok mp A"
  then have inv: "pool_inv mp A {}" by (simp add: zone_ok_def)
  show "region B \<subseteq> pool_range mp" if "B \<in> A"
    using pool_block_ok [OF inv, of B] that by (auto simp: block_ok_def region_def pool_range_def)
  show "region B \<inter> region C = {}" if "B \<in> A" "C \<in> A" "B \<noteq> C"
    using tiles_disjoint [OF pool_invD(6) [OF inv], of B C] that by auto
qed (use zone_ok_alloc zone_ok_release in blast)+

section \<open>The invariant of the allocator\<close>

definition live :: "kmem \<Rightarrow> nat \<Rightarrow> bool" where
  "live k i \<longleftrightarrow> i < block_hash_num_entries k \<and> hdr_order (block_hash_entries k i) \<noteq> 0"

definition live_bytes :: "kmem \<Rightarrow> nat" where
  "live_bytes k = (\<Sum>i | live k i. 2 ^ hdr_order (block_hash_entries k i))"

definition entry_ok :: "kmem \<Rightarrow> (ptr \<Rightarrow> (ptr \<times> nat) set) \<Rightarrow> kmem_block_hdr \<Rightarrow> bool" where
  "entry_ok k H e \<longleftrightarrow> hdr_addr e \<noteq> NULL \<and> MIN_ORDER \<le> hdr_order e \<and> pools k (hdr_zone e) \<noteq> None
    \<and> (hdr_addr e, hdr_order e) \<in> H (hdr_zone e)"

text \<open>
  \<open>kmem_inv k H\<close>: every pool is well-formed with the blocks \<open>H\<close> of it held, the pools are apart,
  the entries in use name held blocks, no two the same address, and the count of allocated bytes is
  the sum of their sizes.
\<close>

definition kmem_inv :: "kmem \<Rightarrow> (ptr \<Rightarrow> (ptr \<times> nat) set) \<Rightarrow> bool" where
  "kmem_inv k H \<longleftrightarrow> 0 < block_hash_num_entries k
    \<and> (\<forall>z mp. pools k z = Some mp \<longrightarrow> z \<noteq> NULL \<and> zone_ok mp (H z))
    \<and> (\<forall>z mp z' mp'. pools k z = Some mp \<longrightarrow> pools k z' = Some mp' \<longrightarrow> z \<noteq> z'
        \<longrightarrow> pool_range mp \<inter> pool_range mp' = {})
    \<and> (\<forall>i < block_hash_num_entries k. hdr_order (block_hash_entries k i) = 0
        \<longrightarrow> hdr_addr (block_hash_entries k i) = NULL)
    \<and> (\<forall>i. live k i \<longrightarrow> entry_ok k H (block_hash_entries k i))
    \<and> (\<forall>i j. live k i \<longrightarrow> live k j \<longrightarrow> hdr_addr (block_hash_entries k i) = hdr_addr (block_hash_entries k j)
        \<longrightarrow> i = j)
    \<and> kmem_bytes_allocated k = of_nat (live_bytes k)"

lemma kmem_invD:
  assumes "kmem_inv k H"
  shows "0 < block_hash_num_entries k"
    "\<And>z mp. pools k z = Some mp \<Longrightarrow> z \<noteq> NULL" "\<And>z mp. pools k z = Some mp \<Longrightarrow> zone_ok mp (H z)"
    "\<And>z mp z' mp'. pools k z = Some mp \<Longrightarrow> pools k z' = Some mp' \<Longrightarrow> z \<noteq> z' \<Longrightarrow>
      pool_range mp \<inter> pool_range mp' = {}"
    "\<And>i. i < block_hash_num_entries k \<Longrightarrow> hdr_order (block_hash_entries k i) = 0 \<Longrightarrow>
      hdr_addr (block_hash_entries k i) = NULL"
    "\<And>i. live k i \<Longrightarrow> entry_ok k H (block_hash_entries k i)"
    "\<And>i j. live k i \<Longrightarrow> live k j \<Longrightarrow>
      hdr_addr (block_hash_entries k i) = hdr_addr (block_hash_entries k j) \<Longrightarrow> i = j"
    "kmem_bytes_allocated k = of_nat (live_bytes k)"
  using assms unfolding kmem_inv_def by blast+

lemma kmem_invI:
  assumes "0 < block_hash_num_entries k"
    "\<And>z mp. pools k z = Some mp \<Longrightarrow> z \<noteq> NULL \<and> zone_ok mp (H z)"
    "\<And>z mp z' mp'. pools k z = Some mp \<Longrightarrow> pools k z' = Some mp' \<Longrightarrow> z \<noteq> z' \<Longrightarrow>
      pool_range mp \<inter> pool_range mp' = {}"
    "\<And>i. i < block_hash_num_entries k \<Longrightarrow> hdr_order (block_hash_entries k i) = 0 \<Longrightarrow>
      hdr_addr (block_hash_entries k i) = NULL"
    "\<And>i. live k i \<Longrightarrow> entry_ok k H (block_hash_entries k i)"
    "\<And>i j. live k i \<Longrightarrow> live k j \<Longrightarrow>
      hdr_addr (block_hash_entries k i) = hdr_addr (block_hash_entries k j) \<Longrightarrow> i = j"
    "kmem_bytes_allocated k = of_nat (live_bytes k)"
  shows "kmem_inv k H"
  using assms unfolding kmem_inv_def by blast

lemma kmem_fields [simp]:
  "pools (put_pool k z mp) = (pools k)(z \<mapsto> mp)" "regions (put_pool k z mp) = regions k"
  "block_hash_entries (put_pool k z mp) = block_hash_entries k"
  "block_hash_num_entries (put_pool k z mp) = block_hash_num_entries k"
  "kmem_bytes_allocated (put_pool k z mp) = kmem_bytes_allocated k"
  "live (put_pool k z mp) = live k" "live_bytes (put_pool k z mp) = live_bytes k"
  "pools (set_entry k i e) = pools k" "regions (set_entry k i e) = regions k"
  "block_hash_entries (set_entry k i e) = (block_hash_entries k)(i := e)"
  "block_hash_num_entries (set_entry k i e) = block_hash_num_entries k"
  "kmem_bytes_allocated (set_entry k i e) = kmem_bytes_allocated k"
  "live (k\<lparr>kmem_bytes_allocated := n\<rparr>) = live k"
  "live_bytes (k\<lparr>kmem_bytes_allocated := n\<rparr>) = live_bytes k"
  "set_entry (set_entry k i e) i e' = set_entry k i e'"
  "set_entry (k\<lparr>kmem_bytes_allocated := n\<rparr>) i e = (set_entry k i e)\<lparr>kmem_bytes_allocated := n\<rparr>"
  by (simp_all add: put_pool_def set_entry_def live_def live_bytes_def fun_eq_iff)

lemma live_finite: "finite {i. live k i}"
  by (rule finite_subset [of _ "{..<block_hash_num_entries k}"]) (auto simp: live_def)

lemma live_set_entry:
  "i < block_hash_num_entries k \<Longrightarrow> live (set_entry k i e) j \<longleftrightarrow> (if j = i then hdr_order e \<noteq> 0 else live k j)"
  by (simp add: live_def set_entry_def)

lemma live_bytes_insert:
  assumes "i < block_hash_num_entries k" "\<not> live k i" "hdr_order e \<noteq> 0"
  shows "live_bytes (set_entry k i e) = live_bytes k + 2 ^ hdr_order e"
proof -
  have "{j. live (set_entry k i e) j} = insert i {j. live k j}"
    using assms by (auto simp: live_set_entry)
  moreover have "(\<Sum>j | live k j. 2 ^ hdr_order (block_hash_entries (set_entry k i e) j))
      = (\<Sum>j | live k j. 2 ^ hdr_order (block_hash_entries k j))"
    by (rule sum.cong) (use assms(2) in auto)
  ultimately show ?thesis
    using assms(2) live_finite [of k] by (simp add: live_bytes_def del: kmem_fields(10)) (simp add: add.commute)
qed

lemma live_bytes_remove:
  assumes "live k i"
  shows "live_bytes k = live_bytes (block_hash_free_entry k i) + 2 ^ hdr_order (block_hash_entries k i)"
proof -
  let ?k = "block_hash_free_entry k i"
  have i: "i < block_hash_num_entries k" using assms by (simp add: live_def)
  have n: "\<not> live ?k i" "hdr_order (block_hash_entries k i) \<noteq> 0"
    using assms i by (simp_all add: block_hash_free_entry_def live_set_entry) (simp add: live_def)
  have "set_entry ?k i (block_hash_entries k i) = k"
    by (simp add: block_hash_free_entry_def set_entry_def)
  then show ?thesis
    using live_bytes_insert [of i ?k "block_hash_entries k i"] n i by (simp add: block_hash_free_entry_def)
qed

text \<open>Replacing a pool by one in which other blocks are held.\<close>

lemma inv_put_pool:
  assumes inv: "kmem_inv k H" and z: "pools k z = Some mp" "zone_ok mp' A" "pool_range mp' = pool_range mp"
    and held: "\<And>i. live k i \<Longrightarrow> hdr_zone (block_hash_entries k i) = z \<Longrightarrow>
      (hdr_addr (block_hash_entries k i), hdr_order (block_hash_entries k i)) \<in> A"
  shows "kmem_inv (put_pool k z mp') (H(z := A))"
proof -
  note D = kmem_invD [OF inv]
  have "entry_ok (put_pool k z mp') (H(z := A)) (block_hash_entries k i)" if "live k i" for i
    using D(6) [OF that] held [OF that] by (auto simp: entry_ok_def)
  moreover have "pool_range mp1 \<inter> pool_range mp2 = {}"
    if "((pools k)(z \<mapsto> mp')) z1 = Some mp1" "((pools k)(z \<mapsto> mp')) z2 = Some mp2" "z1 \<noteq> z2" for z1 z2 mp1 mp2
    using that D(4) z(1,3) by (auto split: if_splits)
  ultimately show ?thesis
    unfolding kmem_inv_def using D z by auto
qed

lemma fresh_address:
  assumes inv: "kmem_inv k H" and z: "pools k z = Some mp" "zone_ok mp' (insert (a, q) (H z))"
    "pool_range mp' = pool_range mp" "(a, q) \<notin> H z" and i: "live k i"
  shows "hdr_addr (block_hash_entries k i) \<noteq> a"
proof
  assume a: "hdr_addr (block_hash_entries k i) = a"
  note D = kmem_invD [OF inv]
  let ?z = "hdr_zone (block_hash_entries k i)" and ?r = "hdr_order (block_hash_entries k i)"
  have e: "(a, ?r) \<in> H ?z" "pools k ?z \<noteq> None" using D(6) [OF i] a by (auto simp: entry_ok_def)
  show False
  proof (cases "?z = z")
    case True
    then have "?r = q" using bz.same_start [OF z(2), of a ?r q] e by simp
    then show False using e True z(4) by simp
  next
    case False
    obtain mp1 where mp1: "pools k ?z = Some mp1" using e(2) by auto
    have "a \<in> pool_range mp1" using bz.in_extent [OF D(3) [OF mp1] e(1)] start_in_region by blast
    moreover have "a \<in> pool_range mp" using bz.in_extent [OF z(2), of "(a, q)"] start_in_region z(3) by auto
    ultimately show False using D(4) [OF mp1 z(1) False] by blast
  qed
qed

lemma inv_insert_entry:
  assumes inv: "kmem_inv k H" and i: "i < block_hash_num_entries k" "hdr_order (block_hash_entries k i) = 0"
    and e: "entry_ok k H e" and fresh: "\<And>j. live k j \<Longrightarrow> hdr_addr (block_hash_entries k j) \<noteq> hdr_addr e"
  shows "kmem_inv ((set_entry k i e)\<lparr>kmem_bytes_allocated := kmem_bytes_allocated k + 2 ^ hdr_order e\<rparr>) H"
proof -
  note D = kmem_invD [OF inv]
  let ?k = "(set_entry k i e)\<lparr>kmem_bytes_allocated := kmem_bytes_allocated k + 2 ^ hdr_order e\<rparr>"
  have n: "\<not> live k i" using i by (simp add: live_def)
  have q: "hdr_order e \<noteq> 0" using e by (auto simp: entry_ok_def MIN_ORDER_def)
  have l: "live ?k j \<longleftrightarrow> j = i \<or> live k j" for j using i(1) q by (simp add: live_set_entry)
  have b: "block_hash_entries ?k j = (if j = i then e else block_hash_entries k j)" for j by simp
  have ok: "entry_ok ?k H e' = entry_ok k H e'" for e' by (simp add: entry_ok_def)
  have bytes: "kmem_bytes_allocated ?k = of_nat (live_bytes ?k)"
    using D(8) live_bytes_insert [OF i(1) n q] by simp
  have uniq: "j1 = j2" if "j1 = i \<or> live k j1" "j2 = i \<or> live k j2"
    "hdr_addr (if j1 = i then e else block_hash_entries k j1) = hdr_addr (if j2 = i then e else block_hash_entries k j2)"
    for j1 j2
    using that fresh [of j1] fresh [of j2] D(7) [of j1 j2] by (auto split: if_splits)
  have f: "pools ?k = pools k" "block_hash_num_entries ?k = block_hash_num_entries k" by simp_all
  show ?thesis
  proof (rule kmem_invI, unfold f l b ok)
    show "z \<noteq> NULL \<and> zone_ok mp (H z)" if "pools k z = Some mp" for z mp using D(2,3) [OF that] by blast
    show "hdr_addr (if j = i then e else block_hash_entries k j) = NULL"
      if "j < block_hash_num_entries k" "hdr_order (if j = i then e else block_hash_entries k j) = 0" for j
      using that D(5) q by (auto split: if_splits)
    show "entry_ok k H (if j = i then e else block_hash_entries k j)" if "j = i \<or> live k j" for j
      using that e D(6) by auto
  qed (fact D(1), fact D(4), fact uniq, fact bytes)
qed

lemma probe_set: "0 < block_hash_num_entries k \<Longrightarrow> set (probe k p) = {..<block_hash_num_entries k}"
proof -
  assume "0 < block_hash_num_entries k"
  then have "block_hash_hash k p < block_hash_num_entries k" by (simp add: block_hash_hash_def Let_def)
  then show ?thesis by (auto simp: probe_def Let_def)
qed

lemma find_SomeD: "find P xs = Some x \<Longrightarrow> P x \<and> x \<in> set xs"
  by (induction xs) (auto split: if_splits)

lemma find_entry_live:
  assumes inv: "kmem_inv k H" and p: "p \<noteq> NULL"
  shows "block_hash_find_entry k p = Some i \<longleftrightarrow> live k i \<and> hdr_addr (block_hash_entries k i) = p"
proof -
  note D = kmem_invD [OF inv]
  have hit: "live k j \<and> hdr_addr (block_hash_entries k j) = p" if "block_hash_find_entry k p = Some j" for j
    using find_SomeD [OF that [unfolded block_hash_find_entry_def]] probe_set [OF D(1), of p] D(5) [of j] p
    by (auto simp: live_def)
  show ?thesis
  proof
    assume i: "live k i \<and> hdr_addr (block_hash_entries k i) = p"
    then have "block_hash_find_entry k p \<noteq> None"
      using probe_set [OF D(1), of p] by (auto simp: block_hash_find_entry_def find_None_iff live_def)
    then obtain j where j: "block_hash_find_entry k p = Some j" by blast
    then show "block_hash_find_entry k p = Some i" using hit [OF j] i D(7) [of j i] by simp
  qed (rule hit)
qed

lemma block_hash_alloc_ok:
  assumes "0 < block_hash_num_entries k" "block_hash_alloc k p = Some (i, k1)"
  shows "i < block_hash_num_entries k" "hdr_order (block_hash_entries k i) = 0"
    "set_entry k1 i e = set_entry k i e" "kmem_bytes_allocated k1 = kmem_bytes_allocated k"
  using assms find_SomeD [of _ "probe k p" i] probe_set [OF assms(1), of p]
  by (auto simp: block_hash_alloc_def split: option.splits)

text \<open>The regions of a list have pools.\<close>

definition regions_ok :: "kmem \<Rightarrow> ptr list \<Rightarrow> bool" where
  "regions_ok k rs \<longleftrightarrow> (\<forall>r \<in> set rs. \<exists>reg. r \<noteq> NULL \<and> regions k r = Some reg \<and> pools k (mm_state reg) \<noteq> None)"

lemma regions_ok_put: "regions_ok k rs \<Longrightarrow> regions_ok (put_pool k z mp) rs"
  unfolding regions_ok_def kmem_fields by (metis fun_upd_apply option.distinct(1))

text \<open>The ranges of the pools, which no operation changes.\<close>

definition extents :: "kmem \<Rightarrow> ptr \<Rightarrow> nat set option" where
  "extents k z = map_option pool_range (pools k z)"

lemma extents_put [simp]:
  "pools k z = Some mp \<Longrightarrow> pool_range mp' = pool_range mp \<Longrightarrow> extents (put_pool k z mp') = extents k"
  by (auto simp: extents_def)

lemma extents_fields [simp]:
  "extents (set_entry k i e) = extents k" "extents (k\<lparr>kmem_bytes_allocated := n\<rparr>) = extents k"
  by (simp_all add: extents_def fun_eq_iff)

lemma malloc_from_ok:
  assumes "kmem_inv k H" "regions_ok k rs" "MIN_ORDER \<le> order"
  shows "\<exists>p k'. malloc_from k order rs = Inr (p, k') \<and> extents k' = extents k
    \<and> (p = NULL \<longrightarrow> kmem_inv k' H \<and> block_hash_entries k' = block_hash_entries k)
    \<and> (p \<noteq> NULL \<longrightarrow> kmem_bytes_allocated k' = kmem_bytes_allocated k + 2 ^ order)
    \<and> (p \<noteq> NULL \<longrightarrow> (\<exists>z i. kmem_inv k' (H(z := insert (p, order) (H z))) \<and> (p, order) \<notin> H z
        \<and> live k' i \<and> block_hash_entries k' i = \<lparr>hdr_addr = p, hdr_order = order, hdr_zone = z\<rparr>))"
  using assms(1,2)
proof (induction rs arbitrary: k)
  case Nil
  then show ?case by simp
next
  case (Cons r rs)
  note D = kmem_invD [OF Cons.prems(1)]
  obtain reg mp where r: "r \<noteq> NULL" "regions k r = Some reg" "pools k (mm_state reg) = Some mp"
    using Cons.prems(2) by (auto simp: regions_ok_def)
  let ?z = "mm_state reg"
  note z = D(2,3) [OF r(3)]
  obtain a mp1 where A: "buddy_alloc mp order = Inr (a, mp1)" "pool_range mp1 = pool_range mp"
    "a = NULL \<longrightarrow> mp1 = mp" "a \<noteq> NULL \<longrightarrow> zone_ok mp1 (insert (a, order) (H ?z)) \<and> (a, order) \<notin> H ?z"
    using bz.alloc_law [OF z(2) assms(3)] by auto
  have "regions_ok k rs" using Cons.prems(2) by (simp add: regions_ok_def)
  then have rs: "regions_ok (put_pool k ?z mp') rs" for mp' by (rule regions_ok_put)
  have unchanged: "kmem_inv (put_pool k ?z mp') H" if "zone_ok mp' (H ?z)" "pool_range mp' = pool_range mp" for mp'
  proof -
    have "(hdr_addr (block_hash_entries k i), hdr_order (block_hash_entries k i)) \<in> H ?z"
      if "live k i" "hdr_zone (block_hash_entries k i) = ?z" for i
      using D(6) [OF that(1)] that(2) by (simp add: entry_ok_def)
    then show ?thesis using inv_put_pool [OF Cons.prems(1) r(3) that] by simp
  qed
  show ?case
  proof (cases "a = NULL")
    case True
    then have "mp1 = mp" using A(3) by simp
    have inv1: "kmem_inv (put_pool k ?z mp) H" using unchanged z(2) by blast
    have step: "malloc_from k order (r # rs) = malloc_from (put_pool k ?z mp) order rs"
      using r z A(1) True \<open>mp1 = mp\<close> by (simp add: Let_def)
    show ?thesis using Cons.IH [OF inv1 rs] r(3) unfolding step by simp
  next
    case False
    let ?k1 = "put_pool k ?z mp1"
    show ?thesis
    proof (cases "block_hash_alloc ?k1 a")
      case None
      obtain mp2 where B: "buddy_free mp1 a order = Inr mp2" "pool_range mp2 = pool_range mp" "zone_ok mp2 (H ?z)"
        using bz.give_back [OF z(2) assms(3) A(1) False] by auto
      have inv2: "kmem_inv (put_pool k ?z mp2) H" using unchanged B(2,3) by blast
      have "put_pool ?k1 ?z mp2 = put_pool k ?z mp2" by (simp add: put_pool_def)
      then have step: "malloc_from k order (r # rs) = malloc_from (put_pool k ?z mp2) order rs"
        using r z A(1) False None B(1) by (simp add: Let_def)
      show ?thesis using Cons.IH [OF inv2 rs] r(3) B(2) unfolding step by simp
    next
      case (Some ik)
      obtain i k2 where ik: "block_hash_alloc ?k1 a = Some (i, k2)" using Some by (cases ik) auto
      let ?H = "H(?z := insert (a, order) (H ?z))"
      let ?e = "\<lparr>hdr_addr = a, hdr_order = order, hdr_zone = ?z\<rparr>"
      have Z: "zone_ok mp1 (insert (a, order) (H ?z))" "(a, order) \<notin> H ?z" using A(4) False by simp_all
      have "(hdr_addr (block_hash_entries k j), hdr_order (block_hash_entries k j)) \<in> insert (a, order) (H ?z)"
        if "live k j" "hdr_zone (block_hash_entries k j) = ?z" for j
        using D(6) [OF that(1)] that(2) by (simp add: entry_ok_def)
      then have inv1: "kmem_inv ?k1 ?H" using inv_put_pool [OF Cons.prems(1) r(3) Z(1) A(2)] by blast
      note I = block_hash_alloc_ok [OF kmem_invD(1) [OF inv1] ik]
      have e: "entry_ok ?k1 ?H ?e" using False assms(3) by (simp add: entry_ok_def)
      have fresh: "hdr_addr (block_hash_entries ?k1 j) \<noteq> hdr_addr ?e" if "live ?k1 j" for j
        using fresh_address [OF Cons.prems(1) r(3) Z(1) A(2) Z(2), of j] that by simp
      let ?k3 = "(set_entry ?k1 i ?e)\<lparr>kmem_bytes_allocated := kmem_bytes_allocated ?k1 + 2 ^ hdr_order ?e\<rparr>"
      have inv3: "kmem_inv ?k3 ?H" using inv_insert_entry [OF inv1 I(1,2) e fresh] .
      have step: "malloc_from k order (r # rs) = Inr (a, ?k3)"
        using r z A(1) False ik I(3,4) by (simp add: Let_def)
      have "live ?k3 i" using I(1) assms(3) by (simp add: live_set_entry MIN_ORDER_def)
      moreover have "block_hash_entries ?k3 i = ?e" by simp
      ultimately have "\<exists>z i. kmem_inv ?k3 (H(z := insert (a, order) (H z))) \<and> (a, order) \<notin> H z \<and> live ?k3 i
          \<and> block_hash_entries ?k3 i = \<lparr>hdr_addr = a, hdr_order = order, hdr_zone = z\<rparr>"
        using inv3 Z(2) by blast
      moreover have "extents ?k3 = extents k" "kmem_bytes_allocated ?k3 = kmem_bytes_allocated k + 2 ^ order"
        using r(3) A(2) by simp_all
      ultimately show ?thesis
        unfolding step using False by (intro exI [of _ a] exI [of _ ?k3]) blast
    qed
  qed
qed

lemma inv_remove_entry:
  assumes inv: "kmem_inv k H" and i: "live k i"
  shows "kmem_inv ((block_hash_free_entry k i)\<lparr>kmem_bytes_allocated :=
    kmem_bytes_allocated k - 2 ^ hdr_order (block_hash_entries k i)\<rparr>) H"
proof -
  note D = kmem_invD [OF inv]
  let ?e = "\<lparr>hdr_addr = 0, hdr_order = 0, hdr_zone = 0\<rparr>"
  let ?k = "(block_hash_free_entry k i)\<lparr>kmem_bytes_allocated :=
    kmem_bytes_allocated k - 2 ^ hdr_order (block_hash_entries k i)\<rparr>"
  have il: "i < block_hash_num_entries k" using i by (simp add: live_def)
  have l: "live ?k j \<longleftrightarrow> j \<noteq> i \<and> live k j" for j
    using il by (simp add: block_hash_free_entry_def live_set_entry)
  have b: "block_hash_entries ?k j = (if j = i then ?e else block_hash_entries k j)" for j
    by (simp add: block_hash_free_entry_def)
  have ok: "entry_ok ?k H e' = entry_ok k H e'" for e' by (simp add: entry_ok_def block_hash_free_entry_def)
  have bytes: "kmem_bytes_allocated ?k = of_nat (live_bytes ?k)"
    using D(8) live_bytes_remove [OF i] by simp
  have f: "pools ?k = pools k" "block_hash_num_entries ?k = block_hash_num_entries k"
    by (simp_all add: block_hash_free_entry_def)
  show ?thesis
  proof (rule kmem_invI, unfold f l b ok)
    show "z \<noteq> NULL \<and> zone_ok mp (H z)" if "pools k z = Some mp" for z mp using D(2,3) [OF that] by blast
    show "hdr_addr (if j = i then ?e else block_hash_entries k j) = NULL"
      if "j < block_hash_num_entries k" "hdr_order (if j = i then ?e else block_hash_entries k j) = 0" for j
      using that D(5) by (auto split: if_splits)
    show "entry_ok k H (if j = i then ?e else block_hash_entries k j)" if "j \<noteq> i \<and> live k j" for j
      using that D(6) by auto
    show "j1 = j2" if "j1 \<noteq> i \<and> live k j1" "j2 \<noteq> i \<and> live k j2"
      "hdr_addr (if j1 = i then ?e else block_hash_entries k j1) = hdr_addr (if j2 = i then ?e else block_hash_entries k j2)"
      for j1 j2
      using that D(7) [of j1 j2] by simp
  qed (fact D(1), fact D(4), fact bytes)
qed

lemma free_ok:
  assumes inv: "kmem_inv k H" and i: "live k i"
    and e: "block_hash_entries k i = \<lparr>hdr_addr = p, hdr_order = q, hdr_zone = z\<rparr>"
  shows "\<exists>k'. free k p = Inr k' \<and> extents k' = extents k \<and> kmem_inv k' (H(z := H z - {(p, q)}))
    \<and> kmem_bytes_allocated k' = kmem_bytes_allocated k - 2 ^ q
    \<and> (\<forall>j. live k' j \<longleftrightarrow> j \<noteq> i \<and> live k j)"
proof -
  note D = kmem_invD [OF inv]
  have ok: "p \<noteq> NULL" "MIN_ORDER \<le> q" "(p, q) \<in> H z" "pools k z \<noteq> None"
    using D(6) [OF i] e by (auto simp: entry_ok_def)
  then obtain mp where mp: "pools k z = Some mp" by auto
  obtain mp' where B: "buddy_free mp p q = Inr mp'" "pool_range mp' = pool_range mp" "zone_ok mp' (H z - {(p, q)})"
    using bz.release_law [OF D(3) [OF mp] ok(3,2)] by auto
  let ?k1 = "(block_hash_free_entry k i)\<lparr>kmem_bytes_allocated := kmem_bytes_allocated k - 2 ^ q\<rparr>"
  have inv1: "kmem_inv ?k1 H" using inv_remove_entry [OF inv i] e by simp
  have il: "i < block_hash_num_entries k" using i by (simp add: live_def)
  have l: "live ?k1 j \<longleftrightarrow> j \<noteq> i \<and> live k j" for j
    using il by (simp add: block_hash_free_entry_def live_set_entry)
  have held: "(hdr_addr (block_hash_entries ?k1 j), hdr_order (block_hash_entries ?k1 j)) \<in> H z - {(p, q)}"
    if "live ?k1 j" "hdr_zone (block_hash_entries ?k1 j) = z" for j
  proof -
    have j: "j \<noteq> i" "live k j" using that(1) l by simp_all
    then have b: "block_hash_entries ?k1 j = block_hash_entries k j" by (simp add: block_hash_free_entry_def)
    have "hdr_addr (block_hash_entries k j) \<noteq> p" using D(7) [OF j(2) i] j(1) e by auto
    then show ?thesis using D(6) [OF j(2)] that(2) unfolding b by (auto simp: entry_ok_def)
  qed
  have mp1: "pools ?k1 z = Some mp" using mp by (simp add: block_hash_free_entry_def)
  have inv2: "kmem_inv (put_pool ?k1 z mp') (H(z := H z - {(p, q)}))"
    using inv_put_pool [OF inv1 mp1 B(3,2) held] .
  have f: "block_hash_find_entry k p = Some i" using find_entry_live [OF inv ok(1)] i e by simp
  have "free k p = Inr (put_pool ?k1 z mp')"
    using ok(1) f e mp B(1) D(2) [OF mp]
    by (simp add: free_def Let_def block_hash_free_entry_def put_pool_def set_entry_def)
  moreover have "extents (put_pool ?k1 z mp') = extents k"
    using mp1 B(2) by (simp add: block_hash_free_entry_def)
  ultimately show ?thesis using inv2 l by simp
qed

lemma live_blocks_apart:
  assumes inv: "kmem_inv k H" and "live k i" "live k j" "i \<noteq> j"
  shows "region (hdr_addr (block_hash_entries k i), hdr_order (block_hash_entries k i))
    \<inter> region (hdr_addr (block_hash_entries k j), hdr_order (block_hash_entries k j)) = {}"
proof -
  note D = kmem_invD [OF inv]
  let ?B = "\<lambda>i. (hdr_addr (block_hash_entries k i), hdr_order (block_hash_entries k i))"
  let ?z = "\<lambda>i. hdr_zone (block_hash_entries k i)"
  obtain mi mj where m: "pools k (?z i) = Some mi" "pools k (?z j) = Some mj" "?B i \<in> H (?z i)" "?B j \<in> H (?z j)"
    using D(6) [OF assms(2)] D(6) [OF assms(3)] by (auto simp: entry_ok_def)
  show ?thesis
  proof (cases "?z i = ?z j")
    case True
    have "?B i \<noteq> ?B j" using D(7) [OF assms(2,3)] assms(4) by auto
    then show ?thesis using bz.apart [OF D(3) [OF m(1)] m(3), of "?B j"] m(4) True by simp
  next
    case False
    have "region (?B i) \<subseteq> pool_range mi" "region (?B j) \<subseteq> pool_range mj"
      using bz.in_extent [OF D(3) [OF m(1)] m(3)] bz.in_extent [OF D(3) [OF m(2)] m(4)] by simp_all
    then show ?thesis using D(4) [OF m(1,2) False] by blast
  qed
qed

section \<open>Properties\<close>

text \<open>An allocator with the pool of 64 bytes at address 64 and an empty hash table.\<close>

definition kmem64 :: kmem where
  "kmem64 = \<lparr>pools = [100 \<mapsto> pool64], regions = [200 \<mapsto> \<lparr>region_base = 64, region_len = 64, mm_state = 100\<rparr>],
     ordered_regions = (\<lambda>_. [200]), glob_zone_list = [200],
     block_hash_entries = (\<lambda>_. \<lparr>hdr_addr = 0, hdr_order = 0, hdr_zone = 0\<rparr>), block_hash_num_entries = 53,
     kmem_bytes_managed = 64, kmem_bytes_allocated = 0\<rparr>"

lemma kmem64_inv: "kmem_inv kmem64 (\<lambda>_. {})"
proof -
  have "\<not> live kmem64 i" for i by (simp add: live_def kmem64_def)
  moreover from this have "live_bytes kmem64 = 0" by (simp add: live_bytes_def)
  moreover have "zone_ok pool64 {}"
    using pool64_inv pool64_coalesced by (simp add: zone_ok_def MIN_ORDER_def)
  ultimately show ?thesis
    unfolding kmem_inv_def by (auto simp: kmem64_def split: if_splits)
qed

lemma kmem64_regions: "regions_ok kmem64 (ordered_regions kmem64 0)"
  by (simp add: regions_ok_def kmem64_def)

text \<open>
  C3. \<open>malloc\<close> is safe: with well-formed pools and a consistent hash table it never faults, for any
  size from 1 to \<open>2 ^ 63\<close>. It returns NULL and leaves the allocator consistent, or the address of a
  block at least as large as requested that overlaps no other allocated block, recorded in the table.
\<close>

theorem malloc_safe:
  assumes "kmem_inv k H" "regions_ok k (ordered_regions k cpu)" "0 < n" "unat n \<le> 2 ^ 63"
  shows "\<exists>p k'. malloc k cpu n = Inr (p, k') \<and> (p = NULL \<longrightarrow> kmem_inv k' H)
    \<and> (p \<noteq> NULL \<longrightarrow> (\<exists>H' i q. kmem_inv k' H' \<and> live k' i \<and> unat n \<le> 2 ^ q
        \<and> hdr_addr (block_hash_entries k' i) = p \<and> hdr_order (block_hash_entries k' i) = q
        \<and> (\<forall>j. live k' j \<longrightarrow> j \<noteq> i \<longrightarrow> region (p, q)
            \<inter> region (hdr_addr (block_hash_entries k' j), hdr_order (block_hash_entries k' j)) = {})))"
proof -
  note O = malloc_order_fits [OF assms(3,4)]
  obtain p k' where M: "malloc_from k (malloc_order n) (ordered_regions k cpu) = Inr (p, k')"
    "p = NULL \<longrightarrow> kmem_inv k' H"
    "p \<noteq> NULL \<longrightarrow> (\<exists>z i. kmem_inv k' (H(z := insert (p, malloc_order n) (H z))) \<and> live k' i
      \<and> block_hash_entries k' i = \<lparr>hdr_addr = p, hdr_order = malloc_order n, hdr_zone = z\<rparr>)"
    using malloc_from_ok [OF assms(1,2) O(3)] by blast
  have R: "\<exists>H' i q. kmem_inv k' H' \<and> live k' i \<and> unat n \<le> 2 ^ q
      \<and> hdr_addr (block_hash_entries k' i) = p \<and> hdr_order (block_hash_entries k' i) = q
      \<and> (\<forall>j. live k' j \<longrightarrow> j \<noteq> i \<longrightarrow> region (p, q)
          \<inter> region (hdr_addr (block_hash_entries k' j), hdr_order (block_hash_entries k' j)) = {})"
    if "p \<noteq> NULL"
  proof -
    obtain z i where z: "kmem_inv k' (H(z := insert (p, malloc_order n) (H z)))" "live k' i"
      "block_hash_entries k' i = \<lparr>hdr_addr = p, hdr_order = malloc_order n, hdr_zone = z\<rparr>"
      using M(3) \<open>p \<noteq> NULL\<close> by blast
    have "region (p, malloc_order n)
        \<inter> region (hdr_addr (block_hash_entries k' j), hdr_order (block_hash_entries k' j)) = {}"
      if "live k' j" "j \<noteq> i" for j
      using live_blocks_apart [OF z(1,2) that(1)] that(2) z(3) by auto
    then show ?thesis
      using z O(1) by (intro exI [of _ "H(z := insert (p, malloc_order n) (H z))"] exI [of _ i]
          exI [of _ "malloc_order n"]) simp
  qed
  show ?thesis
    unfolding malloc_def M(1)
    by (rule exI [of _ p], rule exI [of _ k'], rule conjI [OF refl], rule conjI [OF M(2)], rule impI, rule R)
qed

theorem malloc_safe_witness:
  "\<exists>p k'. malloc kmem64 0 20 = Inr (p, k') \<and> (p = NULL \<longrightarrow> kmem_inv k' (\<lambda>_. {}))
    \<and> (p \<noteq> NULL \<longrightarrow> (\<exists>H' i q. kmem_inv k' H' \<and> live k' i \<and> (20 :: nat) \<le> 2 ^ q
        \<and> hdr_addr (block_hash_entries k' i) = p \<and> hdr_order (block_hash_entries k' i) = q
        \<and> (\<forall>j. live k' j \<longrightarrow> j \<noteq> i \<longrightarrow> region (p, q)
            \<inter> region (hdr_addr (block_hash_entries k' j), hdr_order (block_hash_entries k' j)) = {})))"
  using malloc_safe [OF kmem64_inv kmem64_regions, of 20] by simp

lemma zone_ok_same_free:
  assumes "zone_ok mp A" "zone_ok mp' A" "pool_range mp = pool_range mp'"
  shows "free_blocks mp = free_blocks mp'"
proof -
  have r: "base_addr mp = base_addr mp' \<and> base_addr mp + 2 ^ pool_order mp = base_addr mp' + 2 ^ pool_order mp'"
    using atLeastLessThan_eq_iff [of "base_addr mp" "base_addr mp + 2 ^ pool_order mp" "base_addr mp'"
        "base_addr mp' + 2 ^ pool_order mp'"] assms(3) unfolding pool_range_def by fastforce
  then have "(2 :: nat) ^ pool_order mp = 2 ^ pool_order mp'" by (metis add_left_cancel)
  then have "pool_order mp = pool_order mp'" by (metis power_inject_exp one_less_numeral_iff semiring_norm(76))
  moreover have "base_addr mp = base_addr mp'" using r by blast
  ultimately have "same_pool mp' mp"
    using assms(1,2) by (auto simp: zone_ok_def dest!: pool_invD(1) simp: pool_shape_def)
  then show ?thesis
    using alloc_free_blocks [of mp' A mp] assms(1,2) by (simp add: zone_ok_def)
qed

text \<open>
  C19. Allocating and freeing is a round trip: \<open>free\<close> of the address that \<open>malloc\<close> returned succeeds
  and restores the count of allocated bytes and the free blocks of every pool.
\<close>

theorem malloc_free_round_trip:
  assumes "kmem_inv k H" "regions_ok k (ordered_regions k cpu)" "0 < n" "unat n \<le> 2 ^ 63"
    and "malloc k cpu n = Inr (p, k1)" "p \<noteq> NULL"
  shows "\<exists>k2. free k1 p = Inr k2 \<and> kmem_inv k2 H \<and> kmem_bytes_allocated k2 = kmem_bytes_allocated k
    \<and> (\<forall>z. map_option free_blocks (pools k2 z) = map_option free_blocks (pools k z))"
proof -
  let ?q = "malloc_order n"
  note O = malloc_order_fits [OF assms(3,4)]
  obtain z i where z: "kmem_inv k1 (H(z := insert (p, ?q) (H z)))" "(p, ?q) \<notin> H z" "live k1 i"
    "block_hash_entries k1 i = \<lparr>hdr_addr = p, hdr_order = ?q, hdr_zone = z\<rparr>" "extents k1 = extents k"
    "kmem_bytes_allocated k1 = kmem_bytes_allocated k + 2 ^ ?q"
    using malloc_from_ok [OF assms(1,2) O(3)] assms(5,6) unfolding malloc_def by auto
  obtain k2 where F: "free k1 p = Inr k2" "extents k2 = extents k1"
    "kmem_inv k2 ((H(z := insert (p, ?q) (H z)))(z := insert (p, ?q) (H z) - {(p, ?q)}))"
    "kmem_bytes_allocated k2 = kmem_bytes_allocated k1 - 2 ^ ?q"
    using free_ok [OF z(1,3,4)] by auto
  have "(H(z := insert (p, ?q) (H z)))(z := insert (p, ?q) (H z) - {(p, ?q)}) = H" using z(2) by auto
  then have inv2: "kmem_inv k2 H" using F(3) by simp
  have same: "map_option free_blocks (pools k2 z) = map_option free_blocks (pools k z)" for z
  proof -
    have e: "map_option pool_range (pools k2 z) = map_option pool_range (pools k z)"
      using F(2) z(5) by (metis extents_def)
    show ?thesis
    proof (cases "pools k z")
      case None
      then show ?thesis using e by simp
    next
      case (Some mp)
      then obtain mp2 where mp2: "pools k2 z = Some mp2" "pool_range mp2 = pool_range mp" using e by auto
      show ?thesis
        using zone_ok_same_free [OF kmem_invD(3) [OF inv2 mp2(1)] kmem_invD(3) [OF assms(1) Some] mp2(2)]
          Some mp2(1) by simp
    qed
  qed
  have "kmem_bytes_allocated k2 = kmem_bytes_allocated k" using F(4) z(6) by simp
  then show ?thesis using F(1) inv2 same by blast
qed

theorem malloc_free_round_trip_witness:
  "\<exists>k2. bindr (malloc kmem64 0 20) (\<lambda>(p, k). free k p) = Inr k2 \<and> kmem_inv k2 (\<lambda>_. {})
    \<and> kmem_bytes_allocated k2 = 0 \<and> map_option free_blocks (pools k2 100) = Some {(64, 6)}"
proof -
  have "(case buddy_alloc pool64 5 of Inl _ \<Rightarrow> 0 | Inr (a, _) \<Rightarrow> a) = 64" by code_simp
  then obtain mp where b: "buddy_alloc pool64 5 = Inr (64, mp)"
    by (auto split: sum.splits prod.splits)
  let ?k = "put_pool kmem64 100 mp"
  have "set (probe ?k 64) = {..<53}" using probe_set [of ?k 64] by (simp add: kmem64_def put_pool_def)
  then have "find (\<lambda>i. hdr_order (block_hash_entries ?k i) = 0) (probe ?k 64) \<noteq> None"
    by (auto simp: find_None_iff kmem64_def put_pool_def intro: exI [of _ 0])
  then obtain i k' where h: "block_hash_alloc ?k 64 = Some (i, k')"
    by (auto simp: block_hash_alloc_def)
  have "malloc_order 20 = 5" by code_simp
  moreover have "ordered_regions kmem64 0 = [200]" "pools kmem64 100 = Some pool64"
    "regions kmem64 200 = Some \<lparr>region_base = 64, region_len = 64, mm_state = 100\<rparr>"
    by (simp_all add: kmem64_def)
  ultimately obtain k1 where e: "malloc kmem64 0 20 = Inr (64, k1)"
    using b h by (auto simp: malloc_def Let_def)
  have "kmem_bytes_allocated kmem64 = 0" "pools kmem64 100 = Some pool64" by (simp_all add: kmem64_def)
  then show ?thesis
    using malloc_free_round_trip [OF kmem64_inv kmem64_regions, of 20 64 k1] e
    by (auto dest: spec [of _ 100])
qed

text \<open>
  Boundary cases of the interface: \<open>free\<close> ignores NULL and addresses that are not in the table; a region
  without a pool, which the initialisation leaves on the lists, makes \<open>malloc\<close> fault; a size above
  \<open>2 ^ 63\<close> is rounded to a power of two that does not fit the word, and the order comes out as the smallest.
\<close>

lemma free_unknown: "addr = NULL \<or> block_hash_find_entry k addr = None \<Longrightarrow> free k addr = Inr k"
  by (auto simp: free_def)

lemma malloc_region_without_pool:
  assumes "ordered_regions k cpu = r # rs" "r \<noteq> NULL" "regions k r = Some reg" "mm_state reg = NULL"
  shows "malloc k cpu n = Inl NullDeref"
  using assms by (simp add: malloc_def)

text \<open>The initialisation leaves a region that is too small without a pool, but on the lists of the CPUs.\<close>

lemma init_zones_skips:
  assumes "init_zones init new k n rs = Inr (m, k')" "regions k r = Some reg" "region_len reg < 2 ^ MIN_ORDER"
  shows "regions k' r = Some reg"
  using assms
proof (induction rs arbitrary: k n)
  case (Cons s rs)
  show ?case
  proof (cases "s = r")
    case True
    then show ?thesis using Cons by (auto simp: bindr_eq_Inr load_Inr)
  next
    case False
    then show ?thesis
      using Cons.prems by (auto simp: bindr_eq_Inr load_Inr create_zone_def Let_def put_pool_def
          split: if_splits option.splits intro: Cons.IH)
  qed
qed simp

lemma order_regions_regions:
  "order_regions dr adj cd room k is = (rc, k') \<Longrightarrow> regions k' = regions k"
  by (induction "is" arbitrary: k) (auto simp: Let_def split: if_splits)

lemma order_regions_list:
  assumes "order_regions dr adj cd room k is = (0, k')" "distinct is" "i \<in> set is"
  shows "ordered_regions k' i = region_order dr adj (cd i)"
  using assms
proof (induction "is" arbitrary: k)
  case (Cons j js)
  have keep: "ordered_regions k2 i = ordered_regions k1 i"
    if "order_regions dr adj cd room k1 js = (0, k2)" "i \<notin> set js" for k1 k2
    using that by (induction js arbitrary: k1) (auto simp: Let_def split: if_splits)
  show ?case
  proof (cases "i = j")
    case True
    then show ?thesis
      using Cons.prems keep [of _ k'] by (auto simp: Let_def split: if_splits)
  next
    case False
    then show ?thesis using Cons by (auto simp: Let_def split: if_splits)
  qed
qed simp

lemma small_region_breaks_malloc:
  assumes "nk_kmem_init init new hash_ok nd dr adj nc cd room k = Inr (0, k')"
    and "i < nc" "region_order dr adj (cd i) = r # rs" "r \<noteq> NULL" "regions k r = Some reg"
    and "region_len reg < 2 ^ MIN_ORDER" "mm_state reg = NULL"
  shows "malloc k' i n = Inl NullDeref"
proof -
  let ?zones = "init_zones init new (k\<lparr>glob_zone_list := []\<rparr>) 0 (concat (map dr [0..<nd]))"
  obtain m k1 where z1: "?zones = Inr (m, k1)"
    using assms(1) by (cases ?zones) (auto simp: nk_kmem_init_def)
  obtain rc k2 where o: "order_regions dr adj cd room k1 [0..<nc] = (rc, k2)"
    by (cases "order_regions dr adj cd room k1 [0..<nc]") auto
  obtain rc' k3 where h: "block_hash_init hash_ok m k2 = (rc', k3)"
    by (cases "block_hash_init hash_ok m k2") auto
  have z: "?zones = Inr (m, k1)" "order_regions dr adj cd room k1 [0..<nc] = (0, k2)"
    "block_hash_init hash_ok m k2 = (0, k')"
    using assms(1) z1 o h by (auto simp: nk_kmem_init_def split: if_splits)
  have "regions k1 r = Some reg" using init_zones_skips [OF z(1)] assms(5,6) by simp
  then have "regions k2 r = Some reg" using order_regions_regions [OF z(2)] by simp
  moreover have "ordered_regions k2 i = r # rs"
    using order_regions_list [OF z(2)] assms(2,3) by simp
  moreover have "regions k' = regions k2" "ordered_regions k' = ordered_regions k2"
    using z(3) by (auto simp: block_hash_init_def Let_def split: if_splits)
  ultimately show ?thesis using malloc_region_without_pool assms(4,7) by simp
qed

lemma malloc_order_wraps:
  assumes "2 ^ 63 < unat n"
  shows "malloc_order n = MIN_ORDER"
proof -
  have u: "unat (n - 1) = unat n - 1" using assms by (intro unat_minus_one) auto
  have nz: "n - 1 \<noteq> 0"
  proof
    assume "n - 1 = 0"
    then have "unat n - 1 = 0" using u by simp
    then show False using assms by simp
  qed
  note B = fls64_bounds [OF nz]
  have "(2 :: nat) ^ 63 < 2 ^ fls64 (n - 1)" using B(1) u assms by linarith
  then have "63 < fls64 (n - 1)" by (rule power_less_imp_less_exp [rotated]) simp
  then have "fls64 (n - 1) = 64" using B(3) by simp
  then show ?thesis by (simp add: malloc_order_def ilog2_roundup MIN_ORDER_def)
qed

text \<open>
  Memory at address zero is added as one chunk of its whole size, of which only the largest power of
  two reaches the pool, while the count of managed bytes takes all of it.
\<close>

lemma add_memory_drops_tail:
  "chunk_size 0 sz = sz" "ilog2 96 = 6"
  by (simp add: chunk_size_def) code_simp

end
