(* ===== verification/Bitmap.thy ===== *)
theory Bitmap
  imports Prelude
begin

text \<open>
  Bitmaps (lib/bitmap.c, include/lib/bitmap.h): arrays of 64-bit words searched and written a word
  at a time. A bitmap is a function from word indices; the search routines are proved equal to the
  search of one bit after the other, the range writes to change exactly the bits of their range.
  Positions and lengths, of type \<open>int\<close> in the range writes, are natural numbers: their sum stays below
  \<open>2 ^ 31\<close>, beyond which the source is undefined.
\<close>

unbundle bit_operations_syntax

section \<open>Words\<close>

type_synonym bitmap = "nat \<Rightarrow> u64"

abbreviation ones :: u64 where
  "ones \<equiv> NOT 0"

text \<open>The instruction \<open>bsf\<close>: the index of the lowest bit set; the code never applies it to 0.\<close>

definition bsf :: "u64 \<Rightarrow> nat" where
  "bsf w = (case find (bit w) [0..<64] of Some i \<Rightarrow> i | None \<Rightarrow> 0)"

definition ffs_word :: "u64 \<Rightarrow> nat" where
  "ffs_word w = bsf w"

definition ffz :: "u64 \<Rightarrow> nat" where
  "ffz w = bsf (NOT w)"

definition BITMAP_FIRST_WORD_MASK :: "nat \<Rightarrow> u64" where
  "BITMAP_FIRST_WORD_MASK start = push_bit (start mod 64) ones"

definition BITMAP_LAST_WORD_MASK :: "nat \<Rightarrow> u64" where
  "BITMAP_LAST_WORD_MASK nbits = (if nbits mod 64 \<noteq> 0 then push_bit (nbits mod 64) 1 - 1 else ones)"

section \<open>Searching\<close>

text \<open>
  Both searches have the same control flow: a partial first word, the whole words, a partial last
  word. \<open>found_first\<close> and \<open>found_middle\<close> are the labels of the code, \<open>result\<close> the number of bits
  before the current word and \<open>size\<close> the bits from there on.
\<close>

definition next_found_first :: "u64 \<Rightarrow> nat \<Rightarrow> nat \<Rightarrow> nat" where
  "next_found_first tmp result sz =
    (let tmp = tmp AND drop_bit (64 - sz) ones in
     if tmp = 0 then result + sz else result + ffs_word tmp)"

fun next_whole_words :: "bitmap \<Rightarrow> nat \<Rightarrow> nat \<Rightarrow> nat \<Rightarrow> nat" where
  "next_whole_words m p result sz =
    (if 64 \<le> sz then
       if m p \<noteq> 0 then result + ffs_word (m p)
       else next_whole_words m (Suc p) (result + 64) (sz - 64)
     else if sz = 0 then result
     else next_found_first (m p) result sz)"

declare next_whole_words.simps [simp del]

definition find_next_bit :: "bitmap \<Rightarrow> nat \<Rightarrow> nat \<Rightarrow> nat" where
  "find_next_bit m sz offset =
    (let p = offset div 64; result = offset - offset mod 64 in
     if offset \<ge> sz then sz
     else let sz = sz - result; offset = offset mod 64 in
       if offset \<noteq> 0 then
         let tmp = m p AND push_bit offset ones in
         if sz < 64 then next_found_first tmp result sz
         else if tmp \<noteq> 0 then result + ffs_word tmp
         else next_whole_words m (Suc p) (result + 64) (sz - 64)
       else next_whole_words m p result sz)"

definition zero_found_first :: "u64 \<Rightarrow> nat \<Rightarrow> nat \<Rightarrow> nat" where
  "zero_found_first tmp result sz =
    (let tmp = tmp OR push_bit sz ones in
     if tmp = ones then result + sz else result + ffz tmp)"

fun zero_whole_words :: "bitmap \<Rightarrow> nat \<Rightarrow> nat \<Rightarrow> nat \<Rightarrow> nat" where
  "zero_whole_words m p result sz =
    (if 64 \<le> sz then
       if NOT (m p) \<noteq> 0 then result + ffz (m p)
       else zero_whole_words m (Suc p) (result + 64) (sz - 64)
     else if sz = 0 then result
     else zero_found_first (m p) result sz)"

declare zero_whole_words.simps [simp del]

definition find_next_zero_bit :: "bitmap \<Rightarrow> nat \<Rightarrow> nat \<Rightarrow> nat" where
  "find_next_zero_bit m sz offset =
    (let p = offset div 64; result = offset - offset mod 64 in
     if offset \<ge> sz then sz
     else let sz = sz - result; offset = offset mod 64 in
       if offset \<noteq> 0 then
         let tmp = m p OR drop_bit (64 - offset) ones in
         if sz < 64 then zero_found_first tmp result sz
         else if NOT tmp \<noteq> 0 then result + ffz tmp
         else zero_whole_words m (Suc p) (result + 64) (sz - 64)
       else zero_whole_words m p result sz)"

definition find_first_bit :: "bitmap \<Rightarrow> nat \<Rightarrow> nat" where
  "find_first_bit m sz = next_whole_words m 0 0 sz"

definition find_first_zero_bit :: "bitmap \<Rightarrow> nat \<Rightarrow> nat" where
  "find_first_zero_bit m sz = zero_whole_words m 0 0 sz"

function bitmap_empty_words :: "bitmap \<Rightarrow> nat \<Rightarrow> nat \<Rightarrow> bool" where
  "bitmap_empty_words m k lim = (if k < lim then m k = 0 \<and> bitmap_empty_words m (Suc k) lim else True)"
  by pat_completeness auto
termination
  by (relation "measure (\<lambda>(_, k, lim). lim - k)") auto

declare bitmap_empty_words.simps [simp del]

definition bitmap_empty :: "bitmap \<Rightarrow> nat \<Rightarrow> bool" where
  "bitmap_empty m bits =
    (if \<not> bitmap_empty_words m 0 (bits div 64) then False
     else if bits mod 64 \<noteq> 0 then m (bits div 64) AND BITMAP_LAST_WORD_MASK bits = 0
     else True)"

definition bitmap_full :: "bitmap \<Rightarrow> nat \<Rightarrow> bool" where
  "bitmap_full m bits =
    (if \<not> bitmap_empty_words (\<lambda>k. NOT (m k)) 0 (bits div 64) then False
     else if bits mod 64 \<noteq> 0 then NOT (m (bits div 64)) AND BITMAP_LAST_WORD_MASK bits = 0
     else True)"

section \<open>Writing ranges\<close>

text \<open>The whole words of a range; the first, partial one is written before the loop comes to them.\<close>

fun set_words :: "bitmap \<Rightarrow> nat \<Rightarrow> nat \<Rightarrow> bitmap \<times> nat \<times> nat" where
  "set_words m p nr =
    (if 64 \<le> nr then set_words (m(p := m p OR ones)) (Suc p) (nr - 64) else (m, p, nr))"

declare set_words.simps [simp del]

definition bitmap_set :: "bitmap \<Rightarrow> nat \<Rightarrow> nat \<Rightarrow> bitmap" where
  "bitmap_set m start nr =
    (let p = start div 64; sz = start + nr; bits_to_set = 64 - start mod 64;
         mask_to_set = BITMAP_FIRST_WORD_MASK start;
         (m, p, nr, mask_to_set) =
           (if nr \<ge> bits_to_set then
              let (m, p, nr) = set_words (m(p := m p OR mask_to_set)) (Suc p) (nr - bits_to_set)
              in (m, p, nr, ones)
            else (m, p, nr, mask_to_set))
     in if nr \<noteq> 0 then m(p := m p OR (mask_to_set AND BITMAP_LAST_WORD_MASK sz)) else m)"

fun clear_words :: "bitmap \<Rightarrow> nat \<Rightarrow> nat \<Rightarrow> bitmap \<times> nat \<times> nat" where
  "clear_words m p nr =
    (if 64 \<le> nr then clear_words (m(p := m p AND NOT ones)) (Suc p) (nr - 64) else (m, p, nr))"

declare clear_words.simps [simp del]

definition bitmap_clear :: "bitmap \<Rightarrow> nat \<Rightarrow> nat \<Rightarrow> bitmap" where
  "bitmap_clear m start nr =
    (let p = start div 64; sz = start + nr; bits_to_clear = 64 - start mod 64;
         mask_to_clear = BITMAP_FIRST_WORD_MASK start;
         (m, p, nr, mask_to_clear) =
           (if nr \<ge> bits_to_clear then
              let (m, p, nr) = clear_words (m(p := m p AND NOT mask_to_clear)) (Suc p) (nr - bits_to_clear)
              in (m, p, nr, ones)
            else (m, p, nr, mask_to_clear))
     in if nr \<noteq> 0 then m(p := m p AND NOT (mask_to_clear AND BITMAP_LAST_WORD_MASK sz)) else m)"

section \<open>Bits one at a time\<close>

definition map_bit :: "bitmap \<Rightarrow> nat \<Rightarrow> bool" where
  "map_bit m i = bit (m (i div 64)) (i mod 64)"

text \<open>The reference: the first index from \<open>offset\<close> on with the property, or \<open>size\<close>.\<close>

definition next_index :: "(nat \<Rightarrow> bool) \<Rightarrow> nat \<Rightarrow> nat \<Rightarrow> nat" where
  "next_index P sz offset = (case find P [offset..<sz] of Some i \<Rightarrow> i | None \<Rightarrow> sz)"

lemma next_index_eqI:
  assumes "offset \<le> r" "r \<le> sz" "r < sz \<Longrightarrow> P r" "\<And>i. offset \<le> i \<Longrightarrow> i < r \<Longrightarrow> \<not> P i"
  shows "next_index P sz offset = r"
proof (cases "find P [offset..<sz]")
  case None
  then have "\<not> P i" if "offset \<le> i" "i < sz" for i
    using that by (auto simp: find_None_iff)
  then have "\<not> r < sz" using assms(1,3) by blast
  then show ?thesis using None assms(2) by (simp add: next_index_def)
next
  case (Some j)
  then obtain k where k: "k < length [offset..<sz]" "P ([offset..<sz] ! k)" "j = [offset..<sz] ! k"
    "\<forall>l<k. \<not> P ([offset..<sz] ! l)"
    by (auto simp: find_Some_iff)
  then have j: "offset \<le> j" "j < sz" "P j" by auto
  have first: "\<not> P i" if "offset \<le> i" "i < j" for i
    using k that by (auto dest: spec [of _ "i - offset"])
  have "\<not> j < r" using assms(4) j by blast
  moreover have "\<not> r < j" using first [of r] assms(1,3) j by auto
  ultimately show ?thesis using Some by (simp add: next_index_def)
qed

lemma bsf_first:
  assumes "w \<noteq> 0"
  shows "bit w (bsf w)" "bsf w < 64" "\<And>i. i < bsf w \<Longrightarrow> \<not> bit w i"
proof -
  obtain i where "bit w i" using assms by (metis bit_eqI bit_0_eq bot_apply bot_bool_def)
  moreover from this have "i < 64" using bit_imp_le_length by fastforce
  ultimately have "find (bit w) [0..<64] \<noteq> None" by (auto simp: find_None_iff)
  then obtain j where f: "find (bit w) [0..<64] = Some j" by blast
  then obtain k where k: "k < 64" "bit w ([0..<64] ! k)" "j = [0..<64] ! k"
    "\<forall>l<k. \<not> bit w ([0..<64] ! l)"
    by (auto simp: find_Some_iff)
  have j: "j = k" using k by simp
  have e: "bsf w = j" using f by (simp add: bsf_def)
  show "bit w (bsf w)" "bsf w < 64" using k j e by auto
  show "\<not> bit w i" if "i < bsf w" for i using k j e that by auto
qed

lemma next_index_props:
  assumes "offset \<le> sz"
  shows "offset \<le> next_index P sz offset" "next_index P sz offset \<le> sz"
    "next_index P sz offset < sz \<Longrightarrow> P (next_index P sz offset)"
    "\<And>i. offset \<le> i \<Longrightarrow> i < next_index P sz offset \<Longrightarrow> \<not> P i"
proof -
  define r where "r = (if \<exists>i. offset \<le> i \<and> i < sz \<and> P i then LEAST i. offset \<le> i \<and> i < sz \<and> P i else sz)"
  have "offset \<le> r \<and> r \<le> sz \<and> (r < sz \<longrightarrow> P r) \<and> (\<forall>i. offset \<le> i \<longrightarrow> i < r \<longrightarrow> \<not> P i)"
  proof (cases "\<exists>i. offset \<le> i \<and> i < sz \<and> P i")
    case True
    then have L: "offset \<le> r \<and> r < sz \<and> P r" unfolding r_def using LeastI_ex [OF True] by simp
    moreover have "\<not> P i" if "offset \<le> i" "i < r" for i
      using not_less_Least [of i "\<lambda>i. offset \<le> i \<and> i < sz \<and> P i"] that L True by (auto simp: r_def)
    ultimately show ?thesis by auto
  next
    case False
    then show ?thesis using assms by (auto simp: r_def)
  qed
  moreover from this have "next_index P sz offset = r" by (intro next_index_eqI) auto
  ultimately show "offset \<le> next_index P sz offset" "next_index P sz offset \<le> sz"
    "next_index P sz offset < sz \<Longrightarrow> P (next_index P sz offset)"
    "\<And>i. offset \<le> i \<Longrightarrow> i < next_index P sz offset \<Longrightarrow> \<not> P i"
    by auto
qed

lemma next_index_skip:
  assumes "a \<le> b" "b \<le> sz" "\<And>i. a \<le> i \<Longrightarrow> i < b \<Longrightarrow> \<not> P i"
  shows "next_index P sz a = next_index P sz b"
proof (rule next_index_eqI)
  note N = next_index_props [OF assms(2), where P = P]
  show "a \<le> next_index P sz b" using N(1) assms(1) by linarith
  show "next_index P sz b \<le> sz" by (rule N(2))
  show "next_index P sz b < sz \<Longrightarrow> P (next_index P sz b)" by (rule N(3))
  show "\<not> P i" if "a \<le> i" "i < next_index P sz b" for i
    using N(4) [of i] assms(3) [of i] that by (cases "i < b") auto
qed

lemma next_index_done [simp]: "sz \<le> offset \<Longrightarrow> next_index P sz offset = sz"
  by (simp add: next_index_def)

text \<open>One word, of which only the bits from \<open>lo\<close> up to \<open>hi\<close> are looked at.\<close>

lemma map_bit_word: "i < 64 \<Longrightarrow> map_bit m (64 * p + i) = bit (m p) i"
  by (simp add: map_bit_def)

lemma next_index_word:
  assumes w: "\<And>i. i < 64 \<Longrightarrow> bit w i \<longleftrightarrow> lo \<le> i \<and> i < hi \<and> bit (m p) i"
    and hi: "hi \<le> 64" "lo \<le> hi" "64 * p + hi \<le> sz"
  shows "next_index (map_bit m) sz (64 * p + lo) =
    (if w = 0 then next_index (map_bit m) sz (64 * p + hi) else 64 * p + bsf w)"
proof (cases "w = 0")
  case True
  have "\<not> map_bit m j" if "64 * p + lo \<le> j" "j < 64 * p + hi" for j
    using w [of "j - 64 * p"] map_bit_word [of "j - 64 * p" m p] that hi(1) True by auto
  then show ?thesis using next_index_skip [of "64 * p + lo" "64 * p + hi" sz "map_bit m"] hi True by auto
next
  case False
  note B = bsf_first [OF False]
  have b: "lo \<le> bsf w" "bsf w < hi" "bit (m p) (bsf w)" using w [OF B(2)] B(1) by auto
  have "next_index (map_bit m) sz (64 * p + lo) = 64 * p + bsf w"
  proof (rule next_index_eqI)
    show "map_bit m (64 * p + bsf w)" using map_bit_word [OF B(2), of m p] b(3) by simp
    show "\<not> map_bit m j" if "64 * p + lo \<le> j" "j < 64 * p + bsf w" for j
      using w [of "j - 64 * p"] map_bit_word [of "j - 64 * p" m p] B(2) B(3) [of "j - 64 * p"] b(2) that
      by auto
  qed (use b hi in auto)
  then show ?thesis using False by simp
qed

lemma word_masks:
  "push_bit k ones = NOT (mask k)"
  "s \<le> 64 \<Longrightarrow> drop_bit (64 - s) ones = mask s"
  by simp_all

lemma bit_masks:
  "bit (mask k :: u64) i \<longleftrightarrow> i < 64 \<and> i < k"
  "bit (NOT (mask k) :: u64) i \<longleftrightarrow> i < 64 \<and> k \<le> i"
  by (auto simp: bit_mask_iff bit_not_iff)

lemma next_found_first_index:
  assumes "\<And>i. i < 64 \<Longrightarrow> bit tmp i \<longleftrightarrow> lo \<le> i \<and> bit (m p) i" "sz < 64" "lo \<le> sz"
  shows "next_found_first tmp (64 * p) sz = next_index (map_bit m) (64 * p + sz) (64 * p + lo)"
proof -
  have w: "bit (tmp AND mask sz) i \<longleftrightarrow> lo \<le> i \<and> i < sz \<and> bit (m p) i" if "i < 64" for i
    using assms(1) [OF that] that by (auto simp: bit_and_iff bit_masks)
  have d: "drop_bit (64 - sz) ones = mask sz" using assms(2) by (intro word_masks(2)) simp
  show ?thesis
    unfolding next_found_first_def Let_def d ffs_word_def
    using next_index_word [of "tmp AND mask sz" lo sz m p "64 * p + sz", OF w] assms(2,3) by simp
qed

lemma next_whole_words_index:
  "next_whole_words m p (64 * p) sz = next_index (map_bit m) (64 * p + sz) (64 * p)"
proof (induction m p "64 * p" sz rule: next_whole_words.induct)
  case (1 m p sz)
  show ?case
  proof (cases "64 \<le> sz")
    case True
    have "next_index (map_bit m) (64 * p + sz) (64 * p) =
        (if m p = 0 then next_index (map_bit m) (64 * p + sz) (64 * p + 64) else 64 * p + bsf (m p))"
      using next_index_word [of "m p" 0 64 m p "64 * p + sz"] True by simp
    moreover have "next_whole_words m (Suc p) (64 * Suc p) (sz - 64)
        = next_index (map_bit m) (64 * Suc p + (sz - 64)) (64 * Suc p)" if "m p = 0"
      using "1.hyps" [OF True] that by simp
    moreover have "64 * Suc p + (sz - 64) = 64 * p + sz" using True by simp
    ultimately show ?thesis
      using True by (subst next_whole_words.simps) (auto simp: ffs_word_def add.commute)
  next
    case False
    then show ?thesis
      using next_found_first_index [of "m p" 0 m p sz]
      by (subst next_whole_words.simps) auto
  qed
qed

lemma find_next_bit_index: "find_next_bit m sz offset = next_index (map_bit m) sz offset"
proof (cases "offset < sz")
  case False
  then show ?thesis by (simp add: find_next_bit_def)
next
  case True
  define p where "p = offset div 64"
  define k where "k = offset mod 64"
  have o: "offset = 64 * p + k" "k < 64" by (simp_all add: p_def k_def)
  have e: "offset - offset mod 64 = 64 * p" "offset div 64 = p" "offset mod 64 = k"
    by (simp_all add: p_def k_def minus_mod_eq_mult_div)
  have s: "64 * p + (sz - 64 * p) = sz" using True o by simp
  show ?thesis
  proof (cases "k = 0")
    case True
    then show ?thesis
      using next_whole_words_index [of m p "sz - 64 * p"] \<open>offset < sz\<close> s o
      by (simp add: find_next_bit_def Let_def e)
  next
    case False
    let ?tmp = "m p AND NOT (mask k)"
    have w: "bit ?tmp i \<longleftrightarrow> k \<le> i \<and> bit (m p) i" if "i < 64" for i
      using that by (auto simp: bit_and_iff bit_masks)
    show ?thesis
    proof (cases "sz - 64 * p < 64")
      case True
      then show ?thesis
        using next_found_first_index [of ?tmp k m p "sz - 64 * p", OF w] s o False \<open>offset < sz\<close>
        by (simp add: find_next_bit_def Let_def e)
    next
      case F: False
      have "64 * Suc p + (sz - 64 * p - 64) = sz" using F by simp
      then have rest: "next_whole_words m (Suc p) (64 * p + 64) (sz - 64 * p - 64)
          = next_index (map_bit m) sz (64 * p + 64)"
        using next_whole_words_index [of m "Suc p" "sz - 64 * p - 64"] by (simp add: add.commute)
      show ?thesis
        using next_index_word [of ?tmp k 64 m p sz] w F o \<open>offset < sz\<close> False rest
        by (simp add: find_next_bit_def Let_def e ffs_word_def)
    qed
  qed
qed

text \<open>The search for a clear bit is the search for a set one in the complement.\<close>

definition compl_map :: "bitmap \<Rightarrow> bitmap" where
  "compl_map m = (\<lambda>i. NOT (m i))"

lemma map_bit_compl: "map_bit (compl_map m) = (\<lambda>i. \<not> map_bit m i)"
  by (auto simp: map_bit_def compl_map_def bit_not_iff fun_eq_iff)

lemma ones_iff: "(w = ones) \<longleftrightarrow> (NOT w = (0 :: u64))"
  by (metis bit.double_compl)

lemma zero_found_first_compl:
  assumes "sz < 64"
  shows "zero_found_first tmp result sz = next_found_first (NOT tmp) result sz"
proof -
  have d: "drop_bit (64 - sz) ones = mask sz" using assms by (intro word_masks(2)) simp
  have n: "NOT (tmp OR push_bit sz ones) = NOT tmp AND mask sz" by (simp add: word_masks)
  show ?thesis
    unfolding zero_found_first_def next_found_first_def Let_def ffz_def ffs_word_def ones_iff n d ..
qed

lemma zero_whole_words_compl: "zero_whole_words m p result sz = next_whole_words (compl_map m) p result sz"
proof (induction m p result sz rule: zero_whole_words.induct)
  case (1 m p result sz)
  then show ?case
    by (subst zero_whole_words.simps, subst next_whole_words.simps)
      (auto simp: compl_map_def ffz_def ffs_word_def zero_found_first_compl)
qed

lemma find_next_zero_bit_compl: "find_next_zero_bit m sz offset = find_next_bit (compl_map m) sz offset"
proof -
  define k where "k = offset mod 64"
  have d: "drop_bit (64 - k) ones = mask k" by (intro word_masks(2)) (simp add: k_def)
  have n: "NOT (w OR mask k) = NOT w AND push_bit k ones" for w :: u64 by (simp add: word_masks)
  show ?thesis
    unfolding find_next_zero_bit_def find_next_bit_def Let_def k_def [symmetric] d
    by (auto simp: zero_whole_words_compl zero_found_first_compl n ffz_def ffs_word_def
        compl_map_def simp del: bit.compl_eq_compl_iff)
qed

text \<open>
  C20. The word-at-a-time searches find what a search bit by bit finds: \<open>find_next_bit\<close> and
  \<open>find_next_zero_bit\<close> return the first set, respectively clear, bit from the offset on, and the
  size when there is none; so the routines from the start are the case of offset zero.
\<close>

theorem find_next_bit_correct:
  "find_next_bit m sz offset = next_index (map_bit m) sz offset
    \<and> find_next_zero_bit m sz offset = next_index (\<lambda>i. \<not> map_bit m i) sz offset
    \<and> find_first_bit m sz = next_index (map_bit m) sz 0
    \<and> find_first_zero_bit m sz = next_index (\<lambda>i. \<not> map_bit m i) sz 0"
  using next_whole_words_index [of m 0 sz] next_whole_words_index [of "compl_map m" 0 sz]
  by (simp add: find_next_bit_index find_next_zero_bit_compl map_bit_compl find_first_bit_def
      find_first_zero_bit_def zero_whole_words_compl)

section \<open>Range writes, bit by bit\<close>

lemma map_bit_upd: "map_bit (m(p := w)) i = (if i div 64 = p then bit w (i mod 64) else map_bit m i)"
  by (simp add: map_bit_def)

lemma last_word_mask: "BITMAP_LAST_WORD_MASK n = (if n mod 64 = 0 then ones else mask (n mod 64))"
  by (simp add: BITMAP_LAST_WORD_MASK_def mask_eq_exp_minus_1)

lemma set_words_spec:
  "set_words m p nr = (m', p', nr') \<Longrightarrow> p' = p + nr div 64 \<and> nr' = nr mod 64
    \<and> (\<forall>i. map_bit m' i \<longleftrightarrow> map_bit m i \<or> (64 * p \<le> i \<and> i < 64 * p'))"
proof (induction m p nr rule: set_words.induct)
  case (1 m p nr)
  show ?case
  proof (cases "64 \<le> nr")
    case True
    then have "set_words (m(p := m p OR ones)) (Suc p) (nr - 64) = (m', p', nr')"
      using "1.prems" by (subst (asm) set_words.simps) simp
    note IH = "1.IH" [OF True this]
    have q: "nr div 64 = Suc ((nr - 64) div 64)" "(nr - 64) mod 64 = nr mod 64"
      using True by (simp_all add: le_div_geq le_mod_geq)
    have w: "map_bit (m(p := m p OR ones)) i \<longleftrightarrow> map_bit m i \<or> (64 * p \<le> i \<and> i < 64 * Suc p)" for i
      by (auto simp: map_bit_upd map_bit_def)
    have le: "Suc p \<le> p'" using IH by linarith
    have "map_bit m' i \<longleftrightarrow> map_bit m i \<or> (64 * p \<le> i \<and> i < 64 * p')" for i
    proof -
      have "map_bit m' i \<longleftrightarrow> (map_bit m i \<or> (64 * p \<le> i \<and> i < 64 * Suc p)) \<or> (64 * Suc p \<le> i \<and> i < 64 * p')"
        using IH unfolding w by blast
      then show ?thesis using le by (cases "i < 64 * Suc p") auto
    qed
    then show ?thesis using IH q by simp
  next
    case False
    then show ?thesis using "1.prems" by (subst (asm) set_words.simps) auto
  qed
qed

lemma map_bit_or: "map_bit (m(p := m p OR w)) i \<longleftrightarrow> map_bit m i \<or> (i div 64 = p \<and> bit w (i mod 64))"
  by (auto simp: map_bit_def bit_or_iff)

lemma word_window:
  assumes "hi \<le> 64"
  shows "(i div 64 = p \<and> lo \<le> i mod 64 \<and> i mod 64 < hi) \<longleftrightarrow> 64 * p + lo \<le> i \<and> i < 64 * p + (hi :: nat)"
proof (cases "i div 64 = p")
  case True
  have "i = 64 * (i div 64) + i mod 64" by simp
  then have "i = 64 * p + i mod 64" using True by metis
  then show ?thesis using True by linarith
next
  case False
  have "i div 64 = p" if "64 * p \<le> i" "i < 64 * p + 64"
    using that by (intro div_nat_eqI) auto
  then show ?thesis using False assms by linarith
qed

lemma bitmap_set_bit: "map_bit (bitmap_set m start nr) i \<longleftrightarrow> map_bit m i \<or> (start \<le> i \<and> i < start + nr)"
proof -
  define p where "p = start div 64"
  define k where "k = start mod 64"
  have s: "start = 64 * p + k" "k < 64" by (simp_all add: p_def k_def)
  note defs = bitmap_set_def Let_def BITMAP_FIRST_WORD_MASK_def p_def [symmetric] k_def [symmetric]
  show ?thesis
  proof (cases "64 - k \<le> nr")
    case False
    have kn: "k + nr < 64" using False s(2) by simp
    have l: "(start + nr) mod 64 = k + nr" unfolding s(1) using kn by (simp add: add.assoc)
    have r: "bitmap_set m start nr = (if nr \<noteq> 0 then m(p := m p OR (NOT (mask k) AND mask (k + nr))) else m)"
      using False kn by (simp add: defs last_word_mask word_masks l)
    have w: "bit (NOT (mask k) AND mask (k + nr) :: u64) (i mod 64) \<longleftrightarrow> k \<le> i mod 64 \<and> i mod 64 < k + nr"
      by (auto simp: bit_and_iff bit_masks)
    have "(i div 64 = p \<and> k \<le> i mod 64 \<and> i mod 64 < k + nr) \<longleftrightarrow> start \<le> i \<and> i < start + nr"
      using word_window [of "k + nr" i p k] kn s(1) by auto
    then show ?thesis unfolding r using map_bit_or [of m p "NOT (mask k) AND mask (k + nr)" i] w by auto
  next
    case True
    define m1 where "m1 = m(p := m p OR NOT (mask k))"
    obtain m2 p2 n2 where W: "set_words m1 (Suc p) (nr - (64 - k)) = (m2, p2, n2)"
      by (cases "set_words m1 (Suc p) (nr - (64 - k))") auto
    note S = set_words_spec [OF W]
    have e: "start + nr = 64 * p2 + n2" "n2 < 64" using S True s by simp_all
    have l: "(start + nr) mod 64 = n2" using e by simp
    have "(i div 64 = p \<and> k \<le> i mod 64 \<and> i mod 64 < 64) \<longleftrightarrow> start \<le> i \<and> i < 64 * Suc p"
      using word_window [of 64 i p k] s(1) by auto
    then have "map_bit m1 i \<longleftrightarrow> map_bit m i \<or> (start \<le> i \<and> i < 64 * Suc p)"
      unfolding m1_def map_bit_or bit_masks by auto
    moreover have "Suc p \<le> p2" "start \<le> 64 * p2" using S s by simp_all
    moreover have "map_bit m2 i \<longleftrightarrow> map_bit m1 i \<or> (64 * Suc p \<le> i \<and> i < 64 * p2)"
      using S by blast
    moreover have "start \<le> 64 * Suc p" using s by simp
    ultimately have b2: "map_bit m2 i \<longleftrightarrow> map_bit m i \<or> (start \<le> i \<and> i < 64 * p2)"
      by (cases "i < 64 * Suc p") auto
    have r: "bitmap_set m start nr = (if n2 \<noteq> 0 then m2(p2 := m2 p2 OR mask n2) else m2)"
      using True W e by (simp add: defs last_word_mask word_masks l m1_def)
    have "map_bit (m2(p2 := m2 p2 OR mask n2)) i \<longleftrightarrow> map_bit m2 i \<or> (64 * p2 \<le> i \<and> i < 64 * p2 + n2)"
      unfolding map_bit_or bit_masks using word_window [of n2 i p2 0] e(2) by auto
    then show ?thesis unfolding r using b2 e(1) \<open>start \<le> 64 * p2\<close> by auto
  qed
qed

lemma set_words_compl:
  "clear_words m p nr = (let (m', r) = set_words (compl_map m) p nr in (compl_map m', r))"
proof (induction m p nr rule: clear_words.induct)
  case (1 m p nr)
  have "compl_map (m(p := m p AND NOT ones)) = (compl_map m)(p := compl_map m p OR ones)"
    by (simp add: compl_map_def fun_eq_iff)
  note c = this
  show ?case
  proof (cases "64 \<le> nr")
    case True
    have "clear_words m p nr = clear_words (m(p := m p AND NOT ones)) (Suc p) (nr - 64)"
      using True by (subst clear_words.simps) simp
    also have "\<dots> = (let (m', r) = set_words (compl_map m) p nr in (compl_map m', r))"
      unfolding "1.IH" [OF True] c by (subst (2) set_words.simps) (use True in simp)
    finally show ?thesis .
  next
    case False
    then show ?thesis by (subst clear_words.simps, subst set_words.simps) (simp add: compl_map_def)
  qed
qed

lemma compl_upd: "compl_map (m(p := m p AND NOT w)) = (compl_map m)(p := compl_map m p OR w)"
  by (simp add: compl_map_def fun_eq_iff)

lemma compl_compl [simp]: "compl_map (compl_map m) = m"
  by (simp add: compl_map_def)

lemma bitmap_clear_compl: "compl_map (bitmap_clear m start nr) = bitmap_set (compl_map m) start nr"
proof -
  obtain m' p' n' where W: "set_words ((compl_map m)(start div 64 := compl_map m (start div 64) OR
      BITMAP_FIRST_WORD_MASK start)) (Suc (start div 64)) (nr - (64 - start mod 64)) = (m', p', n')"
    by (cases "set_words ((compl_map m)(start div 64 := compl_map m (start div 64) OR
      BITMAP_FIRST_WORD_MASK start)) (Suc (start div 64)) (nr - (64 - start mod 64))") auto
  have C: "clear_words (m(start div 64 := m (start div 64) AND NOT (BITMAP_FIRST_WORD_MASK start)))
      (Suc (start div 64)) (nr - (64 - start mod 64)) = (compl_map m', p', n')"
    unfolding set_words_compl compl_upd W by simp
  show ?thesis
    unfolding bitmap_clear_def bitmap_set_def Let_def W C
    by (auto simp: compl_upd simp del: bit.de_Morgan_conj)
qed

text \<open>
  C27. The range writes change exactly the bits of their range, wherever it starts and ends within
  the words: \<open>bitmap_set\<close> sets and \<open>bitmap_clear\<close> clears the \<open>nr\<close> bits from \<open>start\<close> on, and
  every other bit keeps its value.
\<close>

theorem bitmap_ranges_exact:
  "map_bit (bitmap_set m start nr) i = (map_bit m i \<or> (start \<le> i \<and> i < start + nr))
    \<and> map_bit (bitmap_clear m start nr) i = (map_bit m i \<and> \<not> (start \<le> i \<and> i < start + nr))"
proof -
  have "(\<not> map_bit (bitmap_clear m start nr) i) = map_bit (bitmap_set (compl_map m) start nr) i"
    using map_bit_compl [of "bitmap_clear m start nr"] by (simp add: bitmap_clear_compl fun_eq_iff)
  then show ?thesis by (auto simp: bitmap_set_bit map_bit_compl)
qed

lemma bitmap_empty_words_iff: "bitmap_empty_words m k lim \<longleftrightarrow> (\<forall>j. k \<le> j \<longrightarrow> j < lim \<longrightarrow> m j = 0)"
proof (induction m k lim rule: bitmap_empty_words.induct)
  case (1 m k lim)
  have "(\<forall>j. k \<le> j \<longrightarrow> j < lim \<longrightarrow> m j = 0) \<longleftrightarrow> m k = 0 \<and> (\<forall>j. Suc k \<le> j \<longrightarrow> j < lim \<longrightarrow> m j = 0)"
    if "k < lim"
    using that by (metis Suc_le_eq order_le_less)
  then show ?case using 1 by (subst bitmap_empty_words.simps) simp
qed

lemma word_zero_iff: "w = (0 :: u64) \<longleftrightarrow> (\<forall>i < 64. \<not> bit w i)"
  by (auto simp: bit_eq_iff dest: bit_imp_le_length)

lemma bitmap_empty_iff: "bitmap_empty m bits \<longleftrightarrow> (\<forall>i < bits. \<not> map_bit m i)"
proof -
  define q where "q = bits div 64"
  define k where "k = bits mod 64"
  have b: "bits = 64 * q + k" "k < 64" by (simp_all add: q_def k_def)
  have words: "(\<forall>j < q. m j = 0) \<longleftrightarrow> (\<forall>i < 64 * q. \<not> map_bit m i)"
  proof
    assume "\<forall>j < q. m j = 0"
    then show "\<forall>i < 64 * q. \<not> map_bit m i" by (auto simp: map_bit_def less_mult_imp_div_less mult.commute)
  next
    assume a: "\<forall>i < 64 * q. \<not> map_bit m i"
    show "\<forall>j < q. m j = 0"
    proof (intro allI impI)
      fix j assume "j < q"
      have "\<not> bit (m j) i" if "i < 64" for i
        using spec [OF a, of "64 * j + i"] map_bit_word [OF that, of m j] that \<open>j < q\<close> by auto
      then show "m j = 0" by (simp add: word_zero_iff)
    qed
  qed
  have part: "(m q AND mask k = 0) \<longleftrightarrow> (\<forall>i < k. \<not> map_bit m (64 * q + i))"
    using b(2) by (auto simp: word_zero_iff bit_and_iff bit_masks map_bit_word dest: order.strict_trans)
  have split: "(\<forall>i < bits. \<not> map_bit m i) \<longleftrightarrow>
      (\<forall>i < 64 * q. \<not> map_bit m i) \<and> (\<forall>i < k. \<not> map_bit m (64 * q + i))"
  proof (intro iffI conjI allI impI)
    fix i assume "i < bits" and "(\<forall>i < 64 * q. \<not> map_bit m i) \<and> (\<forall>i < k. \<not> map_bit m (64 * q + i))"
    then show "\<not> map_bit m i" using b(1)
      by (cases "i < 64 * q") (auto dest: spec [of _ "i - 64 * q"])
  qed (use b(1) in auto)
  show ?thesis
    unfolding split words [symmetric] part [symmetric] bitmap_empty_def bitmap_empty_words_iff
    by (simp add: last_word_mask flip: q_def k_def)
qed

lemma bitmap_full_iff: "bitmap_full m bits \<longleftrightarrow> (\<forall>i < bits. map_bit m i)"
proof -
  have "bitmap_full m bits = bitmap_empty (compl_map m) bits"
    by (simp add: bitmap_full_def bitmap_empty_def compl_map_def)
  then show ?thesis by (simp add: bitmap_empty_iff map_bit_compl)
qed

end
