(* ===== verification/Broadcast.thy ===== *)
theory Broadcast
  imports Prelude
begin

text \<open>
  The broadcast of a thread group (src/nautilus/group.c): one slot in the group through which a
  sender passes a message to the receivers that wait for it. The model has one step per access to
  the slot and interleaves the sender and the receivers; one round of a spinning loop, its test of
  the flag and of the termination, is one step too.
\<close>

section \<open>The slot and the steps\<close>

record msg_slot =
  message :: ptr
  msg_flag :: int
  msg_count :: u64
  terminate_bcast :: int

text \<open>
  Where a thread is in the call: a receiver about to count itself, waiting for the flag, reading, taking
  itself off the count, and, the last one, clearing the message and the flag; the sender
  waiting for the slot, writing the message, setting the flag; returned.
\<close>

datatype mpc = RInc | RWait | RRead | RDec | RClear | RReset | SWait | SWrite | SFlag | MDone

text \<open>\<open>got\<close> is a receiver's local variable \<open>message\<close>.\<close>

record bcast_sys =
  slot :: msg_slot
  mpc :: "nat \<Rightarrow> mpc"
  got :: "nat \<Rightarrow> ptr"

definition move :: "nat \<Rightarrow> mpc \<Rightarrow> msg_slot \<Rightarrow> bcast_sys \<Rightarrow> bcast_sys" where
  "move t p b S = S\<lparr>slot := b, mpc := (mpc S)(t := p)\<rparr>"

text \<open>The next access of thread \<open>t\<close> in a call with message \<open>m\<close>, or \<open>None\<close> while it spins.\<close>

definition nk_thread_group_broadcast_step :: "ptr \<Rightarrow> nat \<Rightarrow> bcast_sys \<Rightarrow> bcast_sys option" where
  "nk_thread_group_broadcast_step m t S =
    (let b = slot S in
     case mpc S t of
       RInc \<Rightarrow> Some (move t RWait (b\<lparr>msg_count := msg_count b + 1\<rparr>) S)
     | RWait \<Rightarrow> if msg_flag b = 0 then (if terminate_bcast b \<noteq> 0 then Some (move t MDone b S) else None)
               else Some (move t RRead b S)
     | RRead \<Rightarrow> Some (move t RDec b (S\<lparr>got := (got S)(t := message b)\<rparr>))
     | RDec \<Rightarrow> let b1 = b\<lparr>msg_count := msg_count b - 1\<rparr>
              in Some (move t (if msg_count b1 = 0 then RClear else MDone) b1 S)
     | RClear \<Rightarrow> Some (move t RReset (b\<lparr>message := NULL\<rparr>) S)
     | RReset \<Rightarrow> Some (move t MDone (b\<lparr>msg_flag := 0\<rparr>) S)
     | SWait \<Rightarrow> if msg_flag b = 1 then (if terminate_bcast b \<noteq> 0 then Some (move t MDone b S) else None)
               else Some (move t SWrite b S)
     | SWrite \<Rightarrow> Some (move t SFlag (b\<lparr>message := m\<rparr>) S)
     | SFlag \<Rightarrow> Some (move t MDone (b\<lparr>msg_flag := 1\<rparr>) S)
     | MDone \<Rightarrow> None)"

definition broadcast_call :: "nat \<Rightarrow> nat \<Rightarrow> mpc" where
  "broadcast_call tnum src = (if tnum \<noteq> src then RInc else SWait)"

definition nk_thread_group_broadcast_terminate :: "msg_slot \<Rightarrow> int \<times> msg_slot" where
  "nk_thread_group_broadcast_terminate b =
    (0, b\<lparr>terminate_bcast := (if terminate_bcast b = 0 then 1 else terminate_bcast b)\<rparr>)"

text \<open>Threads \<open>0, \<dots>, n\<close> take steps in any order.\<close>

inductive bcast_runs :: "ptr \<Rightarrow> nat \<Rightarrow> bcast_sys \<Rightarrow> bcast_sys \<Rightarrow> bool" for m n S where
  bcast_refl: "bcast_runs m n S S"
| bcast_step: "\<lbrakk>bcast_runs m n S S'; t \<le> n; nk_thread_group_broadcast_step m t S' = Some S''\<rbrakk>
    \<Longrightarrow> bcast_runs m n S S''"

text \<open>The threads take their steps in the order of a list.\<close>

fun bcast_schedule :: "ptr \<Rightarrow> nat list \<Rightarrow> bcast_sys \<Rightarrow> bcast_sys option" where
  "bcast_schedule m [] S = Some S"
| "bcast_schedule m (t # ts) S =
    (case nk_thread_group_broadcast_step m t S of None \<Rightarrow> None | Some S' \<Rightarrow> bcast_schedule m ts S')"

lemma bcast_schedule_runs:
  assumes "bcast_runs m n S0 S" "set ts \<subseteq> {..n}" "bcast_schedule m ts S = Some S'"
  shows "bcast_runs m n S0 S'"
  using assms
proof (induction ts arbitrary: S)
  case (Cons t ts)
  then show ?case by (auto split: option.splits intro: bcast_step)
qed simp

section \<open>Everybody who waits gets the message\<close>

text \<open>\<open>n\<close> receivers wait, numbered from 0, and thread \<open>n\<close> calls as the sender.\<close>

definition all_waiting :: "nat \<Rightarrow> bcast_sys" where
  "all_waiting n =
    \<lparr>slot = \<lparr>message = NULL, msg_flag = 0, msg_count = of_nat n, terminate_bcast = 0\<rparr>,
     mpc = (\<lambda>t. if t = n then SWait else RWait), got = (\<lambda>_. NULL)\<rparr>"

definition counted :: "nat \<Rightarrow> bcast_sys \<Rightarrow> nat set" where
  "counted n S = {t. t < n \<and> mpc S t \<in> {RWait, RRead, RDec}}"

definition alone :: "nat \<Rightarrow> bcast_sys \<Rightarrow> nat \<Rightarrow> bool" where
  "alone n S u \<longleftrightarrow> u < n \<and> (\<forall>t < n. t \<noteq> u \<longrightarrow> mpc S t = MDone)"

text \<open>Before the flag is set nobody moves; after that the message stays until all have read it.\<close>

definition bcast_inv :: "ptr \<Rightarrow> nat \<Rightarrow> bcast_sys \<Rightarrow> bool" where
  "bcast_inv m n S \<longleftrightarrow> terminate_bcast (slot S) = 0 \<and> msg_count (slot S) = of_nat (card (counted n S))
    \<and> (\<forall>t < n. mpc S t \<in> {RWait, RRead, RDec, RClear, RReset, MDone})
    \<and> (\<forall>t < n. mpc S t \<in> {RDec, RClear, RReset, MDone} \<longrightarrow> got S t = m)
    \<and> (case mpc S n of
         SWait \<Rightarrow> msg_flag (slot S) = 0 \<and> (\<forall>t < n. mpc S t = RWait)
       | SWrite \<Rightarrow> msg_flag (slot S) = 0 \<and> (\<forall>t < n. mpc S t = RWait)
       | SFlag \<Rightarrow> msg_flag (slot S) = 0 \<and> (\<forall>t < n. mpc S t = RWait) \<and> message (slot S) = m
       | MDone \<Rightarrow>
           (counted n S \<noteq> {} \<longrightarrow> msg_flag (slot S) = 1 \<and> message (slot S) = m
             \<and> (\<forall>t < n. mpc S t \<notin> {RClear, RReset}))
           \<and> (counted n S = {} \<longrightarrow> (\<exists>u. mpc S u = RClear \<and> alone n S u)
             \<or> (\<exists>u. mpc S u = RReset \<and> message (slot S) = NULL \<and> alone n S u)
             \<or> (message (slot S) = NULL \<and> msg_flag (slot S) = 0 \<and> (\<forall>t < n. mpc S t = MDone)))
       | _ \<Rightarrow> False)"

lemma counted_finite [simp]: "finite (counted n S)"
  by (simp add: counted_def)

lemma counted_move:
  "t < n \<Longrightarrow> counted n (move t p b S) =
    (if p \<in> {RWait, RRead, RDec} then insert t (counted n S) else counted n S - {t})"
  by (auto simp: counted_def move_def)

lemma move_fields [simp]:
  "slot (move t p b S) = b" "mpc (move t p b S) = (mpc S)(t := p)" "got (move t p b S) = got S"
  by (simp_all add: move_def)

lemma counted_move_sender [simp]: "n \<le> t \<Longrightarrow> counted n (move t p b S) = counted n S"
  by (auto simp: counted_def)

lemma counted_got [simp]: "counted n (S\<lparr>got := g\<rparr>) = counted n S"
  by (simp add: counted_def)

lemma bcast_sender_step:
  assumes inv: "bcast_inv m n S" and n: "0 < n" and s: "nk_thread_group_broadcast_step m n S = Some S'"
  shows "bcast_inv m n S'"
proof (cases "mpc S n")
  case SWait
  then show ?thesis using inv s
    by (auto simp: bcast_inv_def nk_thread_group_broadcast_step_def Let_def split: if_splits)
next
  case SWrite
  then show ?thesis using inv s
    by (auto simp: bcast_inv_def nk_thread_group_broadcast_step_def Let_def)
next
  case SFlag
  then have "0 \<in> counted n S" using inv n by (simp add: bcast_inv_def counted_def)
  then show ?thesis using inv s SFlag
    by (auto simp: bcast_inv_def nk_thread_group_broadcast_step_def Let_def)
qed (use inv s in \<open>auto simp: bcast_inv_def nk_thread_group_broadcast_step_def Let_def\<close>)

lemma bcast_after_flag:
  assumes "bcast_inv m n S" "t < n" "mpc S t \<noteq> RWait"
  shows "mpc S n = MDone"
  using assms by (auto simp: bcast_inv_def split: mpc.splits)

lemma bcast_doneD:
  assumes "bcast_inv m n S" "mpc S n = MDone"
  shows "terminate_bcast (slot S) = 0" "msg_count (slot S) = of_nat (card (counted n S))"
    "\<And>t. t < n \<Longrightarrow> mpc S t \<in> {RWait, RRead, RDec, RClear, RReset, MDone}"
    "\<And>t. t < n \<Longrightarrow> mpc S t \<in> {RDec, RClear, RReset, MDone} \<Longrightarrow> got S t = m"
    "counted n S \<noteq> {} \<Longrightarrow> msg_flag (slot S) = 1" "counted n S \<noteq> {} \<Longrightarrow> message (slot S) = m"
    "\<And>t. counted n S \<noteq> {} \<Longrightarrow> t < n \<Longrightarrow> mpc S t \<notin> {RClear, RReset}"
    "counted n S = {} \<Longrightarrow> (\<exists>u. mpc S u = RClear \<and> alone n S u)
        \<or> (\<exists>u. mpc S u = RReset \<and> message (slot S) = NULL \<and> alone n S u)
        \<or> (message (slot S) = NULL \<and> msg_flag (slot S) = 0 \<and> (\<forall>t < n. mpc S t = MDone))"
  using assms(1) unfolding bcast_inv_def assms(2) mpc.case by blast+

lemma bcast_doneI:
  assumes "mpc S n = MDone" "terminate_bcast (slot S) = 0" "msg_count (slot S) = of_nat (card (counted n S))"
    "\<And>t. t < n \<Longrightarrow> mpc S t \<in> {RWait, RRead, RDec, RClear, RReset, MDone}"
    "\<And>t. t < n \<Longrightarrow> mpc S t \<in> {RDec, RClear, RReset, MDone} \<Longrightarrow> got S t = m"
    "counted n S \<noteq> {} \<Longrightarrow> msg_flag (slot S) = 1 \<and> message (slot S) = m"
    "\<And>t. counted n S \<noteq> {} \<Longrightarrow> t < n \<Longrightarrow> mpc S t \<notin> {RClear, RReset}"
    "counted n S = {} \<Longrightarrow> (\<exists>u. mpc S u = RClear \<and> alone n S u)
        \<or> (\<exists>u. mpc S u = RReset \<and> message (slot S) = NULL \<and> alone n S u)
        \<or> (message (slot S) = NULL \<and> msg_flag (slot S) = 0 \<and> (\<forall>t < n. mpc S t = MDone))"
  shows "bcast_inv m n S"
  unfolding bcast_inv_def assms(1) mpc.case using assms(2-8) by blast

lemma alone_unique: "alone n S u \<Longrightarrow> t < n \<Longrightarrow> mpc S t \<noteq> MDone \<Longrightarrow> u = t"
  by (auto simp: alone_def)

lemma alone_move: "alone n S t \<Longrightarrow> alone n (move t p b S) t"
  by (auto simp: alone_def)

lemma bcast_receiver_step:
  assumes inv: "bcast_inv m n S" and n: "n < 2 ^ 64" "t < n"
    and s: "nk_thread_group_broadcast_step m t S = Some S'"
  shows "bcast_inv m n S'"
proof -
  note stp = nk_thread_group_broadcast_step_def Let_def
  have "mpc S t \<noteq> RWait \<or> msg_flag (slot S) \<noteq> 0"
    using s inv by (auto simp: stp bcast_inv_def split: if_splits)
  then have d: "mpc S n = MDone" using inv n(2) by (auto simp: bcast_inv_def split: mpc.splits)
  note I = bcast_doneD [OF inv d]
  have in_c: "t \<in> counted n S" if "mpc S t \<in> {RWait, RRead, RDec}"
    using that n(2) by (simp add: counted_def)
  have nt: "n \<noteq> t" using n(2) by simp
  show ?thesis
  proof (cases "mpc S t")
    case RWait
    have c: "t \<in> counted n S" using in_c RWait by simp
    then have ne: "counted n S \<noteq> {}" by auto
    have f: "S' = move t RRead (slot S) S" using s RWait I(1) by (auto simp: stp split: if_splits)
    have c': "counted n S' = counted n S" unfolding f using n(2) c by (simp add: counted_move insert_absorb)
    show ?thesis
      by (rule bcast_doneI, unfold c')
        (use I(1-4) I(5,6,7) [OF ne] ne nt d RWait in \<open>auto simp: f split: if_splits\<close>)
  next
    case RRead
    have c: "t \<in> counted n S" using in_c RRead by simp
    then have ne: "counted n S \<noteq> {}" by auto
    have f: "S' = move t RDec (slot S) (S\<lparr>got := (got S)(t := message (slot S))\<rparr>)"
      using s RRead by (auto simp: stp)
    have c': "counted n S' = counted n S" unfolding f using n(2) c by (simp add: counted_move insert_absorb)
    show ?thesis
      by (rule bcast_doneI, unfold c')
        (use I(1-4) I(5,6,7) [OF ne] ne nt d in \<open>auto simp: f split: if_splits\<close>)
  next
    case RDec
    let ?b = "(slot S)\<lparr>msg_count := msg_count (slot S) - 1\<rparr>"
    have c: "t \<in> counted n S" using in_c RDec by simp
    then have ne: "counted n S \<noteq> {}" by auto
    have le: "card (counted n S) \<le> n" using card_mono [of "{..<n}" "counted n S"] by (auto simp: counted_def)
    have "0 < card (counted n S)" using ne by (simp add: card_gt_0_iff)
    then have cnt: "msg_count (slot S) - 1 = of_nat (card (counted n S - {t}))"
      using I(2) c by (simp add: card_Diff_singleton of_nat_diff)
    have small: "card (counted n S - {t}) < 2 ^ 64" using le n(1) card_Diff1_le [of "counted n S" t] by linarith
    have z: "(msg_count (slot S) - 1 = 0) = (counted n S - {t} = {})"
      unfolding cnt using small by (simp add: word_unat_eq_iff unat_of_nat take_bit_eq_mod)
    have f: "S' = move t (if counted n S - {t} = {} then RClear else MDone) ?b S"
      using s RDec unfolding z [symmetric] by (auto simp: stp)
    have c': "counted n S' = counted n S - {t}" unfolding f using n(2) by (simp add: counted_move)
    have others: "mpc S u = MDone" if "counted n S - {t} = {}" "u < n" "u \<noteq> t" for u
    proof -
      have "u \<notin> counted n S" using that by auto
      then show ?thesis using I(3) [OF that(2)] I(7) [OF ne that(2)] that(2) by (auto simp: counted_def)
    qed
    have a: "alone n S' t" if "counted n S - {t} = {}"
      unfolding alone_def f using n(2) others [OF that] by auto
    show ?thesis
      by (rule bcast_doneI, unfold c')
        (use I(1,3,4) I(5,6,7) [OF ne] nt d cnt a RDec in \<open>auto simp: f split: if_splits\<close>)
  next
    case RClear
    have f: "S' = move t RReset ((slot S)\<lparr>message := NULL\<rparr>) S" using s RClear by (auto simp: stp)
    have c: "counted n S = {}" using I(7) [of t] RClear n(2) by blast
    then have c': "counted n S' = {}" unfolding f using n(2) by (simp add: counted_move)
    have "alone n S t" using I(8) [OF c] alone_unique [of n S _ t] RClear n(2) by auto
    then have a: "alone n S' t" unfolding f by (rule alone_move)
    show ?thesis
      by (rule bcast_doneI, unfold c')
        (use I(1-4) c nt d a RClear in \<open>auto simp: f split: if_splits\<close>)
  next
    case RReset
    have f: "S' = move t MDone ((slot S)\<lparr>msg_flag := 0\<rparr>) S" using s RReset by (auto simp: stp)
    have c: "counted n S = {}" using I(7) [of t] RReset n(2) by blast
    then have c': "counted n S' = {}" unfolding f using n(2) by (simp add: counted_move)
    have a: "alone n S t" "message (slot S) = NULL"
      using I(8) [OF c] alone_unique [of n S _ t] RReset n(2) by auto
    then have all: "\<forall>u < n. mpc S' u = MDone" by (simp add: f alone_def)
    show ?thesis
      by (rule bcast_doneI, unfold c')
        (use I(1-4) c nt d a all RReset in \<open>auto simp: f split: if_splits\<close>)
  qed (use s I(3) [OF n(2)] in \<open>auto simp: stp\<close>)
qed

lemma bcast_inv_start: "0 < n \<Longrightarrow> bcast_inv m n (all_waiting n)"
proof -
  have "counted n (all_waiting n) = {..<n}" by (auto simp: counted_def all_waiting_def)
  then show ?thesis by (simp add: bcast_inv_def) (simp add: all_waiting_def)
qed

lemma bcast_inv_runs:
  assumes "bcast_runs m n (all_waiting n) S" "0 < n" "n < 2 ^ 64"
  shows "bcast_inv m n S"
  using assms(1)
proof (induction rule: bcast_runs.induct)
  case bcast_refl
  then show ?case using assms(2) by (rule bcast_inv_start)
next
  case (bcast_step S' t S'')
  then show ?case
    using bcast_sender_step [OF bcast_step.IH assms(2), of S''] bcast_receiver_step [OF bcast_step.IH assms(3), of t S'']
    by (cases "t = n") auto
qed

lemma bcast_progress:
  assumes inv: "bcast_inv m n S" and t: "t \<le> n" "mpc S t \<noteq> MDone"
  shows "\<exists>u \<le> n. nk_thread_group_broadcast_step m u S \<noteq> None"
proof (cases "mpc S n = MDone")
  case False
  then have "nk_thread_group_broadcast_step m n S \<noteq> None"
    using inv by (auto simp: bcast_inv_def nk_thread_group_broadcast_step_def Let_def split: mpc.splits)
  then show ?thesis by auto
next
  case True
  note I = bcast_doneD [OF inv True]
  have tn: "t < n" using t True by (cases "t = n") auto
  have "msg_flag (slot S) = 1" if "mpc S t = RWait"
  proof -
    have "t \<in> counted n S" using that tn by (simp add: counted_def)
    then show ?thesis using I(5) by auto
  qed
  then have "nk_thread_group_broadcast_step m t S \<noteq> None"
    using I(3) [OF tn] t(2) by (auto simp: nk_thread_group_broadcast_step_def Let_def)
  then show ?thesis using t(1) by blast
qed

text \<open>
  C17. A broadcast reaches everyone who waits for it: when \<open>n\<close> receivers wait and a thread sends, then in
  every interleaving each receiver reads the message that was sent, some thread can always go on
  until all have returned, and after that the slot is empty for the next round.
\<close>

theorem broadcast_delivers:
  assumes "0 < n" "n < 2 ^ 64" "bcast_runs m n (all_waiting n) S"
  shows "(\<forall>t < n. mpc S t \<in> {RDec, RClear, RReset, MDone} \<longrightarrow> got S t = m)
    \<and> ((\<exists>t \<le> n. mpc S t \<noteq> MDone) \<longrightarrow> (\<exists>t \<le> n. nk_thread_group_broadcast_step m t S \<noteq> None))
    \<and> ((\<forall>t \<le> n. mpc S t = MDone) \<longrightarrow>
        slot S = \<lparr>message = NULL, msg_flag = 0, msg_count = 0, terminate_bcast = 0\<rparr>)"
proof -
  have inv: "bcast_inv m n S" using bcast_inv_runs assms by blast
  have "slot S = \<lparr>message = NULL, msg_flag = 0, msg_count = 0, terminate_bcast = 0\<rparr>"
    if all: "\<forall>t \<le> n. mpc S t = MDone"
  proof -
    have d: "mpc S n = MDone" using all by blast
    have c: "counted n S = {}" using all by (auto simp: counted_def)
    note I = bcast_doneD [OF inv d]
    have "mpc S u \<noteq> RClear \<and> mpc S u \<noteq> RReset" if "alone n S u" for u
      using that all by (simp add: alone_def)
    then have "message (slot S) = NULL" "msg_flag (slot S) = 0" using I(8) [OF c] by blast+
    moreover have "msg_count (slot S) = 0" using I(2) c by simp
    ultimately show ?thesis using I(1) by simp
  qed
  moreover have "\<forall>t < n. mpc S t \<in> {RDec, RClear, RReset, MDone} \<longrightarrow> got S t = m"
    using inv unfolding bcast_inv_def by blast
  ultimately show ?thesis using bcast_progress [OF inv] by blast
qed

theorem broadcast_delivers_witness:
  "\<exists>S. bcast_schedule 7 [1, 1, 1, 0, 0, 0, 0, 0] (all_waiting 1) = Some S \<and> got S 0 = 7
    \<and> slot S = \<lparr>message = NULL, msg_flag = 0, msg_count = 0, terminate_bcast = 0\<rparr>"
proof -
  obtain S where S: "bcast_schedule 7 [1, 1, 1, 0, 0, 0, 0, 0] (all_waiting 1) = Some S"
      "mpc S 0 = MDone" "mpc S 1 = MDone"
    by (simp add: nk_thread_group_broadcast_step_def all_waiting_def Let_def)
  have "bcast_runs 7 1 (all_waiting 1) S"
    by (rule bcast_schedule_runs [OF bcast_refl _ S(1)]) simp
  moreover have "\<forall>t \<le> 1. mpc S t = MDone" using S(2,3) le_Suc_eq by auto
  ultimately show ?thesis using broadcast_delivers [of 1 7 S] S by auto
qed

section \<open>A late receiver\<close>

text \<open>
  A receiver that arrives while the last one of the round clears the slot finds the flag still set
  and the message already cleared: it reads NULL.
\<close>

lemma late_receiver_reads_null:
  "case bcast_schedule 7 [0, 2, 2, 2, 0, 0, 0, 0, 1, 1, 1]
      \<lparr>slot = \<lparr>message = NULL, msg_flag = 0, msg_count = 0, terminate_bcast = 0\<rparr>,
       mpc = (\<lambda>t. broadcast_call t 2), got = (\<lambda>_. 99)\<rparr> of
     None \<Rightarrow> False
   | Some S \<Rightarrow> got S 0 = 7 \<and> mpc S 1 = RDec \<and> got S 1 = NULL"
  by code_simp

end
