(* ===== verification/Locks.thy ===== *)
theory Locks
  imports Prelude "HOL-Library.Sublist"
begin

text \<open>
  The locks of the kernel: spinlocks (include/nautilus/spinlock.h, src/nautilus/spinlock.c), ticket locks
  (src/nautilus/ticketlock.c) and the reader-preferred readers-writer lock (src/nautilus/rwlock.c). A
  lock operation is a sequence of steps, one per atomic access to the lock; threads take steps in any
  order.
\<close>

type_synonym u16 = "16 word"

section \<open>Spinlocks\<close>

type_synonym spinlock_t = u32

definition spinlock_init :: "spinlock_t \<Rightarrow> spinlock_t" where
  "spinlock_init l = 0"

definition spinlock_deinit :: "spinlock_t \<Rightarrow> spinlock_t" where
  "spinlock_deinit l = 0"

text \<open>One round of the spinning loop: whether the loop ends, and the lock after it.\<close>

definition spin_lock_round :: "spinlock_t \<Rightarrow> bool \<times> spinlock_t" where
  "spin_lock_round l = (l = 0, 1)"

definition spin_try_lock :: "spinlock_t \<Rightarrow> int \<times> spinlock_t" where
  "spin_try_lock l = (if l \<noteq> 0 then -1 else 0, 1)"

definition spin_unlock :: "spinlock_t \<Rightarrow> spinlock_t" where
  "spin_unlock l = 0"

text \<open>What a client may rely on: a round succeeds exactly on a free lock, which is then taken.\<close>

locale spin_word =
  fixes free :: "'l \<Rightarrow> bool" and attempt :: "'l \<Rightarrow> bool \<times> 'l" and release :: "'l \<Rightarrow> 'l"
  assumes attempt_iff: "fst (attempt l) \<longleftrightarrow> free l"
    and attempt_takes: "\<not> free (snd (attempt l))"
    and release_frees: "free (release l)"

interpretation sw: spin_word "\<lambda>l. l = 0" spin_lock_round spin_unlock
  by unfold_locales (simp_all add: spin_lock_round_def spin_unlock_def)

lemma spin_try_lock_takes:
  "fst (spin_try_lock l) = 0 \<longleftrightarrow> fst (spin_lock_round l)" "snd (spin_try_lock l) = snd (spin_lock_round l)"
  by (simp_all add: spin_try_lock_def spin_lock_round_def)

section \<open>Ticket locks\<close>

record nk_ticket_lock =
  ticket :: u16
  users :: u16

text \<open>Both halves are one word, \<open>ticket\<close> the low half.\<close>

definition ticket_val :: "nk_ticket_lock \<Rightarrow> u32" where
  "ticket_val l = push_bit 16 (ucast (users l)) + ucast (ticket l)"

definition nk_ticket_lock_init :: "nk_ticket_lock \<Rightarrow> nk_ticket_lock" where
  "nk_ticket_lock_init l = l\<lparr>ticket := 0, users := 0\<rparr>"

definition nk_ticket_lock_deinit :: "nk_ticket_lock \<Rightarrow> nk_ticket_lock" where
  "nk_ticket_lock_deinit l = l\<lparr>ticket := 0, users := 0\<rparr>"

text \<open>The two halves of \<open>nk_ticket_lock\<close>: drawing a ticket, and a round of the spinning loop.\<close>

definition nk_ticket_draw :: "nk_ticket_lock \<Rightarrow> u16 \<times> nk_ticket_lock" where
  "nk_ticket_draw l = (users l, l\<lparr>users := users l + 1\<rparr>)"

definition nk_ticket_served :: "u16 \<Rightarrow> nk_ticket_lock \<Rightarrow> bool" where
  "nk_ticket_served me l \<longleftrightarrow> ticket l = me"

definition nk_ticket_unlock :: "nk_ticket_lock \<Rightarrow> nk_ticket_lock" where
  "nk_ticket_unlock l = l\<lparr>ticket := ticket l + 1\<rparr>"

text \<open>Outside, spinning with a ticket, inside the critical section.\<close>

datatype tpc = TOut | TSpin u16 | TIn

record ticket_sys =
  tlock :: nk_ticket_lock
  tpc :: "nat \<Rightarrow> tpc"

definition ticket_step :: "nat \<Rightarrow> ticket_sys \<Rightarrow> ticket_sys option" where
  "ticket_step t S =
    (case tpc S t of
       TOut \<Rightarrow> let (me, l) = nk_ticket_draw (tlock S) in Some \<lparr>tlock = l, tpc = (tpc S)(t := TSpin me)\<rparr>
     | TSpin me \<Rightarrow> if nk_ticket_served me (tlock S) then Some (S\<lparr>tpc := (tpc S)(t := TIn)\<rparr>) else None
     | TIn \<Rightarrow> Some \<lparr>tlock = nk_ticket_unlock (tlock S), tpc = (tpc S)(t := TOut)\<rparr>)"

definition ticket_start :: ticket_sys where
  "ticket_start = \<lparr>tlock = nk_ticket_lock_init \<lparr>ticket = 0, users = 0\<rparr>, tpc = (\<lambda>_. TOut)\<rparr>"

text \<open>
  Threads \<open>0, \<dots>, n - 1\<close> lock and unlock any number of times. The lists record who drew a ticket
  and who entered, in order.
\<close>

definition drew :: "nat \<Rightarrow> ticket_sys \<Rightarrow> nat list \<Rightarrow> nat list" where
  "drew t S ds = (if tpc S t = TOut then ds @ [t] else ds)"

definition entered :: "nat \<Rightarrow> ticket_sys \<Rightarrow> nat list \<Rightarrow> nat list" where
  "entered t S es = (if tpc S t = TOut \<or> tpc S t = TIn then es else es @ [t])"

inductive ticket_runs :: "nat \<Rightarrow> nat list \<Rightarrow> nat list \<Rightarrow> ticket_sys \<Rightarrow> bool" for n where
  ticket_init: "ticket_runs n [] [] ticket_start"
| ticket_more: "\<lbrakk>ticket_runs n ds es S; t < n; ticket_step t S = Some S'\<rbrakk>
    \<Longrightarrow> ticket_runs n (drew t S ds) (entered t S es) S'"

text \<open>After \<open>L\<close> releases the tickets from \<open>L\<close> on are out, each with a thread of its own.\<close>

definition ticket_inv :: "nat \<Rightarrow> nat list \<Rightarrow> nat list \<Rightarrow> nat \<Rightarrow> ticket_sys \<Rightarrow> bool" where
  "ticket_inv n ds es L S \<longleftrightarrow> ticket (tlock S) = of_nat L \<and> users (tlock S) = of_nat (length ds)
    \<and> es = take (length es) ds \<and> L \<le> length es \<and> length es \<le> Suc L \<and> length es \<le> length ds
    \<and> distinct (drop L ds) \<and> set (drop L ds) = {t. t < n \<and> tpc S t \<noteq> TOut}
    \<and> (\<forall>i. L \<le> i \<and> i < length ds \<longrightarrow>
          tpc S (ds ! i) = (if i < length es then TIn else TSpin (of_nat i)))"

lemma in_dropE:
  assumes "t \<in> set (drop L ds)"
  obtains i where "L \<le> i" "i < length ds" "ds ! i = t"
proof -
  from assms obtain j where "j < length ds - L" "drop L ds ! j = t" by (auto simp: in_set_conv_nth)
  then show thesis by (intro that [of "L + j"]) auto
qed

lemma nth_in_drop: "L \<le> i \<Longrightarrow> i < length ds \<Longrightarrow> ds ! i \<in> set (drop L ds)"
  using nth_mem [of "i - L" "drop L ds"] by simp

lemma drop_nth_eq_iff:
  assumes "distinct (drop L ds)" "L \<le> i" "i < length ds" "L \<le> j" "j < length ds"
  shows "ds ! i = ds ! j \<longleftrightarrow> i = j"
  using nth_eq_iff_index_eq [OF assms(1), of "i - L" "j - L"] assms(2-) by auto

lemma ticket_invD:
  assumes "ticket_inv n ds es L S"
  shows "ticket (tlock S) = of_nat L" "users (tlock S) = of_nat (length ds)" "es = take (length es) ds"
    "L \<le> length es" "length es \<le> Suc L" "length es \<le> length ds" "distinct (drop L ds)"
    "set (drop L ds) = {t. t < n \<and> tpc S t \<noteq> TOut}"
    "\<And>i. L \<le> i \<Longrightarrow> i < length ds \<Longrightarrow> tpc S (ds ! i) = (if i < length es then TIn else TSpin (of_nat i))"
  using assms unfolding ticket_inv_def by blast+

lemma ticket_queue_length:
  assumes "ticket_inv n ds es L S"
  shows "length ds - L \<le> n"
proof -
  have "card (set (drop L ds)) \<le> card {..<n}"
    by (rule card_mono) (use ticket_invD(8) [OF assms] in auto)
  then show ?thesis using distinct_card [OF ticket_invD(7) [OF assms]] by simp
qed

text \<open>A thread that has a ticket stands somewhere in the queue.\<close>

lemma ticket_holder:
  assumes "ticket_inv n ds es L S" "t < n" "tpc S t \<noteq> TOut"
  obtains i where "L \<le> i" "i < length ds" "ds ! i = t" "tpc S t = (if i < length es then TIn else TSpin (of_nat i))"
proof -
  have "t \<in> set (drop L ds)" using ticket_invD(8) [OF assms(1)] assms(2,3) by simp
  then obtain i where "L \<le> i" "i < length ds" "ds ! i = t" by (rule in_dropE)
  then show thesis using that ticket_invD(9) [OF assms(1)] by blast
qed

lemma of_nat_ticket_eq:
  assumes "L \<le> i" "i < L + 2 ^ 16" "(of_nat i :: u16) = of_nat L"
  shows "i = L"
proof -
  have "(of_nat (i - L) :: u16) = 0" using assms(1,3) by (simp add: of_nat_diff)
  then have "2 ^ 16 dvd i - L" by (simp add: word_of_nat_eq_0_iff)
  moreover have "i - L < 2 ^ 16" using assms(1,2) by linarith
  ultimately have "i - L = 0" using nat_dvd_not_less [of "i - L" "2 ^ 16"] by blast
  then show ?thesis using assms(1) by simp
qed

lemma ticket_inv_draw:
  assumes inv: "ticket_inv n ds es L S" and t: "t < n" "tpc S t = TOut" and s: "ticket_step t S = Some S'"
  shows "ticket_inv n (ds @ [t]) es L S'"
proof -
  note I = ticket_invD [OF inv]
  have out: "t \<notin> set (drop L ds)" using I(8) t by simp
  then have ne: "ds ! i \<noteq> t" if "L \<le> i" "i < length ds" for i using nth_in_drop [OF that] by auto
  have L: "L \<le> length ds" using I(4,6) by simp
  have S': "S' = \<lparr>tlock = (tlock S)\<lparr>users := users (tlock S) + 1\<rparr>, tpc = (tpc S)(t := TSpin (users (tlock S)))\<rparr>"
    using s t(2) by (simp add: ticket_step_def nk_ticket_draw_def)
  show ?thesis
    unfolding ticket_inv_def S' using I(1-7) out ne L I(8) t(1) I(9)
    by (auto simp: nth_append less_Suc_eq)
qed

lemma ticket_inv_enter:
  assumes inv: "ticket_inv n ds es L S" and n: "n \<le> 2 ^ 16" and t: "t < n" "tpc S t = TSpin me"
    and s: "ticket_step t S = Some S'"
  shows "ticket_inv n ds (es @ [t]) L S'"
proof -
  note I = ticket_invD [OF inv]
  obtain i where i: "L \<le> i" "i < length ds" "ds ! i = t"
    and p: "tpc S t = (if i < length es then TIn else TSpin (of_nat i))"
    by (rule ticket_holder [OF inv t(1)]) (simp add: t(2))
  have me: "length es \<le> i" "me = of_nat i" using p t(2) by (auto split: if_splits)
  have S': "S' = S\<lparr>tpc := (tpc S)(t := TIn)\<rparr>" and eq: "of_nat i = (of_nat L :: u16)"
    using s t(2) I(1) me(2) by (auto simp: ticket_step_def nk_ticket_served_def split: if_splits)
  have iL: "i = L" by (rule of_nat_ticket_eq [OF i(1) _ eq]) (use i ticket_queue_length [OF inv] n in linarith)
  then have e: "length es = L" using me(1) I(4) by simp
  have "es @ [t] = take (Suc L) ds" using I(3) i iL e by (simp add: take_Suc_conv_app_nth)
  moreover have "ds ! j \<noteq> t" if "L < j" "j < length ds" for j
    using drop_nth_eq_iff [OF I(7), of j i] that i iL by auto
  ultimately show ?thesis
    unfolding ticket_inv_def S' using I(1,2,4-7) I(8,9) i iL e t
    by (auto simp: less_Suc_eq le_less min_def)
qed

lemma ticket_inv_leave:
  assumes inv: "ticket_inv n ds es L S" and t: "t < n" "tpc S t = TIn" and s: "ticket_step t S = Some S'"
  shows "ticket_inv n ds es (Suc L) S'"
proof -
  note I = ticket_invD [OF inv]
  obtain i where i: "L \<le> i" "i < length ds" "ds ! i = t"
    and p: "tpc S t = (if i < length es then TIn else TSpin (of_nat i))"
    by (rule ticket_holder [OF inv t(1)]) (simp add: t(2))
  have iL: "i = L" and e: "length es = Suc L" using p t(2) I(5) i(1) by (auto split: if_splits)
  have S': "S' = \<lparr>tlock = nk_ticket_unlock (tlock S), tpc = (tpc S)(t := TOut)\<rparr>"
    using s t(2) by (simp add: ticket_step_def)
  have d: "drop L ds = t # drop (Suc L) ds" using i iL by (metis Cons_nth_drop_Suc)
  have "ds ! j \<noteq> t" if "L < j" "j < length ds" for j
    using drop_nth_eq_iff [OF I(7), of j i] that i iL by auto
  then show ?thesis
    unfolding ticket_inv_def S' using I(1-6) I(7,8) [unfolded d] I(9) e t(1)
    by (auto simp: nk_ticket_unlock_def)
qed

lemma ticket_inv_runs:
  assumes "ticket_runs n ds es S" "n \<le> 2 ^ 16"
  shows "\<exists>L. ticket_inv n ds es L S"
  using assms(1)
proof (induction rule: ticket_runs.induct)
  case ticket_init
  show ?case by (rule exI [of _ 0]) (simp add: ticket_inv_def ticket_start_def nk_ticket_lock_init_def)
next
  case (ticket_more ds es S t S')
  then obtain L where "ticket_inv n ds es L S" by blast
  note steps = ticket_inv_draw [OF this] ticket_inv_enter [OF this assms(2)] ticket_inv_leave [OF this]
  show ?case
  proof (cases "tpc S t")
    case TOut
    then show ?thesis using steps(1) [OF ticket_more.hyps(2) TOut ticket_more.hyps(3)]
      by (auto simp: drew_def entered_def)
  next
    case (TSpin me)
    then show ?thesis using steps(2) [OF ticket_more.hyps(2) TSpin ticket_more.hyps(3)]
      by (auto simp: drew_def entered_def)
  next
    case TIn
    then show ?thesis using steps(3) [OF ticket_more.hyps(2) TIn ticket_more.hyps(3)]
      by (auto simp: drew_def entered_def)
  qed
qed

text \<open>The threads take their steps in the order of a list.\<close>

fun ticket_schedule :: "nat list \<Rightarrow> nat list \<times> nat list \<times> ticket_sys \<Rightarrow> (nat list \<times> nat list \<times> ticket_sys) option" where
  "ticket_schedule [] C = Some C"
| "ticket_schedule (t # ts) (ds, es, S) =
    (case ticket_step t S of
       None \<Rightarrow> None
     | Some S' \<Rightarrow> ticket_schedule ts (drew t S ds, entered t S es, S'))"

lemma ticket_schedule_runs:
  assumes "ticket_runs n ds es S" "set ts \<subseteq> {..<n}" "ticket_schedule ts (ds, es, S) = Some (ds', es', S')"
  shows "ticket_runs n ds' es' S'"
  using assms
proof (induction ts arbitrary: ds es S)
  case (Cons t ts)
  then show ?case by (auto split: option.splits intro: ticket_more)
qed simp

lemma ticket_one_inside:
  assumes inv: "ticket_inv n ds es L S" and t: "t < n" "tpc S t = TIn"
  shows "L < length es" "ds ! L = t"
proof -
  obtain i where i: "L \<le> i" "i < length ds" "ds ! i = t"
    and p: "tpc S t = (if i < length es then TIn else TSpin (of_nat i))"
    by (rule ticket_holder [OF inv t(1)]) (simp add: t(2))
  have "i < length es" using p t(2) by (auto split: if_splits)
  moreover from this have "i = L" using ticket_invD(5) [OF inv] i(1) by simp
  ultimately show "L < length es" "ds ! L = t" using i by simp_all
qed

lemma ticket_progress:
  assumes inv: "ticket_inv n ds es L S" and t: "t < n" "tpc S t \<noteq> TOut"
  shows "\<exists>u < n. tpc S u \<noteq> TOut \<and> ticket_step u S \<noteq> None"
proof -
  note I = ticket_invD [OF inv]
  obtain i where "L \<le> i" "i < length ds" by (rule ticket_holder [OF inv t])
  then have L: "L < length ds" by simp
  have "ds ! L \<in> set (drop L ds)" using L by (intro nth_in_drop) auto
  then have u: "ds ! L < n" "tpc S (ds ! L) \<noteq> TOut" using I(8) by auto
  moreover have "ticket_step (ds ! L) S \<noteq> None"
    using I(1) I(9) [OF order_refl L] by (auto simp: ticket_step_def nk_ticket_served_def)
  ultimately show ?thesis by blast
qed

text \<open>
  C13. The ticket lock excludes and is fair: for up to 65536 threads, in every interleaving, at most one
  thread is between \<open>nk_ticket_lock\<close> and \<open>nk_ticket_unlock\<close>, threads enter in the order in which they drew
  their tickets, and as long as a thread waits or is inside, one of these can go on.
\<close>

theorem ticket_lock_fair:
  assumes "n \<le> 2 ^ 16" "ticket_runs n ds es S"
  shows "(\<forall>t < n. \<forall>u < n. tpc S t = TIn \<and> tpc S u = TIn \<longrightarrow> t = u) \<and> prefix es ds
    \<and> ((\<exists>t < n. tpc S t \<noteq> TOut) \<longrightarrow> (\<exists>u < n. tpc S u \<noteq> TOut \<and> ticket_step u S \<noteq> None))"
proof -
  obtain L where inv: "ticket_inv n ds es L S" using ticket_inv_runs assms by blast
  have "prefix es ds" using ticket_invD(3) [OF inv] take_is_prefix [of "length es" ds] by simp
  moreover have "t = u" if "t < n" "u < n" "tpc S t = TIn" "tpc S u = TIn" for t u
    using ticket_one_inside(2) [OF inv] that by blast
  ultimately show ?thesis using ticket_progress [OF inv] by blast
qed

theorem ticket_lock_fair_witness:
  "\<exists>S. ticket_schedule [0, 1, 2, 0, 0, 1] ([], [], ticket_start) = Some ([0, 1, 2], [0, 1], S)
    \<and> (\<exists>u < 3. tpc S u \<noteq> TOut \<and> ticket_step u S \<noteq> None)"
proof -
  obtain S where S: "ticket_schedule [0, 1, 2, 0, 0, 1] ([], [], ticket_start) = Some ([0, 1, 2], [0, 1], S)"
      "tpc S 2 = TSpin 2"
    by (simp add: ticket_step_def ticket_start_def nk_ticket_lock_init_def nk_ticket_draw_def
        nk_ticket_served_def nk_ticket_unlock_def drew_def entered_def)
  have "ticket_runs 3 [0, 1, 2] [0, 1] S"
    by (rule ticket_schedule_runs [OF ticket_init _ S(1)]) simp
  then have "(\<exists>t < 3. tpc S t \<noteq> TOut) \<longrightarrow> (\<exists>u < 3. tpc S u \<noteq> TOut \<and> ticket_step u S \<noteq> None)"
    using ticket_lock_fair [of 3 "[0, 1, 2]" "[0, 1]" S] by simp
  moreover have "\<exists>t < 3. tpc S t \<noteq> TOut" using S(2) by (intro exI [of _ 2]) simp
  ultimately show ?thesis using S(1) by blast
qed

section \<open>Trying a ticket lock\<close>

text \<open>
  Memory in 32-bit cells. The locked instruction compares and exchanges the cell of its memory
  operand; it returns what it found.
\<close>

type_synonym cells = "u64 \<Rightarrow> u32"

definition cmpxchgl :: "u64 \<Rightarrow> u32 \<Rightarrow> u32 \<Rightarrow> cells \<Rightarrow> u32 \<times> cells" where
  "cmpxchgl a old new mem = (mem a, if mem a = old then mem(a := new) else mem)"

text \<open>
  The operand of the inline assembly is the variable \<open>m\<close>, the pointer, and not what it points to.
  The parameter lives in the two cells at \<open>slot\<close> of the caller's stack, and the instruction works
  on the lower one.
\<close>

definition cmpxchg32 :: "u64 \<Rightarrow> u64 \<Rightarrow> u32 \<Rightarrow> u32 \<Rightarrow> cells \<Rightarrow> u32 \<times> cells" where
  "cmpxchg32 slot m old new mem = cmpxchgl slot old new (mem(slot := ucast m, slot + 4 := ucast (drop_bit 32 m)))"

definition nk_ticket_trylock :: "u64 \<Rightarrow> u64 \<Rightarrow> cells \<Rightarrow> int \<times> cells" where
  "nk_ticket_trylock slot l mem =
    (let me = ucast (drop_bit 16 (mem l)) :: u16; menew = me + 1;
         cmp = push_bit 16 (ucast me :: u32) + ucast me; cmpnew = push_bit 16 (ucast menew :: u32) + ucast me;
         (ret, mem1) = cmpxchg32 slot l cmp cmpnew mem
     in if ret = cmp then (0, mem1) else (-1, mem1))"

lemma ticket_val_users: "ucast (drop_bit 16 (ticket_val l)) = users l"
proof -
  have u: "unat (users l) < 65536" "unat (ticket l) < 65536"
    using unsigned_less [of "users l", where ?'a = nat] unsigned_less [of "ticket l", where ?'a = nat] by simp_all
  have "unat (push_bit 16 (ucast (users l) :: u32)) = unat (users l) * 65536"
    using u(1) by (simp add: push_bit_eq_mult unat_word_ariths unsigned_ucast_eq take_bit_nat_eq_self)
  then have "unat (ticket_val l) = unat (users l) * 65536 + unat (ticket l)"
    using u by (simp add: ticket_val_def unat_word_ariths unsigned_ucast_eq take_bit_nat_eq_self)
  then have "unat (drop_bit 16 (ticket_val l)) = unat (users l)"
    using u(2) by (simp only: unat_drop_bit_eq) (simp add: drop_bit_eq_div)
  then have "unat (ucast (drop_bit 16 (ticket_val l)) :: u16) = unat (users l)"
    using u(1) by (simp add: unsigned_ucast_eq take_bit_nat_eq_self)
  then show ?thesis by (rule unsigned_word_eqI)
qed

lemma trylock_result:
  assumes "slot \<noteq> l" "slot + 4 \<noteq> l" "nk_ticket_trylock slot l mem = (r, mem')" "mem l = ticket_val lk"
  shows "mem' l = mem l" "r = (if ucast l = push_bit 16 (ucast (users lk) :: u32) + ucast (users lk) then 0 else -1)"
proof -
  have "slot \<noteq> slot + 4" by simp
  then show "mem' l = mem l" "r = (if ucast l = push_bit 16 (ucast (users lk) :: u32) + ucast (users lk) then 0 else -1)"
    using assms by (auto simp: nk_ticket_trylock_def cmpxchg32_def cmpxchgl_def ticket_val_users Let_def split: if_splits)
qed

text \<open>
  C40. \<open>nk_ticket_trylock\<close> does not exclude anybody, wherever the lock lies and whatever its state: of
  two tries one after the other, by any two callers whose stack slots are not the lock itself, both
  leave the lock word as it was and both give the same answer, so if the first is granted the
  second is too. Whether they are granted depends on the address of the lock: its low 32 bits
  have to consist of the user count twice.
\<close>
theorem ticket_trylock_ignores_lock:
  assumes "mem l = ticket_val lk" "slot \<noteq> l" "slot + 4 \<noteq> l" "slot' \<noteq> l" "slot' + 4 \<noteq> l"
    "nk_ticket_trylock slot l mem = (r, mem1)" "nk_ticket_trylock slot' l mem1 = (r', mem2)"
  shows "mem1 l = mem l \<and> mem2 l = mem l \<and> r' = r \<and>
    (r = 0 \<longleftrightarrow> ucast l = push_bit 16 (ucast (users lk) :: u32) + ucast (users lk))"
  using trylock_result [OF assms(2,3,6,1)] trylock_result [OF assms(4,5,7), of lk] assms(1) by simp

theorem ticket_trylock_ignores_lock_witness:
  "\<exists>r mem1 r' mem2. nk_ticket_trylock 0x8000 0x40004 (\<lambda>_. ticket_val \<lparr>ticket = 3, users = 4\<rparr>) = (r, mem1) \<and>
    nk_ticket_trylock 0x9000 0x40004 mem1 = (r', mem2) \<and> r = 0 \<and> r' = 0 \<and> mem2 0x40004 = 0x40003"
proof -
  let ?m = "\<lambda>_. ticket_val \<lparr>ticket = 3, users = 4\<rparr>"
  obtain r mem1 where a: "nk_ticket_trylock 0x8000 0x40004 ?m = (r, mem1)" by (metis surj_pair)
  obtain r' mem2 where b: "nk_ticket_trylock 0x9000 0x40004 mem1 = (r', mem2)" by (metis surj_pair)
  have "mem1 0x40004 = ?m 0 \<and> mem2 0x40004 = ?m 0 \<and> r' = r \<and> (r = 0 \<longleftrightarrow> ucast (0x40004 :: u64) = push_bit 16 (ucast (4 :: u16) :: u32) + ucast (4 :: u16))"
    using ticket_trylock_ignores_lock [OF refl _ _ _ _ a b] by simp
  then have "mem2 0x40004 = 0x40003 \<and> r' = 0 \<and> r = 0" by (simp add: ticket_val_def)
  with a b show ?thesis by blast
qed

section \<open>Readers-writer locks\<close>

record 'l nk_rwlock =
  rw_lock :: 'l
  readers :: u32

definition nk_rwlock_init :: "spinlock_t nk_rwlock \<Rightarrow> int \<times> spinlock_t nk_rwlock" where
  "nk_rwlock_init l = (0, l\<lparr>readers := 0, rw_lock := spinlock_init (rw_lock l)\<rparr>)"

text \<open>
  Where a thread is: outside; in \<open>nk_rwlock_rd_lock\<close> (\<open>True\<close>) or \<open>nk_rwlock_rd_unlock\<close> (\<open>False\<close>) about to save and
  disable interrupts, to spin, to count and to release; reading; in a write lock, with (\<open>True\<close>) or
  without interrupts saved, about to save, to spin, to test and to release for another try; writing.
\<close>

datatype rwpc = RwOut | RdSave bool | RdSpin bool | RdCount bool | RdRelease bool | RdIn
  | WrSave | WrSpin bool | WrTest bool | WrBack bool | WrIn bool

record 'l rw_sys =
  rwl :: "'l nk_rwlock"
  rpc :: "nat \<Rightarrow> rwpc"
  irqs :: "nat \<Rightarrow> bool"
  flags :: "nat \<Rightarrow> bool"

definition rw_go :: "nat \<Rightarrow> rwpc \<Rightarrow> 'l nk_rwlock \<Rightarrow> 'l rw_sys \<Rightarrow> 'l rw_sys" where
  "rw_go t p l S = S\<lparr>rwl := l, rpc := (rpc S)(t := p)\<rparr>"

text \<open>\<open>irq_disable_save\<close> and \<open>irq_enable_restore\<close> on the CPU of thread \<open>t\<close>.\<close>

definition irq_disable_save :: "nat \<Rightarrow> 'l rw_sys \<Rightarrow> 'l rw_sys" where
  "irq_disable_save t S = S\<lparr>flags := (flags S)(t := irqs S t), irqs := (irqs S)(t := False)\<rparr>"

definition irq_enable_restore :: "nat \<Rightarrow> 'l rw_sys \<Rightarrow> 'l rw_sys" where
  "irq_enable_restore t S = (if flags S t then S\<lparr>irqs := (irqs S)(t := True)\<rparr> else S)"

definition rw_spin :: "('l \<Rightarrow> bool \<times> 'l) \<Rightarrow> nat \<Rightarrow> rwpc \<Rightarrow> 'l rw_sys \<Rightarrow> 'l rw_sys" where
  "rw_spin attempt t p S =
    (let (ok, l) = attempt (rw_lock (rwl S)) in rw_go t (if ok then p else rpc S t) ((rwl S)\<lparr>rw_lock := l\<rparr>) S)"

definition rw_release :: "('l \<Rightarrow> 'l) \<Rightarrow> nat \<Rightarrow> rwpc \<Rightarrow> 'l rw_sys \<Rightarrow> 'l rw_sys" where
  "rw_release release t p S = rw_go t p ((rwl S)\<lparr>rw_lock := release (rw_lock (rwl S))\<rparr>) S"

text \<open>
  The next step of thread \<open>t\<close> with the given spinlock operations: inside a call, or the first step of the
  unlock for a thread that reads or writes.
\<close>

definition nk_rwlock_step :: "('l \<Rightarrow> bool \<times> 'l) \<Rightarrow> ('l \<Rightarrow> 'l) \<Rightarrow> nat \<Rightarrow> 'l rw_sys \<Rightarrow> 'l rw_sys" where
  "nk_rwlock_step attempt release t S =
    (case rpc S t of
       RwOut \<Rightarrow> S
     | RdSave k \<Rightarrow> rw_go t (RdSpin k) (rwl S) (irq_disable_save t S)
     | RdSpin k \<Rightarrow> rw_spin attempt t (RdCount k) S
     | RdCount k \<Rightarrow> rw_go t (RdRelease k)
         ((rwl S)\<lparr>readers := (if k then readers (rwl S) + 1 else readers (rwl S) - 1)\<rparr>) S
     | RdRelease k \<Rightarrow> irq_enable_restore t (rw_release release t (if k then RdIn else RwOut) S)
     | RdIn \<Rightarrow> rw_go t (RdSave False) (rwl S) S
     | WrSave \<Rightarrow> rw_go t (WrSpin True) (rwl S) (irq_disable_save t S)
     | WrSpin k \<Rightarrow> rw_spin attempt t (WrTest k) S
     | WrTest k \<Rightarrow> rw_go t (if readers (rwl S) = 0 then WrIn k else WrBack k) (rwl S) S
     | WrBack k \<Rightarrow>
         if k then irq_enable_restore t (rw_release release t WrSave S) else rw_release release t (WrSpin False) S
     | WrIn k \<Rightarrow>
         if k then irq_enable_restore t (rw_release release t RwOut S) else rw_release release t RwOut S)"

text \<open>The calls a thread outside can make: \<open>nk_rwlock_rd_lock\<close>, \<open>nk_rwlock_wr_lock\<close>, \<open>nk_rwlock_wr_lock_irq_save\<close>.\<close>

definition rw_calls :: "rwpc set" where
  "rw_calls = {RdSave True, WrSpin False, WrSave}"

inductive rw_runs :: "('l \<Rightarrow> bool \<times> 'l) \<Rightarrow> ('l \<Rightarrow> 'l) \<Rightarrow> nat \<Rightarrow> 'l rw_sys \<Rightarrow> 'l rw_sys \<Rightarrow> bool"
  for attempt release n S where
  rw_refl: "rw_runs attempt release n S S"
| rw_call: "\<lbrakk>rw_runs attempt release n S S'; t < n; rpc S' t = RwOut; p \<in> rw_calls\<rbrakk>
    \<Longrightarrow> rw_runs attempt release n S (rw_go t p (rwl S') S')"
| rw_step: "\<lbrakk>rw_runs attempt release n S S'; t < n\<rbrakk>
    \<Longrightarrow> rw_runs attempt release n S (nk_rwlock_step attempt release t S')"

text \<open>Who holds the spinlock, and who counts as a reader.\<close>

definition rw_holds :: "rwpc \<Rightarrow> bool" where
  "rw_holds p \<longleftrightarrow> (case p of RdCount _ \<Rightarrow> True | RdRelease _ \<Rightarrow> True | WrTest _ \<Rightarrow> True | WrBack _ \<Rightarrow> True
    | WrIn _ \<Rightarrow> True | _ \<Rightarrow> False)"

definition rw_counts :: "rwpc \<Rightarrow> bool" where
  "rw_counts p \<longleftrightarrow> (case p of RdRelease k \<Rightarrow> k | RdIn \<Rightarrow> True | RdSave k \<Rightarrow> \<not> k | RdSpin k \<Rightarrow> \<not> k | RdCount k \<Rightarrow> \<not> k
    | _ \<Rightarrow> False)"

text \<open>Whether the interrupt state of the thread's CPU is saved in its \<open>flags\<close> and interrupts are off.\<close>

definition rw_saved :: "rwpc \<Rightarrow> bool" where
  "rw_saved p \<longleftrightarrow> (case p of RdSpin _ \<Rightarrow> True | RdCount _ \<Rightarrow> True | RdRelease _ \<Rightarrow> True | WrSpin k \<Rightarrow> k
    | WrTest k \<Rightarrow> k | WrBack k \<Rightarrow> k | WrIn k \<Rightarrow> k | _ \<Rightarrow> False)"

lemmas rw_pc_defs = rw_holds_def rw_counts_def rw_saved_def

definition rw_readers :: "nat \<Rightarrow> 'l rw_sys \<Rightarrow> nat set" where
  "rw_readers n S = {t. t < n \<and> rw_counts (rpc S t)}"

definition rw_inv :: "('l \<Rightarrow> bool) \<Rightarrow> (nat \<Rightarrow> bool) \<Rightarrow> nat \<Rightarrow> 'l rw_sys \<Rightarrow> bool" where
  "rw_inv free on n S \<longleftrightarrow> (free (rw_lock (rwl S)) \<longleftrightarrow> (\<forall>t < n. \<not> rw_holds (rpc S t)))
    \<and> (\<forall>t < n. \<forall>u < n. rw_holds (rpc S t) \<and> rw_holds (rpc S u) \<longrightarrow> t = u)
    \<and> readers (rwl S) = of_nat (card (rw_readers n S))
    \<and> (\<forall>t < n. \<forall>k. rpc S t = WrIn k \<longrightarrow> rw_readers n S = {})
    \<and> (\<forall>t < n. if rw_saved (rpc S t) then flags S t = on t \<and> \<not> irqs S t else irqs S t = on t)"

lemma rw_go_fields [simp]:
  "rwl (rw_go t p l S) = l" "rpc (rw_go t p l S) = (rpc S)(t := p)" "irqs (rw_go t p l S) = irqs S"
  "flags (rw_go t p l S) = flags S"
  by (simp_all add: rw_go_def)

lemma rw_readers_upd:
  "t < n \<Longrightarrow> rpc S' = (rpc S)(t := p) \<Longrightarrow>
    rw_readers n S' = (if rw_counts p then insert t (rw_readers n S) else rw_readers n S - {t})"
  by (auto simp: rw_readers_def)

lemma rw_readers_finite [simp]: "finite (rw_readers n S)"
  by (simp add: rw_readers_def)

text \<open>A step that moves one thread and respects who holds the lock keeps the invariant.\<close>

lemma rw_inv_move:
  assumes inv: "rw_inv free on n S" and t: "t < n" and pc: "rpc S' = (rpc S)(t := p)"
    and lock: "free (rw_lock (rwl S')) \<longleftrightarrow> \<not> rw_holds p \<and> (\<forall>u < n. u \<noteq> t \<longrightarrow> \<not> rw_holds (rpc S u))"
    and one: "\<And>u. rw_holds p \<Longrightarrow> u < n \<Longrightarrow> u \<noteq> t \<Longrightarrow> \<not> rw_holds (rpc S u)"
    and cnt: "readers (rwl S') = of_nat (card (rw_readers n S'))"
    and wr: "\<And>u k. u < n \<Longrightarrow> rpc S' u = WrIn k \<Longrightarrow> rw_readers n S' = {}"
    and irq: "if rw_saved p then flags S' t = on t \<and> \<not> irqs S' t else irqs S' t = on t"
    and rest: "\<And>u. u \<noteq> t \<Longrightarrow> flags S' u = flags S u \<and> irqs S' u = irqs S u"
  shows "rw_inv free on n S'"
proof -
  have "free (rw_lock (rwl S')) \<longleftrightarrow> (\<forall>u < n. \<not> rw_holds (rpc S' u))"
    unfolding lock pc using t by auto
  moreover have "\<forall>v < n. \<forall>u < n. rw_holds (rpc S' v) \<and> rw_holds (rpc S' u) \<longrightarrow> v = u"
    using inv one unfolding rw_inv_def pc by auto
  moreover have "\<forall>u < n. if rw_saved (rpc S' u) then flags S' u = on u \<and> \<not> irqs S' u else irqs S' u = on u"
    using inv irq rest unfolding rw_inv_def pc by auto
  ultimately show ?thesis using cnt wr unfolding rw_inv_def by blast
qed

lemma rw_invD:
  assumes "rw_inv free on n S"
  shows "free (rw_lock (rwl S)) \<longleftrightarrow> (\<forall>t < n. \<not> rw_holds (rpc S t))"
    "\<And>t u. t < n \<Longrightarrow> u < n \<Longrightarrow> rw_holds (rpc S t) \<Longrightarrow> rw_holds (rpc S u) \<Longrightarrow> t = u"
    "readers (rwl S) = of_nat (card (rw_readers n S))"
    "\<And>t k. t < n \<Longrightarrow> rpc S t = WrIn k \<Longrightarrow> rw_readers n S = {}"
    "\<And>t. t < n \<Longrightarrow> rw_saved (rpc S t) \<Longrightarrow> flags S t = on t \<and> \<not> irqs S t"
    "\<And>t. t < n \<Longrightarrow> \<not> rw_saved (rpc S t) \<Longrightarrow> irqs S t = on t"
  using assms unfolding rw_inv_def by (blast, blast, blast, blast, metis, metis)

lemma rw_readers_same:
  "t < n \<Longrightarrow> rpc S' = (rpc S)(t := p) \<Longrightarrow> rw_counts p = rw_counts (rpc S t) \<Longrightarrow> rw_readers n S' = rw_readers n S"
  by (auto simp: rw_readers_def)

text \<open>A step that neither takes nor releases the lock.\<close>

lemma rw_inv_keep:
  assumes inv: "rw_inv free on n S" and t: "t < n" and pc: "rpc S' = (rpc S)(t := p)"
    and same: "rwl S' = rwl S" "rw_holds p = rw_holds (rpc S t)" "rw_counts p = rw_counts (rpc S t)"
    and wr: "\<And>k. p = WrIn k \<Longrightarrow> rw_readers n S = {}"
    and irq: "if rw_saved p then flags S' t = on t \<and> \<not> irqs S' t else irqs S' t = on t"
    and rest: "\<And>u. u \<noteq> t \<Longrightarrow> flags S' u = flags S u \<and> irqs S' u = irqs S u"
  shows "rw_inv free on n S'"
proof -
  note I = rw_invD [OF inv] and r = rw_readers_same [OF t pc same(3)]
  show ?thesis
  proof (rule rw_inv_move [OF inv t pc _ _ _ _ irq rest])
    show "free (rw_lock (rwl S')) \<longleftrightarrow> \<not> rw_holds p \<and> (\<forall>u < n. u \<noteq> t \<longrightarrow> \<not> rw_holds (rpc S u))"
      unfolding same(1,2) I(1) using t by auto
  qed (use I(2-4) t same wr in \<open>auto simp: r pc split: if_splits\<close>)
qed

context spin_word
begin

lemma rw_spin_inv:
  assumes inv: "rw_inv free on n S" and t: "t < n" and p: "\<not> rw_holds (rpc S t)" "rw_holds p"
    "rw_counts p = rw_counts (rpc S t)" "rw_saved p = rw_saved (rpc S t)" "\<And>k. p \<noteq> WrIn k"
  shows "rw_inv free on n (rw_spin attempt t p S)"
proof -
  note I = rw_invD [OF inv]
  let ?l = "rw_lock (rwl S)" and ?q = "if free (rw_lock (rwl S)) then p else rpc S t"
  let ?S = "rw_go t ?q ((rwl S)\<lparr>rw_lock := snd (attempt ?l)\<rparr>) S"
  have eq: "rw_spin attempt t p S = ?S"
    by (simp add: rw_spin_def split_beta attempt_iff)
  have pc: "rpc ?S = (rpc S)(t := ?q)" by simp
  have r: "rw_readers n ?S = rw_readers n S" by (rule rw_readers_same [OF t pc]) (simp add: p(3))
  show ?thesis unfolding eq
  proof (rule rw_inv_move [OF inv t pc])
    show "free (rw_lock (rwl ?S)) \<longleftrightarrow> \<not> rw_holds ?q \<and> (\<forall>u < n. u \<noteq> t \<longrightarrow> \<not> rw_holds (rpc S u))"
      using attempt_takes [of ?l] p(1,2) I(1) by auto
    show "\<not> rw_holds (rpc S u)" if "rw_holds ?q" "u < n" "u \<noteq> t" for u
      using that p(1) I(1) by (auto split: if_splits)
    show "rw_readers n ?S = {}" if "u < n" "rpc ?S u = WrIn k" for u k
      unfolding r using that I(4) p(5) t by (auto split: if_splits)
    show "if rw_saved ?q then flags ?S t = on t \<and> \<not> irqs ?S t else irqs ?S t = on t"
      using I(5,6) [OF t] p(4) by simp
  qed (use I(3) r in simp_all)
qed

lemma rw_release_inv:
  assumes inv: "rw_inv free on n S" and t: "t < n" and p: "rw_holds (rpc S t)" "\<not> rw_holds p"
    "rw_counts p = rw_counts (rpc S t)" "\<not> rw_saved p"
    and S': "S' = (if rw_saved (rpc S t) then irq_enable_restore t (rw_release release t p S) else rw_release release t p S)"
  shows "rw_inv free on n S'"
proof -
  note I = rw_invD [OF inv]
  have pc: "rpc S' = (rpc S)(t := p)" and l: "rwl S' = (rwl S)\<lparr>rw_lock := release (rw_lock (rwl S))\<rparr>"
    by (simp_all add: S' irq_enable_restore_def rw_release_def)
  have r: "rw_readers n S' = rw_readers n S" by (rule rw_readers_same [OF t pc p(3)])
  show ?thesis
  proof (rule rw_inv_move [OF inv t pc])
    show "free (rw_lock (rwl S')) \<longleftrightarrow> \<not> rw_holds p \<and> (\<forall>u < n. u \<noteq> t \<longrightarrow> \<not> rw_holds (rpc S u))"
      using release_frees I(2) t p(1,2) by (auto simp: l)
    show "rw_readers n S' = {}" if "u < n" "rpc S' u = WrIn k" for u k
      unfolding r using that I(4) p(2) t pc by (auto simp: rw_holds_def split: if_splits)
    show "if rw_saved p then flags S' t = on t \<and> \<not> irqs S' t else irqs S' t = on t"
      using I(5,6) [OF t] p(4) by (auto simp: S' irq_enable_restore_def rw_release_def)
    show "flags S' u = flags S u \<and> irqs S' u = irqs S u" if "u \<noteq> t" for u
      using that by (simp add: S' irq_enable_restore_def rw_release_def)
  qed (use I(3) r l p(2) in simp_all)
qed

lemma rw_count_inv:
  assumes inv: "rw_inv free on n S" and t: "t < n" and pc: "rpc S t = RdCount k"
  shows "rw_inv free on n (nk_rwlock_step attempt release t S)"
proof -
  note I = rw_invD [OF inv]
  let ?S = "rw_go t (RdRelease k) ((rwl S)\<lparr>readers := (if k then readers (rwl S) + 1 else readers (rwl S) - 1)\<rparr>) S"
  have eq: "nk_rwlock_step attempt release t S = ?S" using pc by (simp add: nk_rwlock_step_def)
  have h: "rw_holds (rpc S t)" using pc by (simp add: rw_holds_def)
  have r: "rw_readers n ?S = (if k then insert t (rw_readers n S) else rw_readers n S - {t})"
    using rw_readers_upd [OF t, of ?S S "RdRelease k"] by (simp add: rw_counts_def)
  have mem: "t \<in> rw_readers n S \<longleftrightarrow> \<not> k" using t pc by (simp add: rw_readers_def rw_counts_def)
  have "Suc 0 \<le> card (rw_readers n S)" if "\<not> k"
    using mem that by (auto simp: Suc_le_eq card_gt_0_iff)
  then have cnt: "readers (rwl ?S) = of_nat (card (rw_readers n ?S))"
    unfolding r using mem I(3) by (cases k) (simp_all add: card_Diff_singleton of_nat_diff)
  show ?thesis unfolding eq
  proof (rule rw_inv_move [OF inv t _ _ _ cnt])
    show "free (rw_lock (rwl ?S)) \<longleftrightarrow>
        \<not> rw_holds (RdRelease k) \<and> (\<forall>u < n. u \<noteq> t \<longrightarrow> \<not> rw_holds (rpc S u))"
      using I(1) t h by (auto simp: rw_holds_def)
    show "rw_readers n ?S = {}" if "u < n" "rpc ?S u = WrIn j" for u j
      using that I(2) [OF t that(1) h] by (auto simp: rw_holds_def split: if_splits)
    show "if rw_saved (RdRelease k) then flags ?S t = on t \<and> \<not> irqs ?S t else irqs ?S t = on t"
      using I(5) [OF t] pc by (simp add: rw_saved_def)
  qed (use I(2) [OF t _ h] in auto)
qed

lemma rw_step_inv:
  assumes inv: "rw_inv free on n S" and n: "n < 2 ^ 32" and t: "t < n"
  shows "rw_inv free on n (nk_rwlock_step attempt release t S)"
proof -
  note I = rw_invD [OF inv]
  have keep: "rw_inv free on n S'" if "rpc S' = (rpc S)(t := p)" "rwl S' = rwl S" "rw_holds p = rw_holds (rpc S t)"
      "rw_counts p = rw_counts (rpc S t)" "\<And>k. p = WrIn k \<Longrightarrow> rw_readers n S = {}"
      "if rw_saved p then flags S' t = on t \<and> \<not> irqs S' t else irqs S' t = on t"
      "\<And>u. u \<noteq> t \<Longrightarrow> flags S' u = flags S u \<and> irqs S' u = irqs S u" for S' p
    using rw_inv_keep [OF inv t] that by blast
  have "card (rw_readers n S) \<le> card {..<n}" by (rule card_mono) (auto simp: rw_readers_def)
  then have none: "rw_readers n S = {}" if "readers (rwl S) = 0"
    using that I(3) n by (simp add: word_unat_eq_iff unat_of_nat take_bit_eq_mod)
  note st = nk_rwlock_step_def rw_pc_defs irq_disable_save_def
  show ?thesis
  proof (cases "rpc S t")
    case RwOut
    then show ?thesis using inv by (simp add: st)
  next
    case (RdSave k)
    then show ?thesis using I(6) [OF t] by (intro keep [of _ "RdSpin k"]) (auto simp: st)
  next
    case (RdSpin k)
    then show ?thesis using rw_spin_inv [OF inv t, of "RdCount k"] by (simp add: st)
  next
    case (RdCount k)
    then show ?thesis using rw_count_inv [OF inv t] by blast
  next
    case (RdRelease k)
    then show ?thesis
      using rw_release_inv [OF inv t, of "if k then RdIn else RwOut"] by (simp add: st)
  next
    case RdIn
    then show ?thesis using I(6) [OF t] by (intro keep [of _ "RdSave False"]) (auto simp: st)
  next
    case WrSave
    then show ?thesis using I(6) [OF t] by (intro keep [of _ "WrSpin True"]) (auto simp: st)
  next
    case (WrSpin k)
    then show ?thesis using rw_spin_inv [OF inv t, of "WrTest k"] by (simp add: st)
  next
    case (WrTest k)
    then show ?thesis using I(5,6) [OF t] none
      by (intro keep [of _ "if readers (rwl S) = 0 then WrIn k else WrBack k"])
        (auto simp: st split: if_splits)
  next
    case (WrBack k)
    then show ?thesis
      using rw_release_inv [OF inv t, of "if k then WrSave else WrSpin False"] by (auto simp: st)
  next
    case (WrIn k)
    then show ?thesis using rw_release_inv [OF inv t, of RwOut] by (auto simp: st)
  qed
qed

lemma rw_inv_runs:
  assumes "rw_runs attempt release n S0 S" "n < 2 ^ 32" "rw_inv free on n S0"
  shows "rw_inv free on n S"
  using assms(1)
proof (induction rule: rw_runs.induct)
  case (rw_call S' t p)
  then show ?case
    using rw_invD(6) [OF rw_call.IH, of t]
    by (intro rw_inv_keep [OF rw_call.IH, of t _ p]) (auto simp: rw_calls_def rw_pc_defs)
next
  case (rw_step S' t)
  then show ?case using rw_step_inv assms(2) by blast
qed (rule assms(3))

end

text \<open>All threads outside, the interrupts of thread \<open>t\<close>'s CPU in state \<open>on t\<close>.\<close>

definition rw_start :: "(nat \<Rightarrow> bool) \<Rightarrow> spinlock_t nk_rwlock \<Rightarrow> spinlock_t rw_sys" where
  "rw_start on l = \<lparr>rwl = l, rpc = (\<lambda>_. RwOut), irqs = on, flags = (\<lambda>_. False)\<rparr>"

lemma rw_inv_start: "rw_inv (\<lambda>l. l = 0) on n (rw_start on (snd (nk_rwlock_init l)))"
  by (simp add: rw_inv_def rw_start_def nk_rwlock_init_def spinlock_init_def rw_readers_def rw_pc_defs)

abbreviation rwlock_runs :: "nat \<Rightarrow> spinlock_t rw_sys \<Rightarrow> spinlock_t rw_sys \<Rightarrow> bool" where
  "rwlock_runs \<equiv> rw_runs spin_lock_round spin_unlock"

text \<open>
  C14. A writer is alone: from an initialised readers-writer lock, in every interleaving of reading and
  writing threads, while a thread is between a write lock and its unlock no other thread reads or
  writes; when every thread is outside the lock is free and counts no reader; and every thread
  has the interrupts of its CPU as they were, unless it writes after \<open>nk_rwlock_wr_lock_irq_save\<close>,
  with interrupts off.
\<close>

theorem rwlock_excludes:
  assumes "n < 2 ^ 32" "rwlock_runs n (rw_start on (snd (nk_rwlock_init l))) S"
  shows "(\<forall>t < n. \<forall>u < n. \<forall>k. rpc S t = WrIn k \<and> u \<noteq> t \<longrightarrow> rpc S u \<noteq> RdIn \<and> (\<forall>j. rpc S u \<noteq> WrIn j))
    \<and> ((\<forall>t < n. rpc S t = RwOut) \<longrightarrow> rwl S = \<lparr>rw_lock = 0, readers = 0\<rparr>)
    \<and> (\<forall>t < n. rpc S t \<in> {RwOut, RdIn, WrIn False} \<longrightarrow> irqs S t = on t)
    \<and> (\<forall>t < n. rpc S t = WrIn True \<longrightarrow> \<not> irqs S t)"
proof -
  have "rw_inv (\<lambda>l. l = 0) on n S" using sw.rw_inv_runs [OF assms(2,1) rw_inv_start] .
  note I = rw_invD [OF this]
  have "rpc S u \<noteq> RdIn" if "t < n" "u < n" "rpc S t = WrIn k" for t u k
    using I(4) [OF that(1,3)] that(2) by (auto simp: rw_readers_def rw_counts_def)
  moreover have "rpc S u \<noteq> WrIn j" if "t < n" "u < n" "rpc S t = WrIn k" "u \<noteq> t" for t u k j
    using I(2) [of t u] that by (auto simp: rw_holds_def)
  moreover have "rwl S = \<lparr>rw_lock = 0, readers = 0\<rparr>" if out: "\<forall>t < n. rpc S t = RwOut"
  proof -
    have "rw_readers n S = {}" using out by (auto simp: rw_readers_def rw_counts_def)
    then show ?thesis using I(1,3) out by (simp add: rw_holds_def)
  qed
  moreover have "irqs S t = on t" if "t < n" "rpc S t \<in> {RwOut, RdIn, WrIn False}" for t
    using I(6) [of t] that by (auto simp: rw_saved_def)
  moreover have "\<not> irqs S t" if "t < n" "rpc S t = WrIn True" for t
    using I(5) [of t] that by (simp add: rw_saved_def)
  ultimately show ?thesis by blast
qed

text \<open>A sequence of calls (\<open>Some\<close>) and steps (\<open>None\<close>) of threads.\<close>

fun rw_schedule :: "(nat \<times> rwpc option) list \<Rightarrow> spinlock_t rw_sys \<Rightarrow> spinlock_t rw_sys" where
  "rw_schedule [] S = S"
| "rw_schedule ((t, Some p) # xs) S = rw_schedule xs (if rpc S t = RwOut \<and> p \<in> rw_calls then rw_go t p (rwl S) S else S)"
| "rw_schedule ((t, None) # xs) S = rw_schedule xs (nk_rwlock_step spin_lock_round spin_unlock t S)"

lemma rw_schedule_runs:
  "rwlock_runs n S0 S \<Longrightarrow> \<forall>x \<in> set xs. fst x < n \<Longrightarrow> rwlock_runs n S0 (rw_schedule xs S)"
  by (induction xs S rule: rw_schedule.induct) (simp_all add: rw_call rw_step)

theorem rwlock_excludes_witness:
  "\<exists>S. rw_schedule [(0, Some WrSave), (0, None), (0, None), (1, Some (RdSave True)), (1, None), (1, None), (0, None)]
        (rw_start (\<lambda>_. True) (snd (nk_rwlock_init \<lparr>rw_lock = 5, readers = 7\<rparr>))) = S
    \<and> rpc S 0 = WrIn True \<and> rpc S 1 = RdSpin True \<and> \<not> irqs S 0"
proof -
  let ?S0 = "rw_start (\<lambda>_. True) (snd (nk_rwlock_init \<lparr>rw_lock = 5, readers = 7\<rparr>))"
  let ?xs = "[(0, Some WrSave), (0, None), (0, None), (1, Some (RdSave True)), (1, None), (1, None), (0, None)]"
  have r: "rwlock_runs 2 ?S0 (rw_schedule ?xs ?S0)" by (rule rw_schedule_runs [OF rw_refl]) auto
  have p: "rpc (rw_schedule ?xs ?S0) 0 = WrIn True" "rpc (rw_schedule ?xs ?S0) 1 = RdSpin True"
    by (simp_all add: rw_calls_def nk_rwlock_step_def rw_spin_def spin_lock_round_def irq_disable_save_def
        rw_start_def nk_rwlock_init_def spinlock_init_def)
  have "\<not> irqs (rw_schedule ?xs ?S0) 0" using rwlock_excludes [OF _ r] p(1) by simp
  then show ?thesis using p by blast
qed

end
