(* ===== verification/Condvar.thy ===== *)
theory Condvar
  imports Prelude
begin

text \<open>
  Condition variables (src/nautilus/condvar.c). The code of a waiting, signalling or broadcasting thread
  is a step function; a step is one section under the lock of the condition variable or one operation on
  its wait queue, which is a list here, as the queues of src/nautilus/queue.c hold their entries in order.
  Waking a thread makes it runnable: the path of \<open>nk_thread_queue_wake_one\<close> and of the loop that wakes all
  for a run queue without room is left out.
\<close>

section \<open>The condition variable and the steps\<close>

record nk_condvar =
  nwaiters :: u32
  wakeup_seq :: u64
  woken_seq :: u64
  main_seq :: u64
  bcast_seq :: u32

text \<open>
  Where a thread is. In the wait: about to enter, about to sleep on the queue, asleep, awake again and
  about to test, about to take the mutex back, returned. In the signal and the broadcast: about to
  test, about to wake one, about to wake all.
\<close>

datatype cpc = CIdle | CEnter | CSleep | CAsleep | CTest | CRelock | CReturned | GSignal | GWakeOne | GBcast | GWakeAll

text \<open>
  \<open>bc\<close> and \<open>sq\<close> are the local variables \<open>bc\<close> and \<open>seq\<close> of the wait, \<open>clock\<close> says whether a thread holds the lock
  of the condition variable across a step, \<open>mutex\<close> is the owner of the lock passed to the wait.
\<close>

record cv_sys =
  cv :: nk_condvar
  wait_queue :: "nat list"
  clock :: bool
  mutex :: "nat option"
  cpc :: "nat \<Rightarrow> cpc"
  bc :: "nat \<Rightarrow> u32"
  sq :: "nat \<Rightarrow> u64"

definition nk_condvar_zero :: nk_condvar where
  "nk_condvar_zero = \<lparr>nwaiters = 0, wakeup_seq = 0, woken_seq = 0, main_seq = 0, bcast_seq = 0\<rparr>"

text \<open>The queue is a pointer; \<open>q\<close> is what creating it returned. The result is \<open>-EINVAL\<close> (22) if that failed.\<close>

definition nk_condvar_init :: "ptr \<Rightarrow> int \<times> nk_condvar" where
  "nk_condvar_init q = (if q = NULL then -22 else 0, nk_condvar_zero)"

definition nk_condvar_destroy :: "nk_condvar \<Rightarrow> int \<times> nk_condvar" where
  "nk_condvar_destroy c = (if nwaiters c \<noteq> 0 then (-22, c) else (0, nk_condvar_zero))"

definition cgo :: "nat \<Rightarrow> cpc \<Rightarrow> cv_sys \<Rightarrow> cv_sys" where
  "cgo t p S = S\<lparr>cpc := (cpc S)(t := p)\<rparr>"

definition nk_condvar_wait_step :: "nat \<Rightarrow> cv_sys \<Rightarrow> cv_sys option" where
  "nk_condvar_wait_step t S =
    (let c = cv S in
     case cpc S t of
       CEnter \<Rightarrow>
         if clock S then None
         else Some (cgo t CSleep (S\<lparr>mutex := None, cv := c\<lparr>nwaiters := nwaiters c + 1, main_seq := main_seq c + 1\<rparr>,
           bc := (bc S)(t := bcast_seq c), sq := (sq S)(t := wakeup_seq c)\<rparr>))
     | CSleep \<Rightarrow> Some (cgo t CAsleep (S\<lparr>wait_queue := wait_queue S @ [t]\<rparr>))
     | CTest \<Rightarrow>
         if clock S then None
         else if bc S t \<noteq> bcast_seq c then Some (cgo t CRelock (S\<lparr>cv := c\<lparr>nwaiters := nwaiters c - 1\<rparr>\<rparr>))
         else if wakeup_seq c = sq S t \<or> wakeup_seq c = woken_seq c then Some (cgo t CSleep S)
         else Some (cgo t CRelock (S\<lparr>cv := c\<lparr>woken_seq := woken_seq c + 1, nwaiters := nwaiters c - 1\<rparr>\<rparr>))
     | CRelock \<Rightarrow> if mutex S = None then Some (cgo t CReturned (S\<lparr>mutex := Some t\<rparr>)) else None
     | _ \<Rightarrow> None)"

text \<open>Waking the first sleeper, and all of them.\<close>

definition wake_one :: "cv_sys \<Rightarrow> cv_sys" where
  "wake_one S = (case wait_queue S of [] \<Rightarrow> S | u # us \<Rightarrow> cgo u CTest (S\<lparr>wait_queue := us\<rparr>))"

definition wake_all :: "cv_sys \<Rightarrow> cv_sys" where
  "wake_all S = fold (\<lambda>u. cgo u CTest) (wait_queue S) (S\<lparr>wait_queue := []\<rparr>)"

definition nk_condvar_signal_step :: "nat \<Rightarrow> cv_sys \<Rightarrow> cv_sys option" where
  "nk_condvar_signal_step t S =
    (let c = cv S in
     case cpc S t of
       GSignal \<Rightarrow>
         if clock S then None
         else if wakeup_seq c < main_seq c
         then Some (cgo t GWakeOne (S\<lparr>clock := True, cv := c\<lparr>wakeup_seq := wakeup_seq c + 1\<rparr>\<rparr>))
         else Some (cgo t CIdle S)
     | GWakeOne \<Rightarrow> Some (cgo t CIdle (wake_one (S\<lparr>clock := False\<rparr>)))
     | _ \<Rightarrow> None)"

definition nk_condvar_bcast_step :: "nat \<Rightarrow> cv_sys \<Rightarrow> cv_sys option" where
  "nk_condvar_bcast_step t S =
    (let c = cv S in
     case cpc S t of
       GBcast \<Rightarrow>
         if clock S then None
         else if wakeup_seq c < main_seq c
         then Some (cgo t GWakeAll
           (S\<lparr>cv := c\<lparr>woken_seq := main_seq c, wakeup_seq := main_seq c, bcast_seq := bcast_seq c + 1\<rparr>\<rparr>))
         else Some (cgo t CIdle S)
     | GWakeAll \<Rightarrow> Some (cgo t CIdle (wake_all S))
     | _ \<Rightarrow> None)"

definition cv_step :: "nat \<Rightarrow> cv_sys \<Rightarrow> cv_sys option" where
  "cv_step t S =
    (case cpc S t of
       CIdle \<Rightarrow> None
     | CAsleep \<Rightarrow> None
     | CReturned \<Rightarrow> Some (cgo t CIdle (S\<lparr>mutex := None\<rparr>))
     | GSignal \<Rightarrow> nk_condvar_signal_step t S
     | GWakeOne \<Rightarrow> nk_condvar_signal_step t S
     | GBcast \<Rightarrow> nk_condvar_bcast_step t S
     | GWakeAll \<Rightarrow> nk_condvar_bcast_step t S
     | _ \<Rightarrow> nk_condvar_wait_step t S)"

text \<open>An idle thread calls; a thread that waits takes the mutex first.\<close>

definition cv_call :: "cpc \<Rightarrow> nat \<Rightarrow> cv_sys \<Rightarrow> cv_sys option" where
  "cv_call p t S =
    (if cpc S t \<noteq> CIdle then None
     else if p = CEnter then (if mutex S = None then Some (cgo t p (S\<lparr>mutex := Some t\<rparr>)) else None)
     else Some (cgo t p S))"

text \<open>
  Threads \<open>0, \<dots>, n - 1\<close> make calls of the given kinds and take steps in any order; the second number
  counts the waits that were entered.
\<close>

inductive cv_runs :: "cpc set \<Rightarrow> nat \<Rightarrow> cv_sys \<Rightarrow> nat \<Rightarrow> cv_sys \<Rightarrow> bool" for calls n S where
  cv_refl: "cv_runs calls n S 0 S"
| cv_calls: "\<lbrakk>cv_runs calls n S w S'; t < n; p \<in> calls; cv_call p t S' = Some S''\<rbrakk> \<Longrightarrow> cv_runs calls n S w S''"
| cv_steps: "\<lbrakk>cv_runs calls n S w S'; t < n; cv_step t S' = Some S''\<rbrakk>
    \<Longrightarrow> cv_runs calls n S (if cpc S' t = CEnter then Suc w else w) S''"

definition cv_start :: cv_sys where
  "cv_start = \<lparr>cv = nk_condvar_zero, wait_queue = [], clock = False, mutex = None, cpc = (\<lambda>_. CIdle),
    bc = (\<lambda>_. 0), sq = (\<lambda>_. 0)\<rparr>"

lemma cgo_fields [simp]:
  "cv (cgo t p S) = cv S" "wait_queue (cgo t p S) = wait_queue S" "clock (cgo t p S) = clock S"
  "mutex (cgo t p S) = mutex S" "cpc (cgo t p S) = (cpc S)(t := p)" "bc (cgo t p S) = bc S" "sq (cgo t p S) = sq S"
  by (simp_all add: cgo_def)

lemmas cv_step_defs = cv_step_def nk_condvar_wait_step_def nk_condvar_signal_step_def nk_condvar_bcast_step_def Let_def

section \<open>A lost wakeup\<close>

fun cv_schedule :: "(nat \<times> cpc option) list \<Rightarrow> cv_sys \<Rightarrow> cv_sys option" where
  "cv_schedule [] S = Some S"
| "cv_schedule ((t, a) # xs) S =
    (case (case a of Some p \<Rightarrow> cv_call p t S | None \<Rightarrow> cv_step t S) of
       None \<Rightarrow> None
     | Some S' \<Rightarrow> cv_schedule xs S')"

lemma cv_schedule_runs:
  assumes "cv_runs calls n S0 w S" "\<forall>(t, a) \<in> set xs. t < n \<and> (\<forall>p. a = Some p \<longrightarrow> p \<in> calls)"
    "cv_schedule xs S = Some S'"
  shows "\<exists>w' \<le> w + length xs. cv_runs calls n S0 w' S'"
  using assms
proof (induction xs arbitrary: w S)
  case Nil
  then show ?case by auto
next
  case (Cons x xs)
  obtain t a where x: "x = (t, a)" by (cases x)
  with Cons.prems(3) obtain S1 where S1: "(case a of Some p \<Rightarrow> cv_call p t S | None \<Rightarrow> cv_step t S) = Some S1"
      "cv_schedule xs S1 = Some S'"
    by (auto split: option.splits)
  have "\<exists>w1 \<le> Suc w. cv_runs calls n S0 w1 S1"
  proof (cases a)
    case None
    then have "cv_runs calls n S0 (if cpc S t = CEnter then Suc w else w) S1"
      using cv_steps [OF Cons.prems(1)] Cons.prems(2) S1(1) x by simp
    then show ?thesis by (intro exI [of _ "if cpc S t = CEnter then Suc w else w"]) simp
  next
    case (Some p)
    then have "t < n" "p \<in> calls" "cv_call p t S = Some S1" using Cons.prems(2) S1(1) x by auto
    then have "cv_runs calls n S0 w S1" by (rule cv_calls [OF Cons.prems(1)])
    then show ?thesis by (intro exI [of _ w]) simp
  qed
  then obtain w1 where w1: "w1 \<le> Suc w" "cv_runs calls n S0 w1 S1" by blast
  have "\<exists>w' \<le> w1 + length xs. cv_runs calls n S0 w' S'"
    by (rule Cons.IH [OF w1(2) _ S1(2)]) (use Cons.prems(2) in simp)
  then obtain w' where "w' \<le> w1 + length xs" "cv_runs calls n S0 w' S'" by blast
  then show ?case using w1(1) by (intro exI [of _ w']) simp
qed

text \<open>Thread 0 has entered a wait, thread 1 signals before thread 0 is on the queue.\<close>

definition signalled_early :: "(nat \<times> cpc option) list" where
  "signalled_early = [(0, Some CEnter), (0, None), (1, Some GSignal), (1, None), (1, None), (0, None)]"

definition cv_stuck :: "cv_sys \<Rightarrow> bool" where
  "cv_stuck S \<longleftrightarrow> cpc S 0 = CAsleep \<and> \<not> wakeup_seq (cv S) < main_seq (cv S) \<and> \<not> clock S
    \<and> (\<forall>t. t \<noteq> 0 \<longrightarrow> cpc S t \<in> {CIdle, GSignal, GBcast})"

lemma cv_stuck_step: "cv_stuck S \<Longrightarrow> cv_step t S = Some S' \<Longrightarrow> cv_stuck S'"
proof -
  assume S: "cv_stuck S" "cv_step t S = Some S'"
  then have t: "t \<noteq> 0" by (cases "t = 0") (auto simp: cv_stuck_def cv_step_def)
  then have "cpc S t \<in> {CIdle, GSignal, GBcast}" using S(1) by (simp add: cv_stuck_def)
  then have "S' = cgo t CIdle S" using S by (auto simp: cv_stuck_def cv_step_defs)
  then show ?thesis using S(1) t by (simp add: cv_stuck_def)
qed

lemma cv_stuck_call: "cv_stuck S \<Longrightarrow> p \<in> {GSignal, GBcast} \<Longrightarrow> cv_call p t S = Some S' \<Longrightarrow> cv_stuck S'"
proof -
  assume S: "cv_stuck S" "p \<in> {GSignal, GBcast}" "cv_call p t S = Some S'"
  then have "cpc S t = CIdle" "S' = cgo t p S" by (auto simp: cv_call_def split: if_splits)
  then show ?thesis using S(1,2) by (cases "t = 0") (auto simp: cv_stuck_def)
qed

lemma cv_stuck_runs:
  "cv_runs {GSignal, GBcast} n S w S' \<Longrightarrow> cv_stuck S \<Longrightarrow> cv_stuck S'"
  by (induction rule: cv_runs.induct) (blast dest: cv_stuck_step cv_stuck_call)+

text \<open>
  C16. A signal can be lost: the wait drops the lock of the condition variable before it sleeps on the queue.
  A signal in between counts the waiting thread as woken and finds nobody on the queue; the thread
  then sleeps, and no sequence of further signals and broadcasts wakes it up.
\<close>

theorem condvar_lost_wakeup:
  "\<exists>S. cv_schedule signalled_early cv_start = Some S \<and> cpc S 0 = CAsleep \<and> wakeup_seq (cv S) \<noteq> sq S 0
    \<and> (\<forall>n w S'. cv_runs {GSignal, GBcast} n S w S' \<longrightarrow> cpc S' 0 = CAsleep)"
proof -
  obtain S where S: "cv_schedule signalled_early cv_start = Some S" "wakeup_seq (cv S) \<noteq> sq S 0" "cv_stuck S"
    by (simp add: signalled_early_def cv_start_def cv_call_def cv_step_defs nk_condvar_zero_def wake_one_def
        cv_stuck_def)
  then have "\<forall>n w S'. cv_runs {GSignal, GBcast} n S w S' \<longrightarrow> cpc S' 0 = CAsleep"
    using cv_stuck_runs unfolding cv_stuck_def by blast
  then show ?thesis using S unfolding cv_stuck_def by blast
qed

theorem condvar_lost_wakeup_witness:
  "\<exists>S S'. cv_schedule signalled_early cv_start = Some S
    \<and> cv_schedule [(1, Some GBcast), (1, None), (1, Some GSignal)] S = Some S' \<and> cpc S' 0 = CAsleep"
proof -
  obtain S where S: "cv_schedule signalled_early cv_start = Some S"
      "\<forall>n w S'. cv_runs {GSignal, GBcast} n S w S' \<longrightarrow> cpc S' 0 = CAsleep"
    using condvar_lost_wakeup by blast
  then obtain S' where S': "cv_schedule [(1, Some GBcast), (1, None), (1, Some GSignal)] S = Some S'"
    by (auto simp: signalled_early_def cv_start_def cv_call_def cv_step_defs nk_condvar_zero_def wake_one_def)
  have "\<exists>w \<le> 0 + length [(1 :: nat, Some GBcast), (1, None), (1, Some GSignal)]. cv_runs {GSignal, GBcast} 2 S w S'"
    by (rule cv_schedule_runs [OF cv_refl _ S']) simp
  then show ?thesis using S S' by blast
qed

section \<open>The counts, the queue and the mutex\<close>

definition in_wait :: "cpc \<Rightarrow> bool" where
  "in_wait p \<longleftrightarrow> p = CSleep \<or> p = CAsleep \<or> p = CTest"

definition with_mutex :: "cpc \<Rightarrow> bool" where
  "with_mutex p \<longleftrightarrow> p = CEnter \<or> p = CReturned"

definition cv_waiters :: "nat \<Rightarrow> cv_sys \<Rightarrow> nat set" where
  "cv_waiters n S = {t. t < n \<and> in_wait (cpc S t)}"

definition cv_inv :: "nat \<Rightarrow> nat \<Rightarrow> cv_sys \<Rightarrow> bool" where
  "cv_inv n w S \<longleftrightarrow> main_seq (cv S) = of_nat w
    \<and> woken_seq (cv S) \<le> wakeup_seq (cv S) \<and> wakeup_seq (cv S) \<le> main_seq (cv S)
    \<and> nwaiters (cv S) = of_nat (card (cv_waiters n S))
    \<and> distinct (wait_queue S) \<and> set (wait_queue S) = {t. t < n \<and> cpc S t = CAsleep}
    \<and> (\<forall>t < n. with_mutex (cpc S t) \<longleftrightarrow> mutex S = Some t)"

lemma cv_invD:
  assumes "cv_inv n w S"
  shows "main_seq (cv S) = of_nat w" "woken_seq (cv S) \<le> wakeup_seq (cv S)" "wakeup_seq (cv S) \<le> main_seq (cv S)"
    "nwaiters (cv S) = of_nat (card (cv_waiters n S))" "distinct (wait_queue S)"
    "set (wait_queue S) = {t. t < n \<and> cpc S t = CAsleep}"
    "\<And>t. t < n \<Longrightarrow> with_mutex (cpc S t) \<longleftrightarrow> mutex S = Some t"
  using assms unfolding cv_inv_def by blast+

lemma finite_cv_waiters [simp]: "finite (cv_waiters n S)"
  by (simp add: cv_waiters_def)

lemma cv_waiters_cgo:
  "t < n \<Longrightarrow> cv_waiters n (cgo t p S) = (if in_wait p then insert t (cv_waiters n S) else cv_waiters n S - {t})"
  by (auto simp: cv_waiters_def)

lemma cv_waiters_upd [simp]:
  "cv_waiters n (S\<lparr>cv := c\<rparr>) = cv_waiters n S" "cv_waiters n (S\<lparr>wait_queue := q\<rparr>) = cv_waiters n S"
  "cv_waiters n (S\<lparr>clock := k\<rparr>) = cv_waiters n S" "cv_waiters n (S\<lparr>mutex := m\<rparr>) = cv_waiters n S"
  "cv_waiters n (S\<lparr>bc := b\<rparr>) = cv_waiters n S" "cv_waiters n (S\<lparr>sq := x\<rparr>) = cv_waiters n S"
  by (simp_all add: cv_waiters_def)

text \<open>A step of one thread.\<close>

lemma cv_inv_move:
  assumes inv: "cv_inv n w S" and t: "t < n" and pc: "cpc S' = (cpc S)(t := p)"
    and seq: "main_seq (cv S') = of_nat w'" "woken_seq (cv S') \<le> wakeup_seq (cv S')"
      "wakeup_seq (cv S') \<le> main_seq (cv S')"
    and cnt: "nwaiters (cv S') = of_nat (card (if in_wait p then insert t (cv_waiters n S) else cv_waiters n S - {t}))"
    and q: "distinct (wait_queue S')"
      "set (wait_queue S') = (if p = CAsleep then insert t (set (wait_queue S)) else set (wait_queue S) - {t})"
    and m: "with_mutex p \<longleftrightarrow> mutex S' = Some t"
      "\<And>u. u < n \<Longrightarrow> u \<noteq> t \<Longrightarrow> mutex S' = Some u \<longleftrightarrow> mutex S = Some u"
  shows "cv_inv n w' S'"
proof -
  note I = cv_invD [OF inv]
  have "cv_waiters n S' = (if in_wait p then insert t (cv_waiters n S) else cv_waiters n S - {t})"
    using t pc by (auto simp: cv_waiters_def)
  moreover have "set (wait_queue S') = {u. u < n \<and> cpc S' u = CAsleep}"
    unfolding q(2) I(6) pc using t by auto
  moreover have "with_mutex (cpc S' u) \<longleftrightarrow> mutex S' = Some u" if "u < n" for u
    using m(1) m(2) [OF that] I(7) [OF that] by (cases "u = t") (simp_all add: pc)
  ultimately show ?thesis unfolding cv_inv_def using seq cnt q(1) by simp
qed

lemma cv_inv_plain:
  assumes inv: "cv_inv n w S" and t: "t < n"
    and p: "in_wait p = in_wait (cpc S t)" "with_mutex p = with_mutex (cpc S t)" "p \<noteq> CAsleep" "cpc S t \<noteq> CAsleep"
    and S': "cpc S' = (cpc S)(t := p)" "wait_queue S' = wait_queue S" "mutex S' = mutex S"
    and c: "nwaiters (cv S') = nwaiters (cv S)" "main_seq (cv S') = main_seq (cv S)"
      "woken_seq (cv S') \<le> wakeup_seq (cv S')" "wakeup_seq (cv S') \<le> main_seq (cv S')"
  shows "cv_inv n w S'"
proof -
  note I = cv_invD [OF inv]
  have "cv_waiters n S = (if in_wait p then insert t (cv_waiters n S) else cv_waiters n S - {t})"
    using t p(1) by (auto simp: cv_waiters_def)
  moreover have "t \<notin> set (wait_queue S)" using I(6) p(4) by simp
  ultimately show ?thesis
    by (intro cv_inv_move [OF inv t S'(1)]) (use I(1,4,5) I(7) [OF t] p(2,3) S'(2,3) c in simp_all)
qed

lemma cv_inv_leave:
  assumes inv: "cv_inv n w S" and t: "t < n" "cpc S t = CTest"
    and c: "nwaiters c = nwaiters (cv S) - 1" "main_seq c = main_seq (cv S)" "woken_seq c \<le> wakeup_seq c"
      "wakeup_seq c \<le> main_seq c"
  shows "cv_inv n w (cgo t CRelock (S\<lparr>cv := c\<rparr>))"
proof -
  note I = cv_invD [OF inv]
  have wt: "t \<in> cv_waiters n S" using t by (simp add: cv_waiters_def in_wait_def)
  then have "Suc 0 \<le> card (cv_waiters n S)" by (auto simp: Suc_le_eq card_gt_0_iff)
  then have "nwaiters c = of_nat (card (cv_waiters n S - {t}))"
    using wt c(1) I(4) by (simp add: card_Diff_singleton of_nat_diff)
  moreover have "t \<notin> set (wait_queue S)" using I(6) t(2) by simp
  ultimately show ?thesis
    by (intro cv_inv_move [OF inv t(1), of _ CRelock])
      (use I(1,5) I(7) [OF t(1)] t(2) c in \<open>simp_all add: in_wait_def with_mutex_def\<close>)
qed

lemma cv_enter_inv:
  assumes inv: "cv_inv n w S" and t: "t < n" "cpc S t = CEnter" and w: "Suc w < 2 ^ 64"
    and c: "nwaiters c = nwaiters (cv S) + 1" "main_seq c = main_seq (cv S) + 1"
      "wakeup_seq c = wakeup_seq (cv S)" "woken_seq c = woken_seq (cv S)"
  shows "cv_inv n (Suc w) (cgo t CSleep (S\<lparr>mutex := None, cv := c, bc := b, sq := x\<rparr>))"
proof -
  note I = cv_invD [OF inv]
  have m: "mutex S = Some t" using I(7) [OF t(1)] t(2) by (simp add: with_mutex_def)
  have ms: "main_seq c = of_nat (Suc w)" using I(1) c(2) by simp
  have "wakeup_seq c \<le> main_seq c"
    unfolding ms using I(1,3) w c(3) by (simp add: word_le_nat_alt unat_of_nat take_bit_eq_mod del: of_nat_Suc)
  moreover have "t \<notin> cv_waiters n S" "t \<notin> set (wait_queue S)"
    using t(2) I(6) by (simp_all add: cv_waiters_def in_wait_def)
  ultimately show ?thesis
    by (intro cv_inv_move [OF inv t(1), of _ CSleep])
      (use I(2,4,5) c(1,3,4) m ms in \<open>simp_all add: in_wait_def with_mutex_def\<close>)
qed

lemma cv_sleep_inv:
  assumes inv: "cv_inv n w S" and t: "t < n" "cpc S t = CSleep"
  shows "cv_inv n w (cgo t CAsleep (S\<lparr>wait_queue := wait_queue S @ [t]\<rparr>))"
proof -
  note I = cv_invD [OF inv]
  have "t \<in> cv_waiters n S" "t \<notin> set (wait_queue S)"
    using t I(6) by (simp_all add: cv_waiters_def in_wait_def)
  then show ?thesis
    by (intro cv_inv_move [OF inv t(1), of _ CAsleep])
      (use I(1-5) I(7) [OF t(1)] t(2) in \<open>simp_all add: in_wait_def with_mutex_def insert_absorb\<close>)
qed

lemma cv_relock_inv:
  assumes inv: "cv_inv n w S" and t: "t < n" "cpc S t = CRelock" "mutex S = None"
  shows "cv_inv n w (cgo t CReturned (S\<lparr>mutex := Some t\<rparr>))"
proof -
  note I = cv_invD [OF inv]
  have "t \<notin> cv_waiters n S" "t \<notin> set (wait_queue S)"
    using t(2) I(6) by (simp_all add: cv_waiters_def in_wait_def)
  then show ?thesis
    by (intro cv_inv_move [OF inv t(1), of _ CReturned])
      (use I(1-5) t(3) in \<open>simp_all add: in_wait_def with_mutex_def\<close>)
qed

lemma cv_test_inv:
  assumes inv: "cv_inv n w S" and t: "t < n" "cpc S t = CTest" and s: "nk_condvar_wait_step t S = Some S'"
  shows "cv_inv n w S'"
proof -
  note I = cv_invD [OF inv]
  have "woken_seq (cv S) + 1 \<le> wakeup_seq (cv S)" if "wakeup_seq (cv S) \<noteq> woken_seq (cv S)"
    using I(2) that by (simp add: inc_le order_less_le)
  then consider "S' = cgo t CSleep S"
    | c where "S' = cgo t CRelock (S\<lparr>cv := c\<rparr>)" "nwaiters c = nwaiters (cv S) - 1" "main_seq c = main_seq (cv S)"
      "woken_seq c \<le> wakeup_seq c" "wakeup_seq c \<le> main_seq c"
    using s t(2) I(2,3) by (auto simp: nk_condvar_wait_step_def Let_def split: if_splits)
  then show ?thesis
  proof cases
    case 1
    show ?thesis unfolding 1
      by (rule cv_inv_plain [OF inv t(1), of CSleep])
        (use I(2,3) t(2) in \<open>simp_all add: in_wait_def with_mutex_def\<close>)
  next
    case 2
    then show ?thesis using cv_inv_leave [OF inv t] by simp
  qed
qed

lemma cv_wait_step_inv:
  assumes inv: "cv_inv n w S" and t: "t < n" and w: "Suc w < 2 ^ 64" and s: "nk_condvar_wait_step t S = Some S'"
  shows "cv_inv n (if cpc S t = CEnter then Suc w else w) S'"
proof (cases "cpc S t")
  case CEnter
  then show ?thesis using s cv_enter_inv [OF inv t CEnter w]
    by (auto simp: nk_condvar_wait_step_def Let_def split: if_splits)
next
  case CSleep
  then show ?thesis using s cv_sleep_inv [OF inv t CSleep] by (auto simp: nk_condvar_wait_step_def Let_def)
next
  case CTest
  then show ?thesis using cv_test_inv [OF inv t CTest s] by simp
next
  case CRelock
  then show ?thesis using s cv_relock_inv [OF inv t CRelock]
    by (auto simp: nk_condvar_wait_step_def Let_def split: if_splits)
qed (use s in \<open>simp_all add: nk_condvar_wait_step_def Let_def\<close>)

lemma cv_inv_clock [simp]: "cv_inv n w (S\<lparr>clock := k\<rparr>) = cv_inv n w S"
  by (simp add: cv_inv_def)

text \<open>Waking the first of the queue, and the rest of the threads stay where they are.\<close>

lemma cv_wake_first:
  assumes inv: "cv_inv n w S" and q: "wait_queue S = u # us"
  shows "cv_inv n w (cgo u CTest (S\<lparr>wait_queue := us\<rparr>))"
proof -
  note I = cv_invD [OF inv]
  have u: "u < n" "cpc S u = CAsleep" using I(6) q by auto
  then have "u \<in> cv_waiters n S" by (simp add: cv_waiters_def in_wait_def)
  then show ?thesis
    by (intro cv_inv_move [OF inv u(1), of _ CTest])
      (use I(1-5) I(7) [OF u(1)] u(2) q in \<open>simp_all add: in_wait_def with_mutex_def insert_absorb\<close>)
qed

lemma wake_one_inv: "cv_inv n w S \<Longrightarrow> cv_inv n w (wake_one S)"
  unfolding wake_one_def by (cases "wait_queue S") (simp_all add: cv_wake_first)

lemma wake_one_others: "cv_inv n w S \<Longrightarrow> cpc S t \<noteq> CAsleep \<Longrightarrow> cpc (wake_one S) t = cpc S t"
proof (cases "wait_queue S")
  case (Cons u us)
  assume "cv_inv n w S" "cpc S t \<noteq> CAsleep"
  then have "u \<noteq> t" using cv_invD(6) [of n w S] Cons by fastforce
  then show ?thesis by (simp add: wake_one_def Cons)
qed (simp add: wake_one_def)

lemma wake_all_Cons:
  "wait_queue S = u # us \<Longrightarrow> wake_all S = wake_all (cgo u CTest (S\<lparr>wait_queue := us\<rparr>))"
proof -
  assume q: "wait_queue S = u # us"
  then have "wake_all S = fold (\<lambda>u. cgo u CTest) us (cgo u CTest (S\<lparr>wait_queue := []\<rparr>))"
    by (simp add: wake_all_def)
  also have "cgo u CTest (S\<lparr>wait_queue := []\<rparr>) = (cgo u CTest (S\<lparr>wait_queue := us\<rparr>))\<lparr>wait_queue := []\<rparr>"
    by (cases S) (simp add: cgo_def)
  finally show ?thesis by (simp add: wake_all_def)
qed

lemma word_less_inc: "(x :: u64) < y \<Longrightarrow> x \<le> x + 1 \<and> x + 1 \<le> y"
proof -
  assume xy: "x < y"
  then have "x + 1 \<noteq> 0" by (metis add_eq_0_iff2 linorder_not_le word_n1_ge)
  then have "unat (1 + x) = Suc (unat x)" by (intro unatSuc) (simp add: add.commute)
  then show ?thesis using xy by (simp add: word_le_nat_alt word_less_nat_alt add.commute)
qed

lemma wake_all_inv:
  "cv_inv n w S \<Longrightarrow> cv_inv n w (wake_all S) \<and> (\<forall>t. cpc S t \<noteq> CAsleep \<longrightarrow> cpc (wake_all S) t = cpc S t)"
proof (induction "wait_queue S" arbitrary: S)
  case Nil
  then have "wake_all S = S" by (simp add: wake_all_def)
  then show ?case using Nil.prems by simp
next
  case (Cons u us)
  let ?S = "cgo u CTest (S\<lparr>wait_queue := us\<rparr>)"
  have q: "wait_queue S = u # us" using Cons.hyps(2) by simp
  have "cpc S u = CAsleep" using cv_invD(6) [OF Cons.prems] q by auto
  moreover have "cv_inv n w (wake_all ?S) \<and> (\<forall>t. cpc ?S t \<noteq> CAsleep \<longrightarrow> cpc (wake_all ?S) t = cpc ?S t)"
    by (rule Cons.hyps(1)) (simp_all add: cv_wake_first [OF Cons.prems q])
  ultimately show ?case unfolding wake_all_Cons [OF q] by auto
qed

lemma cv_idle_inv:
  assumes inv: "cv_inv n w S" and t: "t < n" and p: "\<not> in_wait (cpc S t)" "\<not> with_mutex (cpc S t)"
  shows "cv_inv n w (cgo t CIdle S)"
  by (rule cv_inv_plain [OF inv t, of CIdle])
    (use p cv_invD(2,3) [OF inv] in \<open>auto simp: in_wait_def with_mutex_def\<close>)

lemma cv_signal_step_inv:
  assumes inv: "cv_inv n w S" and t: "t < n" and s: "nk_condvar_signal_step t S = Some S'"
  shows "cv_inv n w S'"
proof (cases "cpc S t")
  case GSignal
  note I = cv_invD [OF inv]
  let ?c = "(cv S)\<lparr>wakeup_seq := wakeup_seq (cv S) + 1\<rparr>"
  have up: "cv_inv n w (cgo t GWakeOne (S\<lparr>clock := True, cv := ?c\<rparr>))" if "wakeup_seq (cv S) < main_seq (cv S)"
    by (rule cv_inv_plain [OF inv t, of GWakeOne])
      (use word_less_inc [OF that] I(2) GSignal in \<open>auto simp: in_wait_def with_mutex_def\<close>)
  have "cv_inv n w (cgo t CIdle S)"
    by (rule cv_idle_inv [OF inv t]) (simp_all add: GSignal in_wait_def with_mutex_def)
  then show ?thesis using s GSignal up
    by (auto simp: nk_condvar_signal_step_def Let_def split: if_splits)
next
  case GWakeOne
  have "cv_inv n w (wake_one (S\<lparr>clock := False\<rparr>))" using wake_one_inv inv by simp
  moreover have "cpc (wake_one (S\<lparr>clock := False\<rparr>)) t = GWakeOne"
    using wake_one_others [of n w "S\<lparr>clock := False\<rparr>" t] inv GWakeOne by simp
  ultimately show ?thesis
    using s GWakeOne cv_idle_inv [OF _ t] by (auto simp: nk_condvar_signal_step_def Let_def in_wait_def with_mutex_def)
qed (use s in \<open>simp_all add: nk_condvar_signal_step_def Let_def\<close>)

lemma cv_bcast_step_inv:
  assumes inv: "cv_inv n w S" and t: "t < n" and s: "nk_condvar_bcast_step t S = Some S'"
  shows "cv_inv n w S'"
proof (cases "cpc S t")
  case GBcast
  let ?c = "(cv S)\<lparr>woken_seq := main_seq (cv S), wakeup_seq := main_seq (cv S), bcast_seq := bcast_seq (cv S) + 1\<rparr>"
  have up: "cv_inv n w (cgo t GWakeAll (S\<lparr>cv := ?c\<rparr>))"
    by (rule cv_inv_plain [OF inv t, of GWakeAll]) (simp_all add: GBcast in_wait_def with_mutex_def)
  have "cv_inv n w (cgo t CIdle S)"
    by (rule cv_idle_inv [OF inv t]) (simp_all add: GBcast in_wait_def with_mutex_def)
  then show ?thesis using s GBcast up
    by (auto simp: nk_condvar_bcast_step_def Let_def split: if_splits)
next
  case GWakeAll
  then show ?thesis
    using s wake_all_inv [OF inv] cv_idle_inv [of n w "wake_all S" t] t
    by (auto simp: nk_condvar_bcast_step_def Let_def in_wait_def with_mutex_def)
qed (use s in \<open>simp_all add: nk_condvar_bcast_step_def Let_def\<close>)

lemma cv_return_inv:
  assumes inv: "cv_inv n w S" and t: "t < n" "cpc S t = CReturned"
  shows "cv_inv n w (cgo t CIdle (S\<lparr>mutex := None\<rparr>))"
proof -
  note I = cv_invD [OF inv]
  have m: "mutex S = Some t" using I(7) [OF t(1)] t(2) by (simp add: with_mutex_def)
  have "t \<notin> cv_waiters n S" "t \<notin> set (wait_queue S)"
    using t(2) I(6) by (simp_all add: cv_waiters_def in_wait_def)
  then show ?thesis
    by (intro cv_inv_move [OF inv t(1), of _ CIdle])
      (use I(1-5) m in \<open>simp_all add: in_wait_def with_mutex_def\<close>)
qed

lemma cv_step_inv:
  assumes inv: "cv_inv n w S" and t: "t < n" and w: "Suc w < 2 ^ 64" and s: "cv_step t S = Some S'"
  shows "cv_inv n (if cpc S t = CEnter then Suc w else w) S'"
  using s cv_return_inv [OF inv t] cv_signal_step_inv [OF inv t, of S'] cv_bcast_step_inv [OF inv t, of S']
    cv_wait_step_inv [OF inv t w, of S']
  by (cases "cpc S t") (auto simp: cv_step_def)

lemma cv_call_inv:
  assumes inv: "cv_inv n w S" and t: "t < n" and p: "p \<in> {CEnter, GSignal, GBcast}" and s: "cv_call p t S = Some S'"
  shows "cv_inv n w S'"
proof -
  note I = cv_invD [OF inv]
  have idle: "cpc S t = CIdle" using s by (auto simp: cv_call_def split: if_splits)
  have out: "t \<notin> cv_waiters n S" "t \<notin> set (wait_queue S)"
    using idle I(6) by (simp_all add: cv_waiters_def in_wait_def)
  show ?thesis
  proof (cases "p = CEnter")
    case True
    then have "mutex S = None" "S' = cgo t CEnter (S\<lparr>mutex := Some t\<rparr>)"
      using s by (auto simp: cv_call_def split: if_splits)
    then show ?thesis
      by (simp, intro cv_inv_move [OF inv t, of _ CEnter])
        (use I(1-5) out in \<open>simp_all add: in_wait_def with_mutex_def\<close>)
  next
    case False
    then have "S' = cgo t p S" using s by (auto simp: cv_call_def split: if_splits)
    then show ?thesis
      by (simp, intro cv_inv_plain [OF inv t, of p])
        (use I(2,3) p False idle in \<open>auto simp: in_wait_def with_mutex_def\<close>)
  qed
qed

lemma cv_inv_start: "cv_inv n 0 cv_start"
  by (simp add: cv_inv_def cv_start_def nk_condvar_zero_def cv_waiters_def in_wait_def with_mutex_def)

lemma cv_inv_runs:
  "cv_runs {CEnter, GSignal, GBcast} n cv_start w S \<Longrightarrow> Suc w < 2 ^ 64 \<Longrightarrow> cv_inv n w S"
proof (induction rule: cv_runs.induct)
  case cv_refl
  show ?case by (rule cv_inv_start)
next
  case (cv_calls w S' t p S'')
  then show ?case using cv_call_inv by blast
next
  case (cv_steps w S' t S'')
  then have "Suc w < 2 ^ 64" by (auto split: if_splits)
  with cv_steps show ?case using cv_step_inv by blast
qed

text \<open>
  C15. The books of a condition variable: with any number of threads that wait, signal and broadcast, in every
  interleaving and for fewer than \<open>2 ^ 64 - 1\<close> waits, the sequence numbers keep their order, so no more
  waits end by signals than were signalled; the number of waiters is the number of threads in the
  wait; each thread asleep is on the queue exactly once and nobody else is; and two threads never both
  return from their wait with the mutex. A destroy succeeds only when no thread is in the wait.
\<close>

theorem condvar_consistent:
  assumes "cv_runs {CEnter, GSignal, GBcast} n cv_start w S" "Suc w < 2 ^ 64" "n < 2 ^ 32"
  shows "woken_seq (cv S) \<le> wakeup_seq (cv S) \<and> wakeup_seq (cv S) \<le> main_seq (cv S) \<and> main_seq (cv S) = of_nat w
    \<and> unat (nwaiters (cv S)) = card {t. t < n \<and> cpc S t \<in> {CSleep, CAsleep, CTest}}
    \<and> distinct (wait_queue S) \<and> set (wait_queue S) = {t. t < n \<and> cpc S t = CAsleep}
    \<and> (\<forall>t < n. \<forall>u < n. cpc S t = CReturned \<and> cpc S u = CReturned \<longrightarrow> t = u)
    \<and> (fst (nk_condvar_destroy (cv S)) = 0 \<longleftrightarrow> (\<forall>t < n. cpc S t \<notin> {CSleep, CAsleep, CTest}))"
proof -
  note I = cv_invD [OF cv_inv_runs [OF assms(1,2)]]
  have W: "cv_waiters n S = {t. t < n \<and> cpc S t \<in> {CSleep, CAsleep, CTest}}"
    by (auto simp: cv_waiters_def in_wait_def)
  have "card (cv_waiters n S) \<le> card {..<n}" by (rule card_mono) (auto simp: cv_waiters_def)
  then have cnt: "unat (nwaiters (cv S)) = card (cv_waiters n S)"
    unfolding I(4) using assms(3) by (simp add: unat_of_nat take_bit_eq_mod)
  have "fst (nk_condvar_destroy (cv S)) = 0 \<longleftrightarrow> card (cv_waiters n S) = 0"
    unfolding cnt [symmetric] by (simp add: nk_condvar_destroy_def unat_eq_0)
  then have "fst (nk_condvar_destroy (cv S)) = 0 \<longleftrightarrow> (\<forall>t < n. cpc S t \<notin> {CSleep, CAsleep, CTest})"
    by (auto simp: W)
  moreover have "t = u" if "t < n" "u < n" "cpc S t = CReturned" "cpc S u = CReturned" for t u
    using I(7) [OF that(1)] I(7) [OF that(2)] that(3,4) by (simp add: with_mutex_def)
  ultimately show ?thesis using I(1-3,5,6) cnt [unfolded W] by blast
qed

text \<open>Thread 0 waits and is asleep when thread 1 signals; then it returns.\<close>

definition signalled_asleep :: "(nat \<times> cpc option) list" where
  "signalled_asleep = [(0, Some CEnter), (0, None), (0, None), (1, Some GSignal), (1, None), (1, None), (0, None), (0, None)]"

theorem condvar_consistent_witness:
  "\<exists>S. cv_schedule signalled_asleep cv_start = Some S \<and> cpc S 0 = CReturned
    \<and> fst (nk_condvar_destroy (cv S)) = 0 \<and> wait_queue S = []"
proof -
  obtain S where S: "cv_schedule signalled_asleep cv_start = Some S" "cpc S 0 = CReturned" "cpc S 1 = CIdle"
    by (simp add: signalled_asleep_def cv_start_def cv_call_def cv_step_defs nk_condvar_zero_def wake_one_def)
  have "\<exists>w \<le> 0 + length signalled_asleep. cv_runs {CEnter, GSignal, GBcast} 2 cv_start w S"
    by (rule cv_schedule_runs [OF cv_refl _ S(1)]) (simp add: signalled_asleep_def)
  then obtain w where w: "w \<le> 0 + length signalled_asleep" "cv_runs {CEnter, GSignal, GBcast} 2 cv_start w S"
    by blast
  have "Suc w < 2 ^ 64" "(2 :: nat) < 2 ^ 32" using w(1) by (simp_all add: signalled_asleep_def)
  note C = condvar_consistent [OF w(2) this]
  have d: "fst (nk_condvar_destroy (cv S)) = 0 \<longleftrightarrow> (\<forall>t < 2. cpc S t \<notin> {CSleep, CAsleep, CTest})"
    using C by (elim conjE)
  have q: "set (wait_queue S) = {t. t < 2 \<and> cpc S t = CAsleep}"
    using C by (elim conjE)
  have out: "cpc S t \<notin> {CSleep, CAsleep, CTest}" if "t < 2" for t
    using that S(2,3) by (cases "t = 0") (simp_all add: less_2_cases_iff)
  have "fst (nk_condvar_destroy (cv S)) = 0" unfolding d using out by blast
  moreover have "set (wait_queue S) = {}" unfolding q using out by blast
  ultimately show ?thesis using S(1,2) by simp
qed

end
