(* ===== verification/Spec2Isabelle.thy ===== *)
theory Spec2Isabelle
  imports Resched_Props Apic_Timer Rt_List Migration Change Group_Change Kmem Bitmap
    Broadcast Locks Condvar
begin

text \<open>
  Verification of the coscheduling parts of the Nautilus kernel: the hard real-time scheduler, the
  thread groups and their admission protocol, the locks and the memory allocator, and the library
  code they stand on.

  \<^bold>\<open>The program.\<close> Nautilus runs threads with aperiodic, sporadic or periodic constraints. Each CPU
  has a scheduler (\<open>src/nautilus/scheduler.c\<close>) with a queue of pending real-time threads ordered by
  arrival, a queue of runnable ones ordered by deadline and a queue of aperiodic threads. A thread
  is admitted by its utilisation; a scheduling pass, entered from the timer interrupt or by the
  running thread, moves arrived threads, charges the running one, picks the next and programs the
  one-shot timer of the local APIC (\<open>src/dev/apic.c\<close>). Threads move between CPUs by migration and
  work stealing. Threads join groups (\<open>src/nautilus/group.c\<close>), elect a leader, synchronise at the
  barrier of their group and change their constraints together (\<open>src/nautilus/group_sched.c\<close>).
  Barriers for threads and cores are in \<open>src/nautilus/barrier.c\<close>, linked lists and queues in
  \<open>include/nautilus/list.h\<close> and \<open>queue.h\<close>, strings and memory copies in
  \<open>src/nautilus/naut_string.c\<close>. Memory comes from the kernel allocator (\<open>src/nautilus/mm/kmem.c\<close>), which keeps
  a buddy allocator (\<open>mm/buddy.c\<close>) per region of physical memory; bitmaps are in \<open>lib/bitmap.c\<close>. Threads
  exclude each other with spinlocks, ticket locks and readers-writer locks and wait on condition
  variables (\<open>spinlock.h\<close>, \<open>ticketlock.c\<close>, \<open>rwlock.c\<close>, \<open>condvar.c\<close>).

  \<^bold>\<open>How the code is represented.\<close> A structure is a record, an enumeration a datatype, an unsigned
  integer a word of its width, a pointer a number with 0 for null, an array a function of its
  index. An operation is a function that returns the new state, with the C return value where there
  is one. A path that the machine or the kernel would stop (null or wild pointers, accesses out of
  bounds, divide errors, failed assertions, panics) is a value of \<open>fault\<close>, and an operation that
  can take one returns a \<open>result\<close>. The build is the default one: assertions on, sanity checks of
  the scheduler off, round robin for aperiodic threads; the other three aperiodic models are
  covered too, as a parameter.

  \<^bold>\<open>The theories.\<close>
  \<^item> \<open>Prelude\<close>: words, faults, results, the elements of array prefixes, circular indices.
  \<^item> \<open>Sched_Types\<close>: the structures of \<open>scheduler.h\<close>, \<open>thread.h\<close>, \<open>apic.h\<close> and \<open>scheduler.c\<close>, and the view one
    CPU has of the state.
  \<^item> \<open>Prio_Queue\<close>: \<open>rt_priority_queue_*\<close>, binary heaps in arrays. A locale states the contract of a
    priority queue; the heap operations interpret it.
  \<^item> \<open>Rt_Queue\<close>: \<open>rt_queue_*\<close>, ring buffers, against the contract of a queue.
  \<^item> \<open>Rt_List\<close>: \<open>rt_list_*\<close>, the doubly linked list of all threads over a heap of nodes.
  \<^item> \<open>Aperiodic\<close>: the macros \<open>PUT_APERIODIC\<close>, \<open>GET_NEXT_APERIODIC\<close>, \<open>REMOVE_APERIODIC\<close>, \<open>PEEK_APERIODIC\<close>,
    \<open>SIZE_APERIODIC\<close> and \<open>HAVE_APERIODIC\<close> for round robin, lottery and the two dynamic models.
  \<^item> \<open>Admission\<close>: \<open>rt_thread_admit\<close> and the utilisation sums.
  \<^item> \<open>Apic_Timer\<close>: the one-shot timer and the conversions of cycles, ticks and nanoseconds.
  \<^item> \<open>Resched\<close>, \<open>Resched_Inv\<close>, \<open>Resched_Props\<close>: the pass \<open>_sched_need_resched\<close>, its invariant and what it
    guarantees.
  \<^item> \<open>Sched_Ops\<close>: operations over all CPUs: \<open>_sched_make_runnable\<close>, \<open>handle_special_switch\<close> with yield, sleep
    and exit, \<open>nk_sched_thread_change_constraints\<close>, \<open>nk_sched_thread_move\<close>, \<open>nk_sched_cpu_mug\<close>.
  \<^item> \<open>Migration\<close>: moving and stealing threads. \<open>Change\<close>: changing constraints from end to end.
  \<^item> \<open>Barrier\<close>: the barriers, with waiting at the grain of shared memory accesses.
  \<^item> \<open>List_Head\<close>: circular lists as updates of link fields, and the queues on them.
  \<^item> \<open>Strings\<close>: \<open>naut_string.c\<close>.
  \<^item> \<open>Group\<close>: thread groups. \<open>Group_Sched\<close>: the group admission protocol, verified against the contract of a
    barrier. \<open>Group_Change\<close>: the group barrier keeps that contract. \<open>Broadcast\<close>: the broadcast of a group, a step
    per access to its message slot.
  \<^item> \<open>Buddy\<close>: \<open>buddy_*\<close>: pools with tag bits and free lists, splitting, coalescing and the sanity check.
    \<open>Kmem\<close>: \<open>nk_kmem_init\<close>, \<open>malloc\<close>, \<open>free\<close>, the table of allocated blocks; verified against the contract of a
    zone, which the buddy operations interpret. \<open>Bitmap\<close>: searches and range writes on arrays of words.
  \<^item> \<open>Locks\<close>: spinlocks, ticket locks and readers-writer locks, the last against the contract of a spinlock.
    \<open>Condvar\<close>: waiting, signalling and broadcasting on a condition variable.

  \<^bold>\<open>What is shown.\<close> The queues keep their invariants and do what their contracts say, with the full,
  empty and absent cases. Admission accepts exactly the requests below the limit, the limit is the
  Liu-Layland bound, and the admitted load is bounded up to the rounding of the integer
  arithmetic. A pass neither loses nor duplicates a thread, makes every arrived thread
  runnable, dispatches by earliest deadline a thread with budget left, and programs the timer in time. A migration takes a thread from one queue to another and touches
  nothing else; stealing takes only eligible threads. A thread that is the only
  real-time thread of its CPU and changes to admissible periodic constraints, with its first arrival
  come, goes on running with a full slice. The group barrier refines an abstract barrier in
  every interleaving and every round, and makes progress. On top of it, all threads of a group
  agree on the outcome of a change, and the protocol ends. A broadcast reaches everyone who waits for
  it. The buddy allocator hands out blocks that overlap no other, merges what is freed and loses no
  byte; on top of it \<open>malloc\<close> returns null or a block that is large enough and apart from all others, and
  \<open>free\<close> undoes it. The word-wise bit searches agree with a search bit by bit. The ticket lock excludes
  and is fair, a writer excludes readers and writers, and the books of a condition variable stay
  exact. Linked lists refine lists, \<open>memmove\<close>
  copies overlapping blocks, strings compare and parse as they should.

  Some theorems state what the code does where that is not what it is for: a sporadic thread that
  stays on its CPU faults, a change to sporadic constraints on a CPU without real-time
  threads fails an assertion when the requested size is less than the time since boot, the thread list
  cannot lose its last node, the lottery starves a thread, priorities and admission wrap, a random
  victim does not exist on one CPU, the plain barrier holds nobody back once a thread has returned from it, a group barrier is broken when its
  last member leaves, \<open>strncat\<close> ignores its limit and \<open>strcspn\<close> overruns, a pool at an unaligned
  address cannot take its blocks back, \<open>nk_ticket_trylock\<close> never takes the lock, on a memory in which
  the parameter it compares by mistake has a place of its own, and a signal on a
  condition variable can be lost.

  \<^bold>\<open>Concurrency, bounds and arguments.\<close> An operation under a scheduler's lock is one step, as is a call
  of the allocator. Barrier waits, the group protocol, the broadcast, the locks and the condition
  variables are step functions of one thread, interleaved by step relations over any number of
  threads below \<open>2 ^ 32\<close>, the width of the counters of barriers and readers; up to \<open>2 ^ 16\<close> for the ticket
  lock, the width of a ticket. Memory is sequentially consistent. A condition variable has seen fewer
  than \<open>2 ^ 64 - 1\<close> waits. Pools have a base that is not null and is aligned to their size, and requests
  to \<open>malloc\<close> are between 1 and \<open>2 ^ 63\<close> bytes, where its rounding is exact. A barrier wait takes at most
  9 steps of its own and a group change at most 187 per thread. Loops are recursive functions with a
  measure; the loops that may not end are \<open>partial_function\<close>s or run over a list of what they
  draw, with \<open>None\<close> for a run that has not ended. Cycle counters, random words, the answers the
  scheduler and the groups get from the allocator and from cross-CPU calls, and what other threads do
  while one sleeps are arguments. Addresses of memory blocks and positions in bitmaps are natural
  numbers below the bounds where the code would wrap, and physical addresses are virtual ones, as in
  the default build.

  \<^bold>\<open>Not modelled.\<close> The time stamps and dump functions of the scheduler only record and print. The
  creation and destruction of threads and their stacks, the boot sequence, interrupt entry and the
  context switch are assembly or work on raw stack memory, page tables and device registers, as are
  the drivers. The lock that yield, sleep and exit can release during the switch, what happens
  between the two locked halves of a thread move, and waking a thread onto a full run queue are
  left out. The page bitmap of early boot, the timers, the hash tables and the trees are separate
  components that the parts above do not call. The hash lists and typed iteration macros of the list
  header and the region operations and shifts of bitmaps have no caller here. The shell, the console
  and the file systems do input and output. The run-time systems shipped with the kernel (Legion,
  NDPC, NESL) are clients of the kernel in C++ and other languages, not parts of it.
\<close>

end
